(* ===== verification/Prelude.thy ===== *)
theory Prelude
  imports Main "HOL-Library.Word" "HOL-Library.List_Lexorder" "HOL-Library.Signed_Division" "HOL-Library.Multiset"
begin

unbundle bit_operations_syntax

text \<open>
  Shared vocabulary of the development: the Go types the components use (bytes, nil-able byte
  slices, 64-bit integers, errors and panics), fixed-width positional encodings of integers as
  byte strings with their order, and the generic list lemmas the component theories rely on.
\<close>

section \<open>Proof collections\<close>

named_theorems go_defs \<open>unfolding rules for the small wrappers around Go primitives\<close>
named_theorems wf_intros \<open>introduction rules for the components' invariants\<close>

section \<open>Go values\<close>

type_synonym byte = "8 word"
type_synonym bytes = "byte list"

text \<open>
  A Go byte slice is either nil or has contents; the two are told apart by comparisons with nil
  and by nothing else (\<open>bytes.Equal\<close>, \<open>len\<close>, \<open>range\<close> and \<open>append\<close> read nil as empty).
\<close>

type_synonym gobytes = "bytes option"

definition contents :: "gobytes \<Rightarrow> bytes" where
  "contents s = (case s of None \<Rightarrow> [] | Some b \<Rightarrow> b)"

lemma contents_simps [simp]: "contents None = []" "contents (Some b) = b"
  by (simp_all add: contents_def)

text \<open>\<open>bytes.Equal\<close>: same contents, nil counted as empty.\<close>

definition bytes_Equal :: "gobytes \<Rightarrow> gobytes \<Rightarrow> bool" where
  "bytes_Equal a b \<longleftrightarrow> contents a = contents b"

text \<open>
  Errors. \<open>Errorf\<close> carries the format string and the arguments of \<open>fmt.Errorf\<close>; \<open>External\<close> is an
  error value handed over by code outside the model (the database, the network, a decoder);
  \<open>Panic\<close> is a run-time panic, which ends the call and is never caught by this program.
\<close>

datatype error =
    Errorf string "fmtarg list"
  | External string
  | Panic string
  | ErrTreeNeedsInit
  | ErrLeavesNotFound
  | ErrNotFound
and fmtarg = ArgInt int | ArgStr string | ArgErr error

type_synonym 'a result = "error + 'a"

text \<open>An error is wrapped by its caller; a panic is not, it unwinds the caller too.\<close>

fun wrap_err :: "string \<Rightarrow> fmtarg list \<Rightarrow> error \<Rightarrow> error" where
  "wrap_err fmt args (Panic p) = Panic p"
| "wrap_err fmt args e = Errorf fmt (args @ [ArgErr e])"

text \<open>A loop that appends one fallible result per element and returns the first error.\<close>

fun mapM :: "('a \<Rightarrow> 'b result) \<Rightarrow> 'a list \<Rightarrow> 'b list result" where
  "mapM f [] = Inr []"
| "mapM f (x # xs) =
     (case f x of Inl e \<Rightarrow> Inl e
      | Inr y \<Rightarrow> (case mapM f xs of Inl e \<Rightarrow> Inl e | Inr ys \<Rightarrow> Inr (y # ys)))"

lemma mapM_Inr_iff: "mapM f xs = Inr ys \<longleftrightarrow> list_all2 (\<lambda>x y. f x = Inr y) xs ys"
proof (induction xs arbitrary: ys)
  case Nil
  then show ?case by auto
next
  case (Cons x xs)
  have "mapM f (x # xs) = Inr ys \<longleftrightarrow> (\<exists>z zs. ys = z # zs \<and> f x = Inr z \<and> mapM f xs = Inr zs)"
    by (auto split: sum.splits)
  with Cons show ?case by (simp add: list_all2_Cons1)
qed

lemma mapM_length: "mapM f xs = Inr ys \<Longrightarrow> length ys = length xs"
  by (simp add: mapM_Inr_iff list_all2_lengthD)

lemma mapM_Inl_D: "mapM f xs = Inl e \<Longrightarrow> \<exists>x \<in> set xs. f x = Inl e"
  by (induction xs) (auto split: sum.splits)

lemma mapM_Inr_D: "mapM f xs = Inr ys \<Longrightarrow> x \<in> set xs \<Longrightarrow> \<exists>y. f x = Inr y"
  by (induction xs arbitrary: ys) (auto split: sum.splits)

lemma mapM_map_Inr [simp]: "(\<And>x. x \<in> set xs \<Longrightarrow> f x = Inr (g x)) \<Longrightarrow> mapM f xs = Inr (map g xs)"
  by (induction xs) auto

section \<open>Maps\<close>

lemma map_le_None: "m \<subseteq>\<^sub>m m' \<Longrightarrow> m' k = None \<Longrightarrow> m k = None"
  by (metis domIff map_le_def)

lemma map_le_Some: "m \<subseteq>\<^sub>m m' \<Longrightarrow> m k = Some v \<Longrightarrow> m' k = Some v"
  by (metis domI map_le_def)

section \<open>64-bit integers\<close>

text \<open>
  Go's \<open>int\<close> and \<open>int64\<close> are represented by \<open>int\<close> values in range; an operation that can overflow is
  wrapped explicitly.
\<close>

definition wrap64 :: "int \<Rightarrow> int" where
  "wrap64 x = signed_take_bit 63 x"

definition in_int64 :: "int \<Rightarrow> bool" where
  "in_int64 x \<longleftrightarrow> - (2 ^ 63) \<le> x \<and> x < 2 ^ 63"

abbreviation minInt64 :: int where "minInt64 \<equiv> - (2 ^ 63)"
abbreviation maxInt64 :: int where "maxInt64 \<equiv> 2 ^ 63 - 1"

lemma wrap64_id [simp]: "in_int64 x \<Longrightarrow> wrap64 x = x"
  by (simp add: in_int64_def wrap64_def signed_take_bit_int_eq_self)

lemma in_int64_wrap64 [simp, intro]: "in_int64 (wrap64 x)"
  using signed_take_bit_int_greater_eq_minus_exp [of 63 x] signed_take_bit_int_less_exp [of 63 x]
  by (simp add: in_int64_def wrap64_def)

lemma in_int64I [intro]: "0 \<le> x \<Longrightarrow> x < 2 ^ 63 \<Longrightarrow> in_int64 x"
  by (simp add: in_int64_def)

lemma signed_take_bit_or: "signed_take_bit n (a OR b) = signed_take_bit n a OR signed_take_bit n (b::int)"
  by (rule bit_eqI) (auto simp: bit_signed_take_bit_iff bit_or_iff)

lemma sdiv_nonneg: "0 \<le> (a::int) \<Longrightarrow> 0 < b \<Longrightarrow> a sdiv b = a div b"
  by (cases "a = 0") (auto simp: signed_divide_int_def)

lemma smod_nonneg: "0 \<le> (a::int) \<Longrightarrow> 0 < b \<Longrightarrow> a smod b = a mod b"
  by (cases "a = 0") (simp_all add: signed_modulo_int_def sgn_if minus_div_mult_eq_mod)

lemma smod_less: "0 < (n::int) \<Longrightarrow> a smod n < n"
  using smod_int_range [of n a] by auto

section \<open>Positional encodings\<close>

text \<open>
  Fixed-width big-endian encodings: \<open>n\<close> digits of base \<open>b\<close>, most significant first, each written by
  \<open>d\<close>. The raw big-endian bytes of a row key (base 256) and the zero-padded hexadecimal of a key
  prefix (base 16) are both of this form.
\<close>

fun posenc :: "int \<Rightarrow> (int \<Rightarrow> byte) \<Rightarrow> nat \<Rightarrow> int \<Rightarrow> bytes" where
  "posenc b d 0 x = []"
| "posenc b d (Suc n) x = d (x div b ^ n mod b) # posenc b d n x"

lemma length_posenc [simp]: "length (posenc b d n x) = n"
  by (induction n) auto

lemma posenc_mod: "0 < b \<Longrightarrow> n \<le> m \<Longrightarrow> posenc b d n (x mod b ^ m) = posenc b d n x"
proof (induction n)
  case 0
  then show ?case by simp
next
  case (Suc n)
  obtain k where k: "m = n + Suc k"
    using Suc.prems(2) by (metis add.commute add_Suc_right le_iff_add add_Suc)
  have "x mod b ^ m div b ^ n mod b = x div b ^ n mod b"
  proof -
    have "x mod (b ^ n * b ^ Suc k) div b ^ n = x div b ^ n mod b ^ Suc k"
      using Suc.prems(1) by (simp add: zmod_zmult2_eq)
    then have "x mod b ^ m div b ^ n = x div b ^ n mod b ^ Suc k"
      by (simp only: k power_add)
    then show ?thesis by (simp add: mod_mod_cancel)
  qed
  with Suc show ?case by simp
qed

lemma div_mod_split_iff: "0 < (m::int) \<Longrightarrow> a div m = b \<and> a mod m = k \<longleftrightarrow> 0 \<le> k \<and> k < m \<and> a = m * b + k"
  by (auto simp: div_pos_pos_trivial)

lemma zdiv_less_iff: "0 < (m::int) \<Longrightarrow> x div m < b \<longleftrightarrow> x < b * m"
  using pos_imp_zdiv_neg_iff [of m "x + (- b) * m"] div_mult_self1 [of m x "- b"] by auto

lemma div_mod_less_iff:
  "0 < (m::int) \<Longrightarrow> x < y \<longleftrightarrow> x div m < y div m \<or> x div m = y div m \<and> x mod m < y mod m"
  by (metis add_less_cancel_left linorder_less_linear mult_div_mod_eq not_less_iff_gr_or_eq
      zdiv_mono1 order_le_less)

text \<open>What makes a digit alphabet good: digits of \<open>0..<b\<close> keep their order as bytes.\<close>

locale digit_code =
  fixes b :: int and d :: "int \<Rightarrow> byte"
  assumes base_pos: "1 < b"
    and digit_mono: "0 \<le> x \<Longrightarrow> x < y \<Longrightarrow> y < b \<Longrightarrow> d x < d y"
begin

lemma digit_less_iff: "0 \<le> x \<Longrightarrow> x < b \<Longrightarrow> 0 \<le> y \<Longrightarrow> y < b \<Longrightarrow> d x < d y \<longleftrightarrow> x < y"
  using digit_mono [of x y] digit_mono [of y x] by (cases x y rule: linorder_cases) auto

lemma digit_eq_iff: "0 \<le> x \<Longrightarrow> x < b \<Longrightarrow> 0 \<le> y \<Longrightarrow> y < b \<Longrightarrow> d x = d y \<longleftrightarrow> x = y"
  by (metis digit_mono less_irrefl linorder_neqE)

lemma posenc_less_iff:
  "0 \<le> x \<Longrightarrow> x < b ^ n \<Longrightarrow> 0 \<le> y \<Longrightarrow> y < b ^ n \<Longrightarrow> posenc b d n x < posenc b d n y \<longleftrightarrow> x < y"
proof (induction n arbitrary: x y)
  case 0
  then show ?case by simp
next
  case (Suc n)
  have bn: "0 < b ^ n" using base_pos by simp
  let ?xh = "x div b ^ n" and ?yh = "y div b ^ n"
  have hi: "0 \<le> ?xh" "?xh < b" "0 \<le> ?yh" "?yh < b"
    using Suc.prems bn by (auto simp: pos_imp_zdiv_nonneg_iff zdiv_less_iff)
  have lo: "posenc b d n x < posenc b d n y \<longleftrightarrow> x mod b ^ n < y mod b ^ n"
    using Suc.IH [of "x mod b ^ n" "y mod b ^ n"] bn base_pos by (simp add: posenc_mod)
  have "x < y \<longleftrightarrow> ?xh < ?yh \<or> ?xh = ?yh \<and> x mod b ^ n < y mod b ^ n"
    by (rule div_mod_less_iff [OF bn])
  with hi lo show ?case
    by (simp add: digit_less_iff digit_eq_iff)
qed

lemma posenc_eq_iff:
  "0 \<le> x \<Longrightarrow> x < b ^ n \<Longrightarrow> 0 \<le> y \<Longrightarrow> y < b ^ n \<Longrightarrow> posenc b d n x = posenc b d n y \<longleftrightarrow> x = y"
  by (metis linorder_less_linear less_irrefl posenc_less_iff)

lemma posenc_le_iff:
  "0 \<le> x \<Longrightarrow> x < b ^ n \<Longrightarrow> 0 \<le> y \<Longrightarrow> y < b ^ n \<Longrightarrow> posenc b d n x \<le> posenc b d n y \<longleftrightarrow> x \<le> y"
  by (metis linorder_not_le posenc_less_iff)

end

text \<open>Bytes as digits of base 256, and lower-case hexadecimal digits.\<close>

lemma word_of_int_byte_less: "0 \<le> x \<Longrightarrow> x < y \<Longrightarrow> y < 256 \<Longrightarrow> (word_of_int x :: byte) < word_of_int y"
  by (simp add: word_less_alt unsigned_of_int take_bit_int_eq_self)

definition hexdigit :: "int \<Rightarrow> byte" where
  "hexdigit x = word_of_int (if x < 10 then 48 + x else 87 + x)"

interpretation be: digit_code 256 "word_of_int :: int \<Rightarrow> byte"
  by unfold_locales (auto intro: word_of_int_byte_less)

interpretation hx: digit_code 16 hexdigit
  by unfold_locales (simp, unfold hexdigit_def, rule word_of_int_byte_less, auto)

section \<open>The order of byte strings\<close>

text \<open>
  \<open>bytes.Compare\<close> and the key order of the database are the lexicographic order of \<open>List_Lexorder\<close>, in which a
  proper prefix comes first.
\<close>

lemma append_less_iff [simp]: "p @ xs < p @ ys \<longleftrightarrow> xs < (ys :: bytes)"
  by (induction p) auto

lemma append_le_iff [simp]: "p @ xs \<le> p @ ys \<longleftrightarrow> xs \<le> (ys :: bytes)"
  by (induction p) auto

lemma same_length_less:
  "length xs = length ys \<Longrightarrow> xs @ us < ys @ vs \<longleftrightarrow> xs < ys \<or> xs = ys \<and> us < (vs :: bytes)"
  by (induction xs ys rule: list_induct2) auto

lemma same_length_le:
  "length xs = length ys \<Longrightarrow> xs @ us \<le> ys @ vs \<longleftrightarrow> xs < ys \<or> xs = ys \<and> us \<le> (vs :: bytes)"
  by (induction xs ys rule: list_induct2) auto

text \<open>Everything between two strings with a common prefix has that prefix.\<close>

lemma between_prefix:
  "p @ xs < k \<Longrightarrow> k \<le> p @ ys \<Longrightarrow> \<exists>z. k = p @ z \<and> xs < z \<and> z \<le> (ys :: bytes)"
proof (induction p arbitrary: k)
  case Nil
  then show ?case by simp
next
  case (Cons a p)
  then show ?case by (cases k) (auto simp: not_less_iff_gr_or_eq)
qed

lemma between_prefix_right:
  "p @ xs \<le> k \<Longrightarrow> k < p @ ys \<Longrightarrow> \<exists>z. k = p @ z \<and> xs \<le> z \<and> z < (ys :: bytes)"
proof (induction p arbitrary: k)
  case Nil
  then show ?case by simp
next
  case (Cons a p)
  then show ?case by (cases k) (auto simp: not_less_iff_gr_or_eq)
qed

section \<open>Step relations\<close>

text \<open>What every step keeps holds after any number of steps; a potential that falls by \<open>c\<close> in a step bounds their number.\<close>

locale step_invariant =
  fixes step :: "'s \<Rightarrow> 's \<Rightarrow> bool" and inv :: "'s \<Rightarrow> bool"
  assumes inv_step: "step p q \<Longrightarrow> inv p \<Longrightarrow> inv q"
begin

lemma inv_steps: "step\<^sup>*\<^sup>* p q \<Longrightarrow> inv p \<Longrightarrow> inv q"
  by (induction rule: rtranclp_induct) (blast intro: inv_step)+

lemma inv_power: "(step ^^ n) p q \<Longrightarrow> inv p \<Longrightarrow> inv q"
  using inv_steps relpowp_imp_rtranclp by metis

end

locale step_potential = step_invariant +
  fixes c :: nat and potential :: "'a \<Rightarrow> nat"
  assumes potential_step: "step p q \<Longrightarrow> inv p \<Longrightarrow> potential q + c \<le> potential p"
begin

lemma potential_bound: "(step ^^ n) p q \<Longrightarrow> inv p \<Longrightarrow> potential q + n * c \<le> potential p"
proof (induction n arbitrary: p)
  case (Suc n)
  then obtain r where r: "step p r" "(step ^^ n) r q" by (metis relpowp_Suc_D2)
  then show ?case using Suc.IH [OF r(2)] inv_step potential_step [OF r(1)] Suc.prems(2) by fastforce
qed simp

end

end
