(* ===== verification/Sha256.thy ===== *)
theory Sha256
  imports Prelude
begin

text \<open>
  SHA-256 as \<open>crypto/sha256\<close> of the Go standard library computes it (FIPS 180-4): padding, message
  schedule, 64 rounds per 64-byte block, eight 32-bit words of state. The rest of the development
  uses two facts only: the digest has 32 bytes, and equal digests of different inputs are a
  collision.
\<close>

section \<open>Word functions and constants\<close>

type_synonym u32 = "32 word"

definition rotr32 :: "nat \<Rightarrow> u32 \<Rightarrow> u32" where
  "rotr32 k x = drop_bit k x OR push_bit (32 - k) x"

definition sigma0 :: "u32 \<Rightarrow> u32" where
  "sigma0 x = rotr32 7 x XOR rotr32 18 x XOR drop_bit 3 x"

definition sigma1 :: "u32 \<Rightarrow> u32" where
  "sigma1 x = rotr32 17 x XOR rotr32 19 x XOR drop_bit 10 x"

definition Sigma0 :: "u32 \<Rightarrow> u32" where
  "Sigma0 x = rotr32 2 x XOR rotr32 13 x XOR rotr32 22 x"

definition Sigma1 :: "u32 \<Rightarrow> u32" where
  "Sigma1 x = rotr32 6 x XOR rotr32 11 x XOR rotr32 25 x"

definition sha_choose :: "u32 \<Rightarrow> u32 \<Rightarrow> u32 \<Rightarrow> u32" where
  "sha_choose x y z = (x AND y) XOR (NOT x AND z)"

definition sha_majority :: "u32 \<Rightarrow> u32 \<Rightarrow> u32 \<Rightarrow> u32" where
  "sha_majority x y z = (x AND y) XOR (x AND z) XOR (y AND z)"

text \<open>The first 32 bits of the fractional parts of the cube roots of the first 64 primes, in decimal.\<close>

definition round_constants :: "u32 list" where
  "round_constants =
    [1116352408, 1899447441, 3049323471, 3921009573, 961987163, 1508970993, 2453635748, 2870763221,
     3624381080, 310598401, 607225278, 1426881987, 1925078388, 2162078206, 2614888103, 3248222580,
     3835390401, 4022224774, 264347078, 604807628, 770255983, 1249150122, 1555081692, 1996064986,
     2554220882, 2821834349, 2952996808, 3210313671, 3336571891, 3584528711, 113926993, 338241895,
     666307205, 773529912, 1294757372, 1396182291, 1695183700, 1986661051, 2177026350, 2456956037,
     2730485921, 2820302411, 3259730800, 3345764771, 3516065817, 3600352804, 4094571909, 275423344,
     430227734, 506948616, 659060556, 883997877, 958139571, 1322822218, 1537002063, 1747873779,
     1955562222, 2024104815, 2227730452, 2361852424, 2428436474, 2756734187, 3204031479, 3329325298]"

record sha_state =
  h0 :: u32
  h1 :: u32
  h2 :: u32
  h3 :: u32
  h4 :: u32
  h5 :: u32
  h6 :: u32
  h7 :: u32

definition initial_state :: sha_state where
  "initial_state =
    \<lparr>h0 = 0x6a09e667, h1 = 0xbb67ae85, h2 = 0x3c6ef372, h3 = 0xa54ff53a,
     h4 = 0x510e527f, h5 = 0x9b05688c, h6 = 0x1f83d9ab, h7 = 0x5be0cd19\<rparr>"

section \<open>Message schedule and compression\<close>

text \<open>The schedule is kept newest word first while it grows.\<close>

fun extend_schedule :: "nat \<Rightarrow> u32 list \<Rightarrow> u32 list" where
  "extend_schedule 0 ws = ws"
| "extend_schedule (Suc n) ws =
     extend_schedule n ((sigma1 (ws ! 1) + ws ! 6 + sigma0 (ws ! 14) + ws ! 15) # ws)"

definition sha_round :: "sha_state \<Rightarrow> u32 \<times> u32 \<Rightarrow> sha_state" where
  "sha_round s kw =
    (let t1 = h7 s + Sigma1 (h4 s) + sha_choose (h4 s) (h5 s) (h6 s) + fst kw + snd kw;
         t2 = Sigma0 (h0 s) + sha_majority (h0 s) (h1 s) (h2 s)
     in \<lparr>h0 = t1 + t2, h1 = h0 s, h2 = h1 s, h3 = h2 s,
         h4 = h3 s + t1, h5 = h4 s, h6 = h5 s, h7 = h6 s\<rparr>)"

definition add_state :: "sha_state \<Rightarrow> sha_state \<Rightarrow> sha_state" where
  "add_state s t =
    \<lparr>h0 = h0 s + h0 t, h1 = h1 s + h1 t, h2 = h2 s + h2 t, h3 = h3 s + h3 t,
     h4 = h4 s + h4 t, h5 = h5 s + h5 t, h6 = h6 s + h6 t, h7 = h7 s + h7 t\<rparr>"

definition compress :: "sha_state \<Rightarrow> u32 list \<Rightarrow> sha_state" where
  "compress s block =
    add_state s (foldl sha_round s (zip round_constants (rev (extend_schedule 48 (rev block)))))"

fun words_of_bytes :: "bytes \<Rightarrow> u32 list" where
  "words_of_bytes (a # b # c # d # rest) =
     (push_bit 24 (ucast a) OR push_bit 16 (ucast b) OR push_bit 8 (ucast c) OR ucast d)
       # words_of_bytes rest"
| "words_of_bytes _ = []"

definition bytes_of_word :: "u32 \<Rightarrow> bytes" where
  "bytes_of_word w = [ucast (drop_bit 24 w), ucast (drop_bit 16 w), ucast (drop_bit 8 w), ucast w]"

section \<open>Padding and the digest\<close>

definition be64_length :: "nat \<Rightarrow> bytes" where
  "be64_length n = map (\<lambda>i. word_of_int (drop_bit (8 * i) (int n))) (rev [0..<8])"

text \<open>
  One 1 bit, zeros up to 56 bytes modulo 64, then the length in bits: always a positive number of
  whole 64-byte blocks.
\<close>

definition pad_message :: "bytes \<Rightarrow> bytes" where
  "pad_message m = m @ [0x80] @ replicate ((119 - length m mod 64) mod 64) 0 @ be64_length (8 * length m)"

fun compress_blocks :: "nat \<Rightarrow> sha_state \<Rightarrow> u32 list \<Rightarrow> sha_state" where
  "compress_blocks 0 s ws = s"
| "compress_blocks (Suc n) s ws = compress_blocks n (compress s (take 16 ws)) (drop 16 ws)"

definition digest_of_state :: "sha_state \<Rightarrow> bytes" where
  "digest_of_state s = concat (map bytes_of_word [h0 s, h1 s, h2 s, h3 s, h4 s, h5 s, h6 s, h7 s])"

definition Sum256 :: "bytes \<Rightarrow> bytes" where
  "Sum256 m =
    (let p = pad_message m
     in digest_of_state (compress_blocks (length p div 64) initial_state (words_of_bytes p)))"

lemma pad_message_blocks: "length (pad_message m) mod 64 = 0"
proof -
  define r where "r = length m mod 64"
  have r: "r < 64" by (simp add: r_def)
  have pad: "(119 - r) mod 64 = (if r \<le> 55 then 55 - r else 119 - r)"
    using r by (auto simp: le_mod_geq)
  have "length (pad_message m) = 64 * (length m div 64) + (r + 9 + (119 - r) mod 64)"
    by (simp add: pad_message_def be64_length_def r_def)
  also have "r + 9 + (119 - r) mod 64 = (if r \<le> 55 then 64 else 128)"
    using r by (simp add: pad)
  finally show ?thesis by simp
qed

lemma length_Sum256 [simp]: "length (Sum256 m) = 32"
  by (simp add: Sum256_def digest_of_state_def bytes_of_word_def Let_def)

lemma Sum256_nonempty [simp]: "Sum256 m \<noteq> []"
  using length_Sum256 [of m] by (metis list.size(3) zero_neq_numeral)

section \<open>Collisions\<close>

text \<open>
  SHA-256 is not injective, so a statement that a digest identifies its input can only be made
  relative to a concrete pair of inputs: either they are equal, or they are a collision.
\<close>

definition collision :: "bytes \<times> bytes \<Rightarrow> bool" where
  "collision p \<longleftrightarrow> fst p \<noteq> snd p \<and> Sum256 (fst p) = Sum256 (snd p)"

lemma Sum256_eq_cases: "Sum256 x = Sum256 y \<Longrightarrow> x = y \<or> collision (x, y)"
  by (auto simp: collision_def)

end
