(* ===== verification/Frontier.thy ===== *)
theory Frontier
  imports Sha256
begin

text \<open>
  Package \<open>custom/frontier\<close>: the roots of the right-most perfect subtrees of the log's Merkle tree,
  one slot per height, nil where the tree has no perfect subtree of that height. \<open>Append\<close> adds a leaf
  hash like an increment of a binary counter, \<open>Head\<close> folds the roots into the tree head. The theory
  proves that \<open>Head\<close> is the Merkle tree hash of RFC 6962 over all appended leaf hashes.
\<close>

section \<open>The package\<close>

record Frontier =
  Roots :: "gobytes list"

definition hashDomain :: "byte \<Rightarrow> gobytes list \<Rightarrow> gobytes" where
  "hashDomain domain slices = Some (Sum256 (domain # concat (map contents slices)))"

text \<open>The loop of \<open>Append\<close> over the roots: the updated roots and what is left in \<open>carry\<close>.\<close>

fun Append_loop :: "gobytes list \<Rightarrow> gobytes \<Rightarrow> gobytes list \<times> gobytes" where
  "Append_loop [] carry = ([], carry)"
| "Append_loop (r # rs) carry =
     (if r = None then (carry # rs, None)
      else case Append_loop rs (hashDomain 1 [r, carry]) of (rs', c) \<Rightarrow> (None # rs', c))"

definition Append :: "Frontier \<Rightarrow> gobytes \<Rightarrow> Frontier" where
  "Append f h =
    (case Append_loop (Roots f) h of (rs, carry) \<Rightarrow>
       if carry \<noteq> None then f\<lparr>Roots := rs @ [carry]\<rparr> else f\<lparr>Roots := rs\<rparr>)"

fun Head_loop :: "gobytes list \<Rightarrow> gobytes \<Rightarrow> gobytes" where
  "Head_loop [] acc = acc"
| "Head_loop (r # rs) acc =
     (if r = None then Head_loop rs acc
      else if acc = None then Head_loop rs r
      else Head_loop rs (hashDomain 1 [r, acc]))"

definition Head :: "Frontier \<Rightarrow> gobytes" where
  "Head f = (if length (Roots f) = 0 then Some (Sum256 []) else Head_loop (Roots f) None)"

definition empty_frontier :: Frontier where
  "empty_frontier = \<lparr>Roots = []\<rparr>"

section \<open>Reference: the Merkle tree hash of RFC 6962\<close>

text \<open>The largest power of two smaller than \<open>n\<close>, for \<open>n > 1\<close>.\<close>

fun split_point :: "nat \<Rightarrow> nat" where
  "split_point n = (if n \<le> 2 then 1 else 2 * split_point ((n + 1) div 2))"

declare split_point.simps [simp del]

lemma split_point_eq:
  "2 ^ i < n \<Longrightarrow> n \<le> 2 ^ Suc i \<Longrightarrow> split_point n = 2 ^ i"
proof (induction i arbitrary: n)
  case 0
  then have "n = 2" by simp
  then show ?case by (simp add: split_point.simps)
next
  case (Suc i)
  have "2 ^ i < (n + 1) div 2" "(n + 1) div 2 \<le> 2 ^ Suc i"
    using Suc.prems by auto
  then have "split_point ((n + 1) div 2) = 2 ^ i" by (rule Suc.IH)
  moreover have "2 < n"
  proof -
    have "(0::nat) < 2 ^ i" by simp
    with Suc.prems(1) show ?thesis unfolding power_Suc by linarith
  qed
  ultimately show ?case by (simp add: split_point.simps [of n])
qed

lemma pow2_interval: "1 < n \<Longrightarrow> \<exists>i. 2 ^ i < n \<and> n \<le> (2::nat) ^ Suc i"
proof (induction n rule: less_induct)
  case (less n)
  show ?case
  proof (cases "n = 2")
    case True
    then show ?thesis by (intro exI [of _ 0]) simp
  next
    case False
    with less.prems have "1 < (n + 1) div 2" "(n + 1) div 2 < n" by auto
    with less.IH obtain i where "2 ^ i < (n + 1) div 2" "(n + 1) div 2 \<le> 2 ^ Suc i" by blast
    then show ?thesis by (intro exI [of _ "Suc i"]) auto
  qed
qed

lemma split_point_bounds:
  assumes "1 < n"
  shows "0 < split_point n" "split_point n < n" "n \<le> 2 * split_point n"
proof -
  obtain i where i: "2 ^ i < n" "n \<le> 2 ^ Suc i" using pow2_interval [OF assms] by blast
  then have "split_point n = 2 ^ i" by (rule split_point_eq)
  with i show "0 < split_point n" "split_point n < n" "n \<le> 2 * split_point n" by auto
qed

definition node_hash :: "bytes \<Rightarrow> bytes \<Rightarrow> bytes" where
  "node_hash l r = Sum256 (1 # l @ r)"

definition leaf_hash :: "bytes \<Rightarrow> bytes" where
  "leaf_hash d = Sum256 (0 # d)"

text \<open>The Merkle tree hash of a list of leaf hashes, by the recursion of RFC 6962, section 2.1.\<close>

function mth :: "bytes list \<Rightarrow> bytes" where
  "mth hs =
    (if hs = [] then Sum256 []
     else if length hs = 1 then hd hs
     else node_hash (mth (take (split_point (length hs)) hs)) (mth (drop (split_point (length hs)) hs)))"
  by pat_completeness auto
termination
  by (relation "measure length") (use split_point_bounds in \<open>auto simp: Suc_lessI neq_Nil_conv\<close>)

declare mth.simps [simp del]

lemma mth_Nil [simp]: "mth [] = Sum256 []"
  by (simp add: mth.simps)

lemma mth_singleton [simp]: "mth [h] = h"
  by (simp add: mth.simps)

lemma mth_append_pow2:
  assumes "length xs = 2 ^ i" "ys \<noteq> []" "length ys \<le> 2 ^ i"
  shows "mth (xs @ ys) = node_hash (mth xs) (mth ys)"
proof -
  have "2 ^ i < length (xs @ ys)" "length (xs @ ys) \<le> 2 ^ Suc i"
    using assms by auto
  then have "split_point (length (xs @ ys)) = 2 ^ i"
    by (rule split_point_eq)
  moreover have "xs \<noteq> []" using assms(1) by auto
  ultimately show ?thesis
    using assms by (simp add: mth.simps [of "xs @ ys"] neq_Nil_conv) (auto simp: neq_Nil_conv)
qed

section \<open>The roots are a binary counter over perfect subtrees\<close>

text \<open>
  \<open>frep i rs hs\<close>: the slots \<open>rs\<close>, of heights \<open>i\<close>, \<open>i + 1\<close> and so on, hold the heads of the perfect subtrees that make
  up the leaf hashes \<open>hs\<close>, the smallest subtree right-most.
\<close>

fun frep :: "nat \<Rightarrow> gobytes list \<Rightarrow> bytes list \<Rightarrow> bool" where
  "frep i [] hs \<longleftrightarrow> hs = []"
| "frep i (None # rs) hs \<longleftrightarrow> frep (Suc i) rs hs"
| "frep i (Some r # rs) hs \<longleftrightarrow>
     2 ^ i \<le> length hs \<and> r = mth (drop (length hs - 2 ^ i) hs) \<and>
     frep (Suc i) rs (take (length hs - 2 ^ i) hs)"

lemma frep_Some_append:
  assumes "length bk = 2 ^ i"
  shows "frep i (Some (mth bk) # rs) (fr @ bk) \<longleftrightarrow> frep (Suc i) rs fr"
  using assms by simp

lemma frep_SomeE:
  assumes "frep i (Some r # rs) hs"
  obtains fr bk where "hs = fr @ bk" "length bk = 2 ^ i" "r = mth bk"
    "frep (Suc i) rs fr"
  using assms by (intro that [of "take (length hs - 2 ^ i) hs" "drop (length hs - 2 ^ i) hs"]) auto

definition no_trailing_nil :: "gobytes list \<Rightarrow> bool" where
  "no_trailing_nil rs \<longleftrightarrow> rs = [] \<or> last rs \<noteq> None"

text \<open>The whole abstraction relation between a frontier and the leaf hashes it stands for.\<close>

definition frontier_rep :: "Frontier \<Rightarrow> bytes list \<Rightarrow> bool" where
  "frontier_rep f hs \<longleftrightarrow> frep 0 (Roots f) hs \<and> no_trailing_nil (Roots f)"

definition close_carry :: "gobytes list \<times> gobytes \<Rightarrow> gobytes list" where
  "close_carry p = fst p @ (if snd p = None then [] else [snd p])"

lemma Roots_Append: "Roots (Append f h) = close_carry (Append_loop (Roots f) h)"
  by (simp add: Append_def close_carry_def split: prod.splits)

lemma hashDomain_node: "hashDomain 1 [Some l, Some r] = Some (node_hash l r)"
  by (simp add: hashDomain_def node_hash_def)

lemma close_carry_Append_loop [simp]:
  "close_carry (Append_loop [] (Some h)) = [Some h]"
  "close_carry (Append_loop (None # rs) (Some h)) = Some h # rs"
  "close_carry (Append_loop (Some r # rs) (Some h)) =
     None # close_carry (Append_loop rs (Some (node_hash r h)))"
  by (simp_all add: close_carry_def hashDomain_node split: prod.splits)

declare Append_loop.simps [simp del]

lemma close_carry_nonempty [simp]: "close_carry (Append_loop rs (Some h)) \<noteq> []"
  by (induction rs arbitrary: h) (metis close_carry_Append_loop list.distinct(1) option.exhaust)+

lemma frep_Append_loop:
  assumes "frep i rs hs" "length bk = 2 ^ i"
  shows "frep i (close_carry (Append_loop rs (Some (mth bk)))) (hs @ bk)"
  using assms
proof (induction rs arbitrary: i hs bk)
  case Nil
  then show ?case by simp
next
  case (Cons r rs)
  show ?case
  proof (cases r)
    case None
    with Cons.prems show ?thesis by simp
  next
    case (Some r')
    obtain fr bk' where
      hs: "hs = fr @ bk'" "length bk' = 2 ^ i" "r' = mth bk'" "frep (Suc i) rs fr"
      using Cons.prems(1) [unfolded Some] by (rule frep_SomeE)
    have "bk \<noteq> []" using Cons.prems(2) by auto
    then have "node_hash r' (mth bk) = mth (bk' @ bk)"
      using hs Cons.prems(2) by (simp add: mth_append_pow2 [of _ i])
    with Some hs Cons.prems Cons.IH [OF hs(4), of "bk' @ bk"] show ?thesis by simp
  qed
qed

lemma Append_loop_trailing:
  "no_trailing_nil rs \<Longrightarrow> no_trailing_nil (close_carry (Append_loop rs (Some h)))"
proof (induction rs arbitrary: h)
  case Nil
  then show ?case by (simp add: no_trailing_nil_def)
next
  case (Cons r rs)
  then show ?case
    by (cases r) (auto simp: no_trailing_nil_def split: if_splits)
qed

lemma frontier_rep_empty [wf_intros]: "frontier_rep empty_frontier []"
  by (simp add: frontier_rep_def empty_frontier_def no_trailing_nil_def)

lemma frontier_rep_Append [wf_intros]:
  "frontier_rep f hs \<Longrightarrow> frontier_rep (Append f (Some h)) (hs @ [h])"
  using frep_Append_loop [of 0 "Roots f" hs "[h]"] Append_loop_trailing [of "Roots f" h]
  unfolding frontier_rep_def Roots_Append mth_singleton by simp

section \<open>The head\<close>

lemma Head_loop_acc:
  assumes "frep i rs hs" "tl_hs \<noteq> []" "length tl_hs \<le> 2 ^ i"
  shows "Head_loop rs (Some (mth tl_hs)) = Some (mth (hs @ tl_hs))"
  using assms
proof (induction rs arbitrary: i hs tl_hs)
  case Nil
  then show ?case by simp
next
  case (Cons r rs)
  show ?case
  proof (cases r)
    case None
    with Cons show ?thesis by (simp add: Cons.IH [of "Suc i"])
  next
    case (Some r')
    obtain fr bk where
      hs: "hs = fr @ bk" "length bk = 2 ^ i" "r' = mth bk" "frep (Suc i) rs fr"
      using Cons.prems(1) [unfolded Some] by (rule frep_SomeE)
    have "node_hash r' (mth tl_hs) = mth (bk @ tl_hs)"
      using hs Cons.prems by (simp add: mth_append_pow2 [of _ i])
    with Some hs Cons.prems Cons.IH [OF hs(4), of "bk @ tl_hs"] show ?thesis
      by (simp add: hashDomain_node)
  qed
qed

lemma Head_loop_start:
  assumes "frep i rs hs" "no_trailing_nil rs" "rs \<noteq> []"
  shows "Head_loop rs None = Some (mth hs)"
  using assms
proof (induction rs arbitrary: i)
  case Nil
  then show ?case by simp
next
  case (Cons r rs)
  show ?case
  proof (cases r)
    case None
    with Cons show ?thesis by (auto simp: no_trailing_nil_def split: if_splits)
  next
    case (Some r')
    obtain fr bk where
      hs: "hs = fr @ bk" "length bk = 2 ^ i" "r' = mth bk" "frep (Suc i) rs fr"
      using Cons.prems(1) [unfolded Some] by (rule frep_SomeE)
    moreover have "bk \<noteq> []" using hs(2) by auto
    ultimately show ?thesis
      using Some Head_loop_acc [of "Suc i" rs fr bk] by simp
  qed
qed

lemma Head_frontier_rep: "frontier_rep f hs \<Longrightarrow> Head f = Some (mth hs)"
  using Head_loop_start [of 0 "Roots f" hs]
  by (cases "Roots f") (auto simp: frontier_rep_def Head_def)

section \<open>Size of the frontier\<close>

fun slots_value :: "gobytes list \<Rightarrow> nat" where
  "slots_value [] = 0"
| "slots_value (r # rs) = (if r = None then 0 else 1) + 2 * slots_value rs"

lemma bit_slots_value: "bit (slots_value rs) j \<longleftrightarrow> j < length rs \<and> rs ! j \<noteq> None"
proof (induction rs arbitrary: j)
  case Nil
  then show ?case by simp
next
  case (Cons r rs)
  then show ?case by (cases j) (auto simp: bit_0 bit_Suc)
qed

lemma slots_value_less: "slots_value rs < 2 ^ length rs"
  by (induction rs) auto

lemma slots_value_ge: "no_trailing_nil rs \<Longrightarrow> rs \<noteq> [] \<Longrightarrow> 2 ^ (length rs - 1) \<le> slots_value rs"
proof (induction rs)
  case Nil
  then show ?case by simp
next
  case (Cons r rs)
  then show ?case
    by (cases rs) (auto simp: no_trailing_nil_def split: if_splits)
qed

lemma frep_length: "frep i rs hs \<Longrightarrow> length hs = 2 ^ i * slots_value rs"
proof (induction rs arbitrary: i hs)
  case Nil
  then show ?case by simp
next
  case (Cons r rs)
  show ?case
  proof (cases r)
    case None
    with Cons.prems Cons.IH [of "Suc i" hs] show ?thesis by simp
  next
    case (Some r')
    obtain fr bk where hs: "hs = fr @ bk" "length bk = 2 ^ i" "frep (Suc i) rs fr"
      using Cons.prems(1) [unfolded Some] by (rule frep_SomeE)
    with Some Cons.IH [OF hs(3)] show ?thesis by simp
  qed
qed

lemma frontier_rep_length: "frontier_rep f hs \<Longrightarrow> length hs = slots_value (Roots f)"
  using frep_length [of 0 "Roots f" hs] by (simp add: frontier_rep_def)

section \<open>Equal heads mean equal logs, or a collision\<close>

text \<open>
  What is fed to SHA-256 at the root of the tree over the leaf data \<open>ds\<close>: the first byte separates
  the empty tree, leaves and inner nodes.
\<close>

definition root_preimage :: "bytes list \<Rightarrow> bytes" where
  "root_preimage ds =
    (if ds = [] then []
     else if length ds = 1 then 0 # hd ds
     else 1 # mth (map leaf_hash (take (split_point (length ds)) ds))
            @ mth (map leaf_hash (drop (split_point (length ds)) ds)))"

lemma Sum256_root_preimage: "Sum256 (root_preimage ds) = mth (map leaf_hash ds)"
proof (cases "length ds \<le> 1")
  case True
  then show ?thesis
    by (cases ds) (auto simp: root_preimage_def leaf_hash_def)
next
  case False
  then show ?thesis
    by (simp add: root_preimage_def node_hash_def mth.simps [of "map leaf_hash ds"] take_map drop_map)
qed

lemma length_mth_leaves [simp]: "length (mth (map leaf_hash ds)) = 32"
  by (simp flip: Sum256_root_preimage)

text \<open>Descend two trees in step and return the first pair of differing preimages.\<close>

function find_collision :: "bytes list \<Rightarrow> bytes list \<Rightarrow> (bytes \<times> bytes) option" where
  "find_collision ds es =
    (if root_preimage ds \<noteq> root_preimage es then Some (root_preimage ds, root_preimage es)
     else if length ds \<le> 1 \<or> length es \<le> 1 then None
     else case find_collision (take (split_point (length ds)) ds) (take (split_point (length es)) es) of
       Some c \<Rightarrow> Some c
     | None \<Rightarrow> find_collision (drop (split_point (length ds)) ds) (drop (split_point (length es)) es))"
  by pat_completeness auto
termination
  by (relation "measure (\<lambda>(ds, es). length ds)") (auto simp: not_le split_point_bounds intro!: diff_less)

declare find_collision.simps [simp del]

lemma root_preimage_tags:
  "root_preimage [] = []" "root_preimage [d] = 0 # d"
  "root_preimage (a # b # ds) \<noteq> []" "[] \<noteq> root_preimage (a # b # ds)"
  "root_preimage (a # b # ds) \<noteq> 0 # d" "0 # d \<noteq> root_preimage (a # b # ds)"
  by (simp_all add: root_preimage_def)

lemma root_preimage_leaf_cases:
  "root_preimage ds = root_preimage es \<Longrightarrow> length ds \<le> 1 \<or> length es \<le> 1 \<Longrightarrow> ds = es"
  by (cases ds rule: remdups_adj.cases; cases es rule: remdups_adj.cases)
     (auto simp: root_preimage_tags)

lemma root_preimage_split:
  assumes "root_preimage ds = root_preimage es" "1 < length ds" "1 < length es"
  shows "mth (map leaf_hash (take (split_point (length ds)) ds))
         = mth (map leaf_hash (take (split_point (length es)) es))"
    and "mth (map leaf_hash (drop (split_point (length ds)) ds))
         = mth (map leaf_hash (drop (split_point (length es)) es))"
  using assms by (auto simp: root_preimage_def split: if_splits)

lemma mth_leaves_binding:
  "mth (map leaf_hash ds) = mth (map leaf_hash es) \<Longrightarrow>
   (case find_collision ds es of None \<Rightarrow> ds = es | Some c \<Rightarrow> collision c)"
proof (induction ds es rule: find_collision.induct)
  case (1 ds es)
  let ?k = "split_point (length ds)" and ?l = "split_point (length es)"
  consider (diff) "root_preimage ds \<noteq> root_preimage es"
    | (leaf) "root_preimage ds = root_preimage es" "length ds \<le> 1 \<or> length es \<le> 1"
    | (node) "root_preimage ds = root_preimage es" "1 < length ds" "1 < length es"
    by linarith
  then show ?case
  proof cases
    case diff
    with "1.prems" show ?thesis
      by (simp add: find_collision.simps [of ds es] collision_def Sum256_root_preimage)
  next
    case leaf
    then show ?thesis
      using root_preimage_leaf_cases [OF leaf] by (subst find_collision.simps) simp
  next
    case node
    have L: "case find_collision (take ?k ds) (take ?l es) of
        None \<Rightarrow> take ?k ds = take ?l es | Some c \<Rightarrow> collision c"
      using "1.IH"(1) node root_preimage_split(1) [OF node] by auto
    show ?thesis
    proof (cases "find_collision (take ?k ds) (take ?l es)")
      case None
      have R: "case find_collision (drop ?k ds) (drop ?l es) of
          None \<Rightarrow> drop ?k ds = drop ?l es | Some c \<Rightarrow> collision c"
        using "1.IH"(2) node None root_preimage_split(2) [OF node] by auto
      with L None node show ?thesis
        by (auto simp: find_collision.simps [of ds es] split: option.splits)
           (metis append_take_drop_id)
    next
      case (Some c)
      with L node show ?thesis by (simp add: find_collision.simps [of ds es])
    qed
  qed
qed

section \<open>The contract\<close>

text \<open>
  What the storage layer relies on: a compact state that stands for the list of all leaf hashes
  appended so far and yields the RFC 6962 tree head of exactly that list.
\<close>

locale tree_head_accumulator =
  fixes rep :: "'f \<Rightarrow> bytes list \<Rightarrow> bool"
    and init :: 'f
    and add :: "'f \<Rightarrow> gobytes \<Rightarrow> 'f"
    and head :: "'f \<Rightarrow> gobytes"
  assumes rep_init: "rep init []"
    and rep_add: "rep f hs \<Longrightarrow> rep (add f (Some h)) (hs @ [h])"
    and rep_head: "rep f hs \<Longrightarrow> head f = Some (mth hs)"
begin

lemma rep_fold: "rep f hs \<Longrightarrow> rep (foldl add f (map Some ks)) (hs @ ks)"
proof (induction ks arbitrary: f hs)
  case Nil
  then show ?case by simp
next
  case (Cons k ks)
  then show ?case using rep_add [OF Cons.prems, of k] Cons.IH by fastforce
qed

lemma rep_all: "rep (foldl add init (map Some ks)) ks"
  using rep_fold [OF rep_init] by simp

lemma head_fold: "rep f hs \<Longrightarrow> head (foldl add f (map Some ks)) = Some (mth (hs @ ks))"
  by (rule rep_head [OF rep_fold])

lemma head_all: "head (foldl add init (map Some ks)) = Some (mth ks)"
  by (rule rep_head [OF rep_all])

lemma head_binding:
  assumes "head (foldl add init (map (Some \<circ> leaf_hash) ds))
    = head (foldl add init (map (Some \<circ> leaf_hash) es))"
  shows "case find_collision ds es of None \<Rightarrow> ds = es | Some c \<Rightarrow> collision c"
  using assms head_all [of "map leaf_hash ds"] head_all [of "map leaf_hash es"]
  by (intro mth_leaves_binding) simp

end

interpretation front: tree_head_accumulator frontier_rep empty_frontier Append Head
  by unfold_locales (auto intro: wf_intros Head_frontier_rep)

section \<open>Properties\<close>

text \<open>
  C9. After appending any sequence of leaf hashes to the empty frontier, \<open>Head\<close> is the RFC 6962 Merkle
  tree hash of that sequence.
\<close>

theorem Head_is_merkle_tree_hash: "Head (foldl Append empty_frontier (map Some hs)) = Some (mth hs)"
  by (rule front.head_all)

text \<open>
  The slots of a frontier are the binary digits of the number of appended leaves: slot \<open>i\<close> is
  occupied exactly when bit \<open>i\<close> of the tree size is set, and there is no slot above the highest set bit,
  so the frontier of a log with \<open>n\<close> leaves has logarithmic size.
\<close>

theorem Roots_are_binary_digits:
  fixes hs :: "bytes list"
  defines "rs \<equiv> Roots (foldl Append empty_frontier (map Some hs))"
  shows "(\<forall>i. bit (length hs) i \<longleftrightarrow> i < length rs \<and> rs ! i \<noteq> None)
    \<and> length hs < 2 ^ length rs \<and> (length rs = 0 \<or> 2 ^ (length rs - 1) \<le> length hs)"
proof -
  have rep: "frontier_rep (foldl Append empty_frontier (map Some hs)) hs"
    by (rule front.rep_all)
  then have "length hs = slots_value rs" "no_trailing_nil rs"
    unfolding rs_def by (simp_all add: frontier_rep_length frontier_rep_def)
  then show ?thesis
    using bit_slots_value [of rs] slots_value_less [of rs] slots_value_ge [of rs] by auto
qed

text \<open>
  C22. Two logs with the same head are the same log: if the frontiers over two sequences of leaf data
  (of any lengths) agree on \<open>Head\<close>, then the sequences are equal, unless descending the two trees
  exhibits an explicit SHA-256 collision.
\<close>

theorem Head_binds_the_log:
  assumes "Head (foldl Append empty_frontier (map (Some \<circ> leaf_hash) ds))
    = Head (foldl Append empty_frontier (map (Some \<circ> leaf_hash) es))"
  shows "case find_collision ds es of None \<Rightarrow> ds = es | Some c \<Rightarrow> collision c"
  using assms by (rule front.head_binding)

theorem Head_binds_the_log_witness:
  "case find_collision [[1], [2], [3]] [[1], [2], [3]] of
     None \<Rightarrow> [[1], [2], [3]] = [[1], [2], [3 :: byte]] | Some c \<Rightarrow> collision c"
  by (rule Head_binds_the_log) (rule refl)

end
