(* ===== verification/GoTypes.thy ===== *)
theory GoTypes
  imports Frontier
begin

text \<open>
  The Trillian messages the storage layer passes around (fields as in the structs that the repository's
  own tests pin down), and the codecs it applies to them. The codecs belong to other packages
  (protocol buffers, gob, JSON, the log root format), so they are a parameter: a record of functions,
  passed to every operation that encodes or decodes.
\<close>

section \<open>Messages\<close>

text \<open>\<open>timestamp.Timestamp\<close>: seconds and nanoseconds.\<close>

type_synonym Timestamp = "int \<times> int"

record LogLeaf =
  MerkleLeafHash :: gobytes
  LeafValue :: gobytes
  ExtraData :: gobytes
  LeafIndex :: int
  LeafIdentityHash :: gobytes
  QueueTimestamp :: "Timestamp option"
  IntegrateTimestamp :: "Timestamp option"

record SignedLogRoot =
  TimestampNanos :: int
  RootHash :: gobytes
  TreeSize :: int
  TreeRevision :: int
  KeyHint :: gobytes
  LogRoot :: gobytes
  LogRootSignature :: gobytes

text \<open>\<open>trillian.SignedLogRoot{}\<close>.\<close>

definition zero_SignedLogRoot :: SignedLogRoot where
  "zero_SignedLogRoot =
    \<lparr>TimestampNanos = 0, RootHash = None, TreeSize = 0, TreeRevision = 0,
     KeyHint = None, LogRoot = None, LogRootSignature = None\<rparr>"

text \<open>\<open>types.LogRootV1\<close>; its numbers are unsigned.\<close>

record LogRootV1 =
  V1_TreeSize :: int
  V1_RootHash :: gobytes
  V1_TimestampNanos :: int
  V1_Revision :: int
  V1_Metadata :: gobytes

record NodeID =
  Path :: bytes
  PrefixLenBits :: int

record Node =
  Node_NodeID :: NodeID
  Hash :: gobytes
  NodeRevision :: int

record SubtreeProto =
  Prefix :: gobytes
  Depth :: int
  Subtree_RootHash :: gobytes
  Leaves :: "(string \<times> bytes) list"
  InternalNodes :: "(string \<times> bytes) list"
  InternalNodeCount :: int

section \<open>Codecs\<close>

record codec =
  marshalLeaf :: "LogLeaf \<Rightarrow> bytes result"
  unmarshalLeaf :: "bytes \<Rightarrow> LogLeaf result"
  marshalSubtree :: "SubtreeProto \<Rightarrow> bytes result"
  unmarshalSubtree :: "bytes \<Rightarrow> SubtreeProto result"
  gobEncode :: "Frontier \<Rightarrow> bytes result"
  gobDecode :: "bytes \<Rightarrow> Frontier result"
  unmarshalLogRoot :: "bytes \<Rightarrow> LogRootV1 result"
  serializeKeyHint :: "int \<Rightarrow> bytes"
  jsonEncode :: "LogLeaf option list \<Rightarrow> bytes result"
  jsonDecode :: "bytes \<Rightarrow> LogLeaf option list result"

text \<open>
  The one law of an encoder and its decoder: what was encoded is decoded again. It is stated for a
  set of values, because a wire format may not tell nil from empty.
\<close>

locale codec_pair =
  fixes enc :: "'a \<Rightarrow> 'b result"
    and dec :: "'b \<Rightarrow> 'a result"
    and valid :: "'a \<Rightarrow> bool"
  assumes decode_encode: "valid x \<Longrightarrow> enc x = Inr raw \<Longrightarrow> dec raw = Inr x"
begin

lemma encode_inj: "valid x \<Longrightarrow> valid y \<Longrightarrow> enc x = Inr raw \<Longrightarrow> enc y = Inr raw \<Longrightarrow> x = y"
  by (metis decode_encode sum.inject(2))

lemma decode_encode_list:
  "list_all valid xs \<Longrightarrow> mapM enc xs = Inr raws \<Longrightarrow> mapM dec raws = Inr xs"
proof (induction xs arbitrary: raws)
  case Nil
  then show ?case by simp
next
  case (Cons x xs)
  then show ?case by (auto split: sum.splits simp: decode_encode)
qed

end

text \<open>
  A small concrete codec, on which the laws hold: a leaf is its value, a subtree its prefix, a frontier
  the list of its one-byte roots, a batch of leaves the list of their indices.
\<close>

definition sample_leaf :: "bytes \<Rightarrow> LogLeaf" where
  "sample_leaf b =
    \<lparr>MerkleLeafHash = None, LeafValue = Some b, ExtraData = None, LeafIndex = 0, LeafIdentityHash = None,
     QueueTimestamp = None, IntegrateTimestamp = None\<rparr>"

definition sample_indexed :: "int \<Rightarrow> LogLeaf" where
  "sample_indexed i = (sample_leaf [])\<lparr>LeafIndex := i, MerkleLeafHash := Some [word_of_int i]\<rparr>"

definition sample_subtree :: "bytes \<Rightarrow> SubtreeProto" where
  "sample_subtree b =
    \<lparr>Prefix = Some b, Depth = 8, Subtree_RootHash = None, Leaves = [], InternalNodes = [], InternalNodeCount = 0\<rparr>"

definition sample_codec :: codec where
  "sample_codec =
    \<lparr>marshalLeaf = (\<lambda>l. Inr (contents (LeafValue l))),
     unmarshalLeaf = (\<lambda>b. Inr (sample_leaf b)),
     marshalSubtree = (\<lambda>s. Inr (contents (Prefix s))),
     unmarshalSubtree = (\<lambda>b. Inr (sample_subtree b)),
     gobEncode = (\<lambda>f. if list_all (\<lambda>r. case r of None \<Rightarrow> True | Some h \<Rightarrow> length h = 1 \<and> h \<noteq> [0]) (Roots f)
                     then Inr (map (\<lambda>r. case r of Some h \<Rightarrow> hd h | None \<Rightarrow> 0) (Roots f)) else Inl (External ''gob'')),
     gobDecode = (\<lambda>b. Inr \<lparr>Roots = map (\<lambda>x. if x = 0 then None else Some [x]) b\<rparr>),
     unmarshalLogRoot = (\<lambda>b. Inr \<lparr>V1_TreeSize = int (length b), V1_RootHash = Some b, V1_TimestampNanos = 0,
                                   V1_Revision = 0, V1_Metadata = None\<rparr>),
     serializeKeyHint = (\<lambda>t. [word_of_int t]),
     jsonEncode = (\<lambda>ls. Inr (map (\<lambda>l. case l of None \<Rightarrow> 0xff | Some l \<Rightarrow> word_of_int (LeafIndex l)) ls)),
     jsonDecode = (\<lambda>b. Inr (map (\<lambda>x. if x = 0xff then None else Some (sample_indexed (uint x))) b))\<rparr>"

section \<open>Copying\<close>

text \<open>\<open>dupSlice\<close> of \<open>ct/tree_tx.go\<close> and of \<open>custom/local.go\<close>: a fresh copy, nil stays nil.\<close>

definition dupSlice :: "gobytes \<Rightarrow> gobytes" where
  "dupSlice s = (case s of None \<Rightarrow> None | Some b \<Rightarrow> Some (take (length b) b))"

lemma dupSlice_id [simp]: "dupSlice s = s"
  by (simp add: dupSlice_def split: option.splits)

end
