(* ===== verification/Varint.thy ===== *)
theory Varint
  imports GoTypes
begin

text \<open>
  The variable-length integers of the Go standard library (\<open>encoding/binary\<close>) that the hash indices
  store: \<open>PutVarint\<close> into a buffer of given size, which panics when the buffer is too short, and \<open>Varint\<close>.
\<close>

section \<open>Encoding\<close>

text \<open>\<open>PutUvarint\<close> without its buffer: seven bits per byte, low bits first, high bit set on all but the last.\<close>

function uvarint_bytes :: "int \<Rightarrow> bytes" where
  "uvarint_bytes x =
    (if x < 0x80 then [word_of_int x] else (word_of_int x OR 0x80) # uvarint_bytes (drop_bit 7 x))"
  by pat_completeness auto
termination
  by (relation "measure nat") (auto simp: drop_bit_int_def nat_less_eq_zless)

declare uvarint_bytes.simps [simp del]

text \<open>The zig-zag step of \<open>PutVarint\<close>: \<open>ux := uint64(x) << 1; if x < 0 { ux = ^ux }\<close>.\<close>

definition zigzag :: "int \<Rightarrow> int" where
  "zigzag x = take_bit 64 (if x < 0 then NOT (2 * x) else 2 * x)"

text \<open>\<open>PutVarint(make([]byte, size), x)\<close>, returning the written prefix \<open>raw[:n]\<close>.\<close>

definition PutVarint :: "nat \<Rightarrow> int \<Rightarrow> bytes result" where
  "PutVarint n x =
    (let raw = uvarint_bytes (zigzag x)
     in if length raw \<le> n then Inr raw else Inl (Panic ''index out of range''))"

section \<open>Decoding\<close>

text \<open>The loop of \<open>Uvarint\<close>: the value and the number of bytes read, 0 or negative on failure.\<close>

fun Uvarint_loop :: "bytes \<Rightarrow> nat \<Rightarrow> int \<Rightarrow> int \<times> int" where
  "Uvarint_loop [] i x = (0, 0)"
| "Uvarint_loop (b # bs) i x =
     (if b < 0x80
      then if i > 9 \<or> i = 9 \<and> b > 1 then (0, - (int i + 1))
           else (x OR take_bit 64 (push_bit (7 * i) (uint b)), int i + 1)
      else Uvarint_loop bs (i + 1) (x OR take_bit 64 (push_bit (7 * i) (uint (b AND 0x7f)))))"

definition Varint :: "bytes \<Rightarrow> int \<times> int" where
  "Varint buf =
    (case Uvarint_loop buf 0 0 of (ux, n) \<Rightarrow>
       let x = drop_bit 1 ux in (if odd ux then NOT x else x, n))"

section \<open>Round trip\<close>

lemma zigzag_range: "in_int64 x \<Longrightarrow> zigzag x = (if x < 0 then - 2 * x - 1 else 2 * x)"
  by (auto simp: zigzag_def in_int64_def not_int_def take_bit_int_eq_self)

lemma zigzag_inverse:
  "in_int64 x \<Longrightarrow> (if odd (zigzag x) then NOT (drop_bit 1 (zigzag x)) else drop_bit 1 (zigzag x)) = x"
  by (auto simp: zigzag_range drop_bit_int_def not_int_def)

lemma length_uvarint_bytes: "0 \<le> x \<Longrightarrow> length (uvarint_bytes x) \<le> Suc n \<longleftrightarrow> x < 2 ^ (7 * Suc n)"
proof (induction n arbitrary: x)
  case 0
  then show ?case
    using uvarint_bytes.simps [of "drop_bit 7 x"] by (auto simp: uvarint_bytes.simps [of x])
next
  case (Suc n)
  show ?case
  proof (cases "x < 0x80")
    case True
    have "(2::int) ^ 7 \<le> 2 ^ (7 * Suc (Suc n))" by (intro power_increasing) auto
    with True show ?thesis by (simp add: uvarint_bytes.simps [of x])
  next
    case False
    have "x div 128 < 2 ^ (7 * Suc n) \<longleftrightarrow> x < 2 ^ (7 * Suc n) * 128"
      by (rule zdiv_less_iff) simp
    moreover have "(2::int) ^ (7 * Suc n) * 128 = 2 ^ (7 * Suc (Suc n))"
      by (simp add: power_add)
    moreover have "0 \<le> drop_bit 7 x" using Suc.prems by simp
    ultimately show ?thesis
      using False Suc.IH [of "drop_bit 7 x"]
      by (simp add: uvarint_bytes.simps [of x] drop_bit_int_def)
  qed
qed

lemma continuation_byte: "\<not> (w OR 0x80 :: byte) < 0x80"
  using le_word_or1 [of "0x80" w] by (simp add: not_less)

lemma payload_bits: "uint ((word_of_int x OR 0x80) AND 0x7f :: byte) = take_bit 7 x"
proof -
  have "(w OR 0x80) AND 0x7f = take_bit 7 w" for w :: byte
    by (simp add: take_bit_eq_mask bit.conj_disj_distrib2 mask_eq_exp_minus_1)
  then show ?thesis
    by (simp add: unsigned_take_bit_eq unsigned_of_int)
qed

lemma split_group: "push_bit n (take_bit 7 x) OR push_bit (n + 7) (drop_bit 7 x) = push_bit n (x::int)"
proof (rule bit_eqI)
  fix m
  show "bit (push_bit n (take_bit 7 x) OR push_bit (n + 7) (drop_bit 7 x)) m \<longleftrightarrow> bit (push_bit n x) m"
    by (cases "m < n + 7") (auto simp: bit_simps)
qed

text \<open>Reading the \<open>i\<close>-th group of seven bits back into place.\<close>

lemma Uvarint_loop_uvarint_bytes:
  assumes "0 \<le> x" "x < 2 ^ (64 - 7 * i)" "7 * i \<le> 63"
  shows "Uvarint_loop (uvarint_bytes x) i acc =
    (acc OR push_bit (7 * i) x, int (i + length (uvarint_bytes x)))"
  using assms
proof (induction x arbitrary: i acc rule: uvarint_bytes.induct)
  case (1 x)
  show ?case
  proof (cases "x < 0x80")
    case True
    have b: "uint (word_of_int x :: byte) = x"
      using True "1.prems"(1) by (simp add: unsigned_of_int take_bit_int_eq_self)
    have less: "(word_of_int x :: byte) < 0x80"
      using True b by (simp add: word_less_alt)
    have ok: "\<not> (i > 9 \<or> i = 9 \<and> (word_of_int x :: byte) > 1)"
      using "1.prems" b by (auto simp: word_less_alt)
    have "x * 2 ^ (7 * i) < 2 ^ (64 - 7 * i) * 2 ^ (7 * i)"
      using "1.prems" by simp
    also have "(2::int) ^ (64 - 7 * i) * 2 ^ (7 * i) = 2 ^ 64"
      using "1.prems"(3) by (simp flip: power_add)
    finally have "take_bit 64 (push_bit (7 * i) x) = push_bit (7 * i) x"
      using "1.prems"(1) by (intro take_bit_int_eq_self) (simp_all add: push_bit_eq_mult)
    with True less ok b show ?thesis by (simp add: uvarint_bytes.simps [of x])
  next
    case False
    have "2 ^ 7 < (2::int) ^ (64 - 7 * i)" using False "1.prems"(2) by simp
    then have "7 < 64 - 7 * i" by (rule power_less_imp_less_exp [rotated]) simp
    then have i: "7 * Suc i \<le> 63" by simp
    have "x div 128 < 2 ^ (64 - 7 * Suc i)"
    proof -
      have "64 - 7 * i = (64 - 7 * Suc i) + 7" using i by simp
      then have "(2::int) ^ (64 - 7 * i) = 2 ^ (64 - 7 * Suc i) * 128"
        by (simp only: power_add) simp
      with "1.prems"(2) show ?thesis by (simp add: zdiv_less_iff)
    qed
    then have IH: "Uvarint_loop (uvarint_bytes (drop_bit 7 x)) (Suc i) acc' =
        (acc' OR push_bit (7 * Suc i) (drop_bit 7 x), int (Suc i + length (uvarint_bytes (drop_bit 7 x))))" for acc'
      using False "1.prems"(1) i by (intro "1.IH") (auto simp: drop_bit_int_def)
    have "take_bit 7 x * 2 ^ (7 * i) < 2 ^ 64"
    proof -
      have "take_bit 7 x * 2 ^ (7 * i) < 2 ^ 7 * 2 ^ (7 * i)"
        using take_bit_int_less_exp [of 7 x] by (intro mult_strict_right_mono) auto
      also have "\<dots> = 2 ^ (7 + 7 * i)" by (simp add: power_add)
      also have "\<dots> \<le> 2 ^ 64" using i by (intro power_increasing) auto
      finally show ?thesis .
    qed
    then have grp: "take_bit 64 (push_bit (7 * i) (take_bit 7 x)) = push_bit (7 * i) (take_bit 7 x)"
      by (intro take_bit_int_eq_self) (simp_all add: push_bit_eq_mult)
    have "Uvarint_loop (uvarint_bytes x) i acc =
        Uvarint_loop (uvarint_bytes (drop_bit 7 x)) (Suc i) (acc OR push_bit (7 * i) (take_bit 7 x))"
      using False grp by (simp add: uvarint_bytes.simps [of x] continuation_byte payload_bits)
    also have "\<dots> = (acc OR push_bit (7 * i) (take_bit 7 x) OR push_bit (7 * i + 7) (drop_bit 7 x),
        int (Suc i + length (uvarint_bytes (drop_bit 7 x))))"
      by (simp add: IH add.commute or.assoc)
    also have "acc OR push_bit (7 * i) (take_bit 7 x) OR push_bit (7 * i + 7) (drop_bit 7 x)
        = acc OR push_bit (7 * i) x"
      by (simp only: or.assoc split_group)
    finally show ?thesis using False by (simp add: uvarint_bytes.simps [of x])
  qed
qed

lemma Varint_PutVarint:
  assumes "in_int64 x" "PutVarint n x = Inr raw"
  shows "Varint raw = (x, int (length raw))"
proof -
  have raw: "raw = uvarint_bytes (zigzag x)" using assms(2) by (auto simp: PutVarint_def Let_def split: if_splits)
  have "0 \<le> zigzag x" "zigzag x < 2 ^ 64"
    unfolding zigzag_def by (rule take_bit_nonnegative, rule take_bit_int_less_exp)
  then have "Uvarint_loop raw 0 0 = (zigzag x, int (length raw))"
    unfolding raw by (subst Uvarint_loop_uvarint_bytes) auto
  then show ?thesis
    unfolding Varint_def Let_def by (simp only: prod.case zigzag_inverse [OF assms(1)])
qed

text \<open>Which integers fit the eight-byte buffer of the index.\<close>

lemma PutVarint_8:
  assumes "in_int64 x"
  shows "(\<exists>raw. PutVarint 8 x = Inr raw) \<longleftrightarrow> - (2 ^ 55) \<le> x \<and> x < 2 ^ 55"
proof -
  have "(\<exists>raw. PutVarint 8 x = Inr raw) \<longleftrightarrow> length (uvarint_bytes (zigzag x)) \<le> Suc 7"
    by (auto simp: PutVarint_def Let_def)
  also have "\<dots> \<longleftrightarrow> zigzag x < 2 ^ (7 * Suc 7)"
    by (rule length_uvarint_bytes) (simp add: zigzag_def)
  also have "\<dots> \<longleftrightarrow> - (2 ^ 55) \<le> x \<and> x < 2 ^ 55"
    using assms by (auto simp: zigzag_range)
  finally show ?thesis .
qed

text \<open>The index entry of a sequence number, as \<open>PutLeaves\<close> writes and \<open>getSequenceBy\<close> reads it.\<close>

definition decode_index :: "bytes \<Rightarrow> int result" where
  "decode_index raw =
    (case Varint raw of (idx, n) \<Rightarrow>
       if n \<noteq> int (length raw) then Inl (Errorf ''malformed entry in index'' []) else Inr idx)"

interpretation idx: codec_pair "PutVarint 8" decode_index in_int64
  by unfold_locales (simp add: decode_index_def Varint_PutVarint)

end
