(* ===== verification/RowKeys.thy ===== *)
theory RowKeys
  imports GoTypes
begin

text \<open>
  The key space of the local database (\<open>custom/local.go\<close>): a type letter, the tree id in hexadecimal and a
  colon, followed by a row key. The theory shows that keys of different types and trees never collide
  and that the byte order of keys is the order of what they encode, which is what the range scans and
  the search for the latest subtree revision rely on.
\<close>

section \<open>Keys\<close>

text \<open>\<open>string(typ)\<close>: the UTF-8 encoding of the code point \<open>typ\<close>.\<close>

definition string_of_byte :: "byte \<Rightarrow> bytes" where
  "string_of_byte typ = (if typ < 0x80 then [typ] else [0xc0 OR drop_bit 6 typ, 0x80 OR (typ AND 0x3f)])"

text \<open>The verb \<open>%16.16x\<close> of an \<open>int64\<close>: sixteen hexadecimal digits, after a sign when negative.\<close>

definition fmt_16_16x :: "int \<Rightarrow> bytes" where
  "fmt_16_16x x = (if x < 0 then 0x2d # posenc 16 hexdigit 16 (- x) else posenc 16 hexdigit 16 x)"

definition ascii :: "string \<Rightarrow> bytes" where
  "ascii s = map of_char s"

definition keyS :: "byte \<Rightarrow> int \<Rightarrow> string \<Rightarrow> bytes" where
  "keyS typ treeID val = string_of_byte typ @ fmt_16_16x treeID @ [0x3a] @ ascii val"

definition keyB :: "byte \<Rightarrow> int \<Rightarrow> bytes \<Rightarrow> bytes" where
  "keyB typ treeID val = (string_of_byte typ @ fmt_16_16x treeID @ [0x3a]) @ val"

text \<open>The type letters: queued leaf, Merkle hash index, identity hash index, subtree, root.\<close>

abbreviation typ_l :: byte where "typ_l \<equiv> 0x6c"
abbreviation typ_m :: byte where "typ_m \<equiv> 0x6d"
abbreviation typ_i :: byte where "typ_i \<equiv> 0x69"
abbreviation typ_s :: byte where "typ_s \<equiv> 0x73"
abbreviation typ_r :: byte where "typ_r \<equiv> 0x72"

text \<open>
  \<open>rowkeyLeaf\<close>: the timestamp big-endian, then four bytes of noise if asked for (\<open>Some\<close>, with the bytes
  \<open>rand.Read\<close> produced), else zeros.
\<close>

definition rowkeyLeaf :: "int \<Rightarrow> bytes option \<Rightarrow> bytes" where
  "rowkeyLeaf queueTimestamp noise =
    map (\<lambda>j. word_of_int (drop_bit (8 * (7 - j)) queueTimestamp)) [0..<8]
      @ (case noise of None \<Rightarrow> replicate 4 0 | Some r \<Rightarrow> r)"

definition rowkeyNodeID :: "int \<Rightarrow> NodeID \<Rightarrow> bytes result" where
  "rowkeyNodeID treeRevision nid =
    (if PrefixLenBits nid smod 8 \<noteq> 0
     then Inl (Errorf ''invalid subtree ID - not multiple of 8: %v'' [ArgInt (PrefixLenBits nid)])
     else if PrefixLenBits nid < 0 \<or> PrefixLenBits nid > 64
     then Inl (Errorf ''invalid subtree ID - bad prefix length: %v'' [ArgInt (PrefixLenBits nid)])
     else if length (Path nid) > 8
     then Inl (Errorf ''invalid subtree ID - path is too long: %v'' [ArgInt (int (length (Path nid)))])
     else let n = nat (PrefixLenBits nid sdiv 8)
          in if n > length (Path nid) then Inl (Panic ''slice bounds out of range'')
             else Inr (take n (Path nid) @ replicate (8 - n) 0 @ [word_of_int (PrefixLenBits nid)]
                    @ map (\<lambda>i. word_of_int (drop_bit (56 - 8 * i) treeRevision)) [0..<8]))"

definition rangeNodeID :: "int \<Rightarrow> NodeID \<Rightarrow> (bytes \<times> bytes) result" where
  "rangeNodeID treeRevision nid =
    (case rowkeyNodeID treeRevision nid of
       Inl e \<Rightarrow> Inl e
     | Inr start \<Rightarrow>
         let stop = take 9 start @ replicate 8 0xff
         in if stop ! 8 = 0x00 then Inr (start, [])
            else Inr (start, stop[8 := stop ! 8 - 1]))"

section \<open>Tree prefixes\<close>

text \<open>Tree ids are positive in every configuration the program accepts.\<close>

definition valid_tree :: "int \<Rightarrow> bool" where
  "valid_tree t \<longleftrightarrow> 0 \<le> t \<and> t < 2 ^ 63"

lemma keyS_eq_keyB: "keyS typ t val = keyB typ t (ascii val)"
  by (simp add: keyS_def keyB_def)

lemma keyB_eq: "typ < 0x80 \<Longrightarrow> valid_tree t \<Longrightarrow> keyB typ t z = typ # posenc 16 hexdigit 16 t @ 0x3a # z"
  by (simp add: keyB_def string_of_byte_def fmt_16_16x_def valid_tree_def)

lemma keyB_prefix: "\<exists>p. \<forall>z. keyB typ t z = p @ z"
  by (auto simp: keyB_def)

lemma keyB_same_less [simp]: "keyB typ t x < keyB typ t y \<longleftrightarrow> x < y"
  and keyB_same_le [simp]: "keyB typ t x \<le> keyB typ t y \<longleftrightarrow> x \<le> y"
  and keyB_same_eq [simp]: "keyB typ t x = keyB typ t y \<longleftrightarrow> x = y"
  by (simp_all only: keyB_def append_less_iff append_le_iff same_append_eq)

text \<open>The order of keys is the lexicographic order of type, tree id and row key.\<close>

lemma keyB_less_iff:
  assumes "a < 0x80" "b < 0x80" "valid_tree t" "valid_tree u"
  shows "keyB a t x < keyB b u y \<longleftrightarrow> a < b \<or> a = b \<and> (t < u \<or> t = u \<and> x < y)"
proof -
  have range: "0 \<le> t" "t < 16 ^ 16" "0 \<le> u" "u < 16 ^ 16"
    using assms(3,4) by (auto simp: valid_tree_def)
  show ?thesis
    using assms range by (auto simp: keyB_eq same_length_less hx.posenc_less_iff hx.posenc_eq_iff)
qed

lemma keyB_eq_iff:
  assumes "a < 0x80" "b < 0x80" "valid_tree t" "valid_tree u"
  shows "keyB a t x = keyB b u y \<longleftrightarrow> a = b \<and> t = u \<and> x = y"
proof -
  have range: "0 \<le> t" "t < 16 ^ 16" "0 \<le> u" "u < 16 ^ 16"
    using assms(3,4) by (auto simp: valid_tree_def)
  show ?thesis
    using assms range by (auto simp: keyB_eq hx.posenc_eq_iff)
qed

lemma keyB_typ_neq [simp]: "a < 0x80 \<Longrightarrow> b < 0x80 \<Longrightarrow> a \<noteq> b \<Longrightarrow> keyB a t x \<noteq> keyB b u y"
  by (simp add: keyB_def string_of_byte_def)

section \<open>Big-endian numbers\<close>

lemma word_of_int_mod_256: "(word_of_int (a mod 256) :: byte) = word_of_int a"
  by (simp add: word_of_int_eq_iff take_bit_eq_mod)

lemma shifted_bytes:
  "map (\<lambda>j. word_of_int (drop_bit (8 * (n - 1 - j)) x) :: byte) [0..<n] = posenc 256 word_of_int n x"
proof (induction n)
  case 0
  then show ?case by simp
next
  case (Suc n)
  have "[0..<Suc n] = 0 # map Suc [0..<n]"
    by (simp add: upt_conv_Cons map_Suc_upt)
  moreover have "(256::int) ^ n = 2 ^ (8 * n)"
    by (simp add: power_mult)
  ultimately show ?case
    using Suc by (simp add: word_of_int_mod_256 drop_bit_int_def comp_def)
qed

abbreviation be8 :: "int \<Rightarrow> bytes" where
  "be8 \<equiv> posenc 256 word_of_int 8"

lemma rowkeyLeaf_eq:
  "rowkeyLeaf ts noise = be8 ts @ (case noise of None \<Rightarrow> replicate 4 0 | Some r \<Rightarrow> r)"
  using shifted_bytes [of 8 ts] by (simp add: rowkeyLeaf_def)

definition int63 :: "int \<Rightarrow> bool" where
  "int63 x \<longleftrightarrow> 0 \<le> x \<and> x < 2 ^ 63"

lemma be8_less_iff: "int63 x \<Longrightarrow> int63 y \<Longrightarrow> be8 x < be8 y \<longleftrightarrow> x < y"
  and be8_le_iff: "int63 x \<Longrightarrow> int63 y \<Longrightarrow> be8 x \<le> be8 y \<longleftrightarrow> x \<le> y"
  and be8_eq_iff: "int63 x \<Longrightarrow> int63 y \<Longrightarrow> be8 x = be8 y \<longleftrightarrow> x = y"
  by (simp_all add: int63_def be.posenc_less_iff be.posenc_le_iff be.posenc_eq_iff)

lemma Nil_least [simp]: "[] \<le> (xs :: bytes)"
  by (cases xs) auto

lemma zeros_least: "length xs = n \<Longrightarrow> replicate n 0 \<le> (xs :: bytes)"
  by (induction xs arbitrary: n) (auto simp: le_less word_neq_0_conv)

text \<open>
  The scan limit for a cutoff time: a queued row is below it exactly when it is not younger than the
  cutoff, also when the limit's timestamp overflows, because rows compare as unsigned numbers.
\<close>

lemma be8_wrap64: "be8 (wrap64 x) = be8 x"
proof -
  have "wrap64 x mod 256 ^ 8 = x mod 256 ^ 8"
    using take_bit_signed_take_bit [of 64 63 x] by (simp add: wrap64_def take_bit_eq_mod)
  then show ?thesis by (metis order_refl posenc_mod zero_less_numeral)
qed

lemma rowkeyLeaf_cutoff:
  assumes "int63 ts" "length r = 4" "int63 c"
  shows "rowkeyLeaf ts (Some r) < rowkeyLeaf (wrap64 (c + 1)) None \<longleftrightarrow> ts \<le> c"
proof -
  have "\<not> r < replicate 4 0" using zeros_least [OF assms(2)] by (simp add: not_less)
  moreover have "0 \<le> ts" "ts < 256 ^ 8" "0 \<le> c + 1" "c + 1 < 256 ^ 8"
    using assms(1,3) by (auto simp: int63_def)
  ultimately show ?thesis
    by (auto simp: rowkeyLeaf_eq same_length_less be8_wrap64 be.posenc_less_iff be.posenc_eq_iff)
qed

lemma rowkeyLeaf_zero_le: "length r = 4 \<Longrightarrow> rowkeyLeaf 0 None \<le> rowkeyLeaf ts (Some r)"
proof -
  assume r: "length r = 4"
  have "posenc 256 word_of_int n 0 = replicate n (0::byte)" for n
    by (induction n) auto
  then have "rowkeyLeaf 0 None = replicate 12 0"
    by (simp add: rowkeyLeaf_eq flip: replicate_add)
  with r show ?thesis by (simp add: zeros_least rowkeyLeaf_eq)
qed

lemma rowkeyLeaf_order:
  "int63 s \<Longrightarrow> int63 t \<Longrightarrow> s < t \<Longrightarrow> rowkeyLeaf s (Some q) < rowkeyLeaf t (Some r)"
  by (simp add: rowkeyLeaf_eq same_length_less be8_less_iff)

section \<open>Subtree rows\<close>

text \<open>The part of the row key that names the subtree: the zero-padded path and its length in bits.\<close>

definition node_row :: "NodeID \<Rightarrow> bytes" where
  "node_row nid =
    (let n = nat (PrefixLenBits nid div 8)
     in take n (Path nid) @ replicate (8 - n) 0 @ [word_of_int (PrefixLenBits nid)])"

definition valid_node :: "NodeID \<Rightarrow> bool" where
  "valid_node nid \<longleftrightarrow>
    8 dvd PrefixLenBits nid \<and> 0 \<le> PrefixLenBits nid \<and> PrefixLenBits nid \<le> 8 * int (length (Path nid))
    \<and> length (Path nid) \<le> 8"

lemma rowkeyNodeID_valid:
  assumes "valid_node nid"
  shows "rowkeyNodeID r nid = Inr (node_row nid @ be8 r)"
proof -
  let ?P = "PrefixLenBits nid"
  have P: "0 \<le> ?P" "?P \<le> 64" "?P smod 8 = 0" "nat (?P div 8) \<le> length (Path nid)" "\<not> length (Path nid) > 8"
    using assms by (auto simp: valid_node_def smod_nonneg)
  have "map (\<lambda>i. word_of_int (drop_bit (56 - 8 * i) r) :: byte) [0..<8] = be8 r"
    using shifted_bytes [of 8 r] by (simp add: diff_mult_distrib2)
  with P show ?thesis
    by (simp add: rowkeyNodeID_def node_row_def sdiv_nonneg Let_def)
qed

lemma rowkeyNodeID_Inr: "rowkeyNodeID r nid = Inr k \<Longrightarrow> valid_node nid"
  by (auto simp: rowkeyNodeID_def valid_node_def Let_def smod_nonneg sdiv_nonneg split: if_splits)

lemma rowkeyNodeID_Inr_iff:
  "rowkeyNodeID r nid = Inr k \<longleftrightarrow> valid_node nid \<and> k = node_row nid @ be8 r"
  using rowkeyNodeID_Inr rowkeyNodeID_valid by fastforce

lemma node_row_split:
  assumes "valid_node nid"
  obtains pa where "length pa = 8" "node_row nid = pa @ [word_of_int (PrefixLenBits nid)]"
    "PrefixLenBits nid = 0 \<Longrightarrow> pa = replicate 8 0"
proof
  let ?n = "nat (PrefixLenBits nid div 8)"
  show "length (take ?n (Path nid) @ replicate (8 - ?n) 0) = 8"
    using assms by (auto simp: valid_node_def)
  show "node_row nid = (take ?n (Path nid) @ replicate (8 - ?n) 0) @ [word_of_int (PrefixLenBits nid)]"
    by (simp add: node_row_def Let_def)
  show "take ?n (Path nid) @ replicate (8 - ?n) 0 = replicate 8 0" if "PrefixLenBits nid = 0"
    using that by simp
qed

lemma length_node_row: "valid_node nid \<Longrightarrow> length (node_row nid) = 9"
  by (erule node_row_split) simp

lemma prefix_len_byte:
  assumes "valid_node nid"
  shows "(word_of_int (PrefixLenBits nid) :: byte) = 0 \<longleftrightarrow> PrefixLenBits nid = 0"
proof -
  have "0 \<le> PrefixLenBits nid" "PrefixLenBits nid < 256"
    using assms by (auto simp: valid_node_def)
  then show ?thesis
    using word_of_int_byte_less [of 0 "PrefixLenBits nid"] by (cases "PrefixLenBits nid = 0") auto
qed

text \<open>The same row means the same subtree: equal prefix lengths and equal significant path bytes.\<close>

lemma node_row_eq_iff:
  assumes "valid_node a" "valid_node b"
  shows "node_row a = node_row b \<longleftrightarrow>
    PrefixLenBits a = PrefixLenBits b \<and>
    take (nat (PrefixLenBits a div 8)) (Path a) = take (nat (PrefixLenBits b div 8)) (Path b)"
proof -
  have "0 \<le> PrefixLenBits a" "PrefixLenBits a < 256" "0 \<le> PrefixLenBits b" "PrefixLenBits b < 256"
    using assms by (auto simp: valid_node_def)
  then have "(word_of_int (PrefixLenBits a) :: byte) = word_of_int (PrefixLenBits b) \<longleftrightarrow>
      PrefixLenBits a = PrefixLenBits b"
    by (rule be.digit_eq_iff)
  then show ?thesis by (auto simp: node_row_def Let_def)
qed

lemma word_pred_less_iff: "b \<noteq> 0 \<Longrightarrow> b - 1 < c \<longleftrightarrow> b \<le> (c :: byte)"
  using unat_minus_one [of b] unat_gt_0 [of b] by (auto simp: word_less_nat_alt word_le_nat_alt)

lemma all_ones_greatest: "\<not> replicate (length xs) (0xff :: byte) < xs"
proof (induction xs)
  case Nil
  then show ?case by simp
next
  case (Cons x xs)
  have "\<not> (0xff :: byte) < x"
    using unsigned_less [of x, where 'a = nat] by (simp add: not_less word_le_nat_alt)
  with Cons show ?case by auto
qed

lemma rangeNodeID_valid:
  assumes "valid_node nid" "node_row nid = pa @ [b]" "length pa = 8"
  shows "rangeNodeID r nid =
    Inr (node_row nid @ be8 r, if b = 0 then [] else pa @ [b - 1] @ replicate 8 0xff)"
  using assms by (simp add: rangeNodeID_def rowkeyNodeID_valid nth_append list_update_append)

text \<open>
  The interval of \<open>rangeNodeID\<close>, open below and closed above, holds exactly the revisions up to the
  requested one of exactly the requested subtree.
\<close>

lemma rangeNodeID_exact:
  assumes "valid_node nid" "valid_node nid'" "int63 r" "int63 r'"
    "rangeNodeID r nid = Inr (start, stop)"
  shows "stop < node_row nid' @ be8 r' \<and> node_row nid' @ be8 r' \<le> start \<longleftrightarrow>
    node_row nid' = node_row nid \<and> r' \<le> r"
proof -
  let ?b = "word_of_int (PrefixLenBits nid) :: byte" and ?b' = "word_of_int (PrefixLenBits nid') :: byte"
  obtain pa where pa: "length pa = 8" "node_row nid = pa @ [?b]" "PrefixLenBits nid = 0 \<Longrightarrow> pa = replicate 8 0"
    using node_row_split [OF assms(1)] by metis
  obtain pa' where pa': "length pa' = 8" "node_row nid' = pa' @ [?b']"
    using node_row_split [OF assms(2)] by metis
  have start: "start = node_row nid @ be8 r"
    and stop: "stop = (if ?b = 0 then [] else pa @ [?b - 1] @ replicate 8 0xff)"
    using assms(5) rangeNodeID_valid [OF assms(1) pa(2,1)] by auto
  have len: "length (node_row nid') = length (node_row nid)" using pa pa' by simp
  have le: "node_row nid' @ be8 r' \<le> start \<longleftrightarrow> node_row nid' < node_row nid \<or> node_row nid' = node_row nid \<and> r' \<le> r"
    using assms(3,4) by (simp add: start same_length_le [OF len] be8_le_iff)
  have "stop < node_row nid' @ be8 r' \<longleftrightarrow> node_row nid \<le> node_row nid'"
  proof (cases "?b = 0")
    case True
    then have "node_row nid = replicate 9 0"
      using pa prefix_len_byte [OF assms(1)] by (simp flip: replicate_append_same add: eval_nat_numeral)
    then show ?thesis
      using True zeros_least [of "node_row nid'" 9] len pa(1) pa' by (cases pa') (auto simp: stop)
  next
    case False
    have "\<not> replicate 8 0xff < be8 r'" using all_ones_greatest [of "be8 r'"] by simp
    then have "stop < node_row nid' @ be8 r' \<longleftrightarrow> pa @ [?b - 1] < pa' @ [?b']"
      using False pa(1) pa' same_length_less [of "pa @ [?b - 1]" "pa' @ [?b']" "replicate 8 0xff" "be8 r'"]
      by (simp add: stop)
    also have "\<dots> \<longleftrightarrow> pa < pa' \<or> pa = pa' \<and> ?b \<le> ?b'"
      using False pa(1) pa'(1) by (simp add: same_length_less word_pred_less_iff)
    also have "\<dots> \<longleftrightarrow> node_row nid \<le> node_row nid'"
      using pa pa' by (auto simp: same_length_le)
    finally show ?thesis .
  qed
  with le show ?thesis by auto
qed

end
