(* ===== verification/Leveldb.thy ===== *)
theory Leveldb
  imports Prelude
begin

text \<open>
  The local key/value database as its client sees it: the key/value pairs in key order, updated by
  atomic batches, read through snapshots and iterators. Failures of the database are outcomes chosen by
  the environment: a value of \<open>ldb_io\<close> says which calls of one operation fail and how.
\<close>

section \<open>The store\<close>

type_synonym db = "(bytes \<times> bytes) list"

definition db_wf :: "db \<Rightarrow> bool" where
  "db_wf d \<longleftrightarrow> sorted_wrt (<) (map fst d)"

definition db_get :: "db \<Rightarrow> bytes \<Rightarrow> bytes option" where
  "db_get d k = map_of d k"

fun db_put :: "db \<Rightarrow> bytes \<Rightarrow> bytes \<Rightarrow> db" where
  "db_put [] k v = [(k, v)]"
| "db_put ((k', v') # d) k v =
     (if k < k' then (k, v) # (k', v') # d
      else if k = k' then (k, v) # d
      else (k', v') # db_put d k v)"

definition db_delete :: "db \<Rightarrow> bytes \<Rightarrow> db" where
  "db_delete d k = filter (\<lambda>e. fst e \<noteq> k) d"

text \<open>A batch is a sequence of puts and deletes, applied in order.\<close>

datatype batch_op = BatchPut bytes bytes | BatchDelete bytes

fun db_apply :: "db \<Rightarrow> batch_op \<Rightarrow> db" where
  "db_apply d (BatchPut k v) = db_put d k v"
| "db_apply d (BatchDelete k) = db_delete d k"

definition db_write :: "db \<Rightarrow> batch_op list \<Rightarrow> db" where
  "db_write d ops = foldl db_apply d ops"

text \<open>Iteration over the keys from \<open>start\<close> (inclusive) to \<open>limit\<close> (exclusive).\<close>

definition db_range :: "db \<Rightarrow> bytes \<Rightarrow> bytes \<Rightarrow> (bytes \<times> bytes) list" where
  "db_range d start limit = filter (\<lambda>e. start \<le> fst e \<and> fst e < limit) d"

text \<open>
  The position an iterator over the whole store reaches by \<open>Seek(k)\<close> and, where the found key is
  greater, one \<open>Prev\<close>, or by \<open>Last\<close> when \<open>Seek\<close> found nothing: the pair with key \<open>k\<close> or else the pair before it.
\<close>

definition db_seek_back :: "db \<Rightarrow> bytes \<Rightarrow> (bytes \<times> bytes) option" where
  "db_seek_back d k =
    (let bef = takeWhile (\<lambda>e. fst e < k) d; aft = dropWhile (\<lambda>e. fst e < k) d
     in case aft of
       e # _ \<Rightarrow> if fst e = k then Some e else if bef \<noteq> [] then Some (last bef) else None
     | [] \<Rightarrow> if d \<noteq> [] then Some (last d) else None)"

section \<open>Failures\<close>

record ldb_io =
  snapErr :: "error option"                \<comment> \<open>\<open>GetSnapshot\<close>\<close>
  getErr :: "bytes \<Rightarrow> error option"         \<comment> \<open>\<open>Get\<close>, other than not found\<close>
  iterErr :: "(nat \<times> error) option"        \<comment> \<open>the iterator stops after so many pairs with an error\<close>
  writeErr :: "error option"               \<comment> \<open>\<open>Write\<close>\<close>
  openTxErr :: "error option"              \<comment> \<open>\<open>OpenTransaction\<close>\<close>
  txWriteErr :: "error option"             \<comment> \<open>\<open>Write\<close> in a transaction\<close>
  txCommitErr :: "error option"            \<comment> \<open>\<open>Commit\<close> of a transaction\<close>
  emptyNil :: bool                         \<comment> \<open>\<open>iter.Value()\<close> of an empty value is nil\<close>

definition no_faults :: ldb_io where
  "no_faults =
    \<lparr>snapErr = None, getErr = (\<lambda>_. None), iterErr = None, writeErr = None, openTxErr = None,
     txWriteErr = None, txCommitErr = None, emptyNil = False\<rparr>"

text \<open>\<open>snap.Get\<close>\<close>

definition snap_Get :: "ldb_io \<Rightarrow> db \<Rightarrow> bytes \<Rightarrow> bytes result" where
  "snap_Get io d k =
    (case getErr io k of
       Some e \<Rightarrow> Inl e
     | None \<Rightarrow> (case db_get d k of None \<Rightarrow> Inl ErrNotFound | Some v \<Rightarrow> Inr v))"

text \<open>What an iteration delivers before it ends, and \<open>iter.Error()\<close>.\<close>

definition iter_pairs :: "ldb_io \<Rightarrow> 'a list \<Rightarrow> 'a list" where
  "iter_pairs io es = (case iterErr io of None \<Rightarrow> es | Some (n, _) \<Rightarrow> take n es)"

definition iter_Error :: "ldb_io \<Rightarrow> error option" where
  "iter_Error io = map_option snd (iterErr io)"

text \<open>\<open>iter.Value()\<close>: an empty value may be a nil slice, depending on what the iterator's buffer held.\<close>

definition iter_Value :: "ldb_io \<Rightarrow> bytes \<Rightarrow> gobytes" where
  "iter_Value io v = (if v = [] \<and> emptyNil io then None else Some v)"

lemma no_faults_simps [simp]:
  "snapErr no_faults = None" "getErr no_faults k = None" "iterErr no_faults = None"
  "writeErr no_faults = None" "openTxErr no_faults = None" "txWriteErr no_faults = None"
  "txCommitErr no_faults = None" "iter_Value no_faults v = Some v" "iter_pairs no_faults es = es" "iter_Error no_faults = None"
  by (simp_all add: no_faults_def iter_pairs_def iter_Error_def iter_Value_def)

section \<open>The laws of the store\<close>

text \<open>The contract of an ordered store, over its lookup function and its pairs in key order.\<close>

locale ordered_store =
  fixes wf :: "'d \<Rightarrow> bool"
    and get :: "'d \<Rightarrow> bytes \<Rightarrow> bytes option"
    and step :: "'d \<Rightarrow> batch_op \<Rightarrow> 'd"
    and pairs :: "'d \<Rightarrow> (bytes \<times> bytes) list"
  assumes get_put: "wf d \<Longrightarrow> get (step d (BatchPut k v)) = (get d)(k \<mapsto> v)"
    and get_delete: "wf d \<Longrightarrow> get (step d (BatchDelete k)) = (get d)(k := None)"
    and wf_step: "wf d \<Longrightarrow> wf (step d op)"
    and pairs_iff: "wf d \<Longrightarrow> (k, v) \<in> set (pairs d) \<longleftrightarrow> get d k = Some v"
    and pairs_sorted: "wf d \<Longrightarrow> sorted_wrt (<) (map fst (pairs d))"

text \<open>The effect of a batch on one key: untouched, or its final value.\<close>

fun batch_effect :: "batch_op list \<Rightarrow> bytes \<Rightarrow> bytes option option" where
  "batch_effect [] k = None"
| "batch_effect (BatchPut k' v # ops) k =
     (case batch_effect ops k of Some r \<Rightarrow> Some r | None \<Rightarrow> if k' = k then Some (Some v) else None)"
| "batch_effect (BatchDelete k' # ops) k =
     (case batch_effect ops k of Some r \<Rightarrow> Some r | None \<Rightarrow> if k' = k then Some None else None)"

fun batch_key :: "batch_op \<Rightarrow> bytes" where
  "batch_key (BatchPut k v) = k"
| "batch_key (BatchDelete k) = k"

lemma batch_effect_None_iff: "batch_effect ops k = None \<longleftrightarrow> k \<notin> batch_key ` set ops"
proof (induction ops)
  case Nil
  then show ?case by simp
next
  case (Cons op ops)
  then show ?case by (cases op) (auto split: option.splits)
qed

lemma batch_effect_append:
  "batch_effect (xs @ ys) k = (case batch_effect ys k of None \<Rightarrow> batch_effect xs k | Some r \<Rightarrow> Some r)"
proof (induction xs)
  case Nil
  then show ?case by (simp split: option.splits)
next
  case (Cons op xs)
  then show ?case by (cases op) (auto split: option.splits)
qed

lemma batch_effect_Some_Some:
  "batch_effect ops k = Some (Some v) \<Longrightarrow> BatchPut k v \<in> set ops"
proof (induction ops)
  case Nil
  then show ?case by simp
next
  case (Cons op ops)
  then show ?case by (cases op) (auto split: option.splits if_splits)
qed

text \<open>A batch of puts acts like the association list of what it puts, later entries first.\<close>

lemma batch_effect_puts:
  "batch_effect (map (\<lambda>(k, v). BatchPut k v) kvs) k = map_option Some (map_of (rev kvs) k)"
proof (induction kvs)
  case Nil
  then show ?case by simp
next
  case (Cons kv kvs)
  then show ?case by (cases kv) (auto simp: map_add_def split: option.splits)
qed

lemma batch_effect_deletes:
  "batch_effect (map BatchDelete ks) k = (if k \<in> set ks then Some None else None)"
  by (induction ks) auto

context ordered_store
begin

lemma wf_batch: "wf d \<Longrightarrow> wf (foldl step d ops)"
  by (induction ops arbitrary: d) (auto simp: wf_step)

lemma get_batch:
  "wf d \<Longrightarrow> get (foldl step d ops) k = (case batch_effect ops k of None \<Rightarrow> get d k | Some r \<Rightarrow> r)"
proof (induction ops arbitrary: d)
  case Nil
  then show ?case by simp
next
  case (Cons op ops)
  then show ?case
    by (cases op) (auto simp: wf_step get_put get_delete split: option.splits)
qed

lemma pairs_distinct: "wf d \<Longrightarrow> distinct (map fst (pairs d))"
  using pairs_sorted by (simp add: strict_sorted_iff)

lemma pairs_batch_iff:
  "wf d \<Longrightarrow> (k, v) \<in> set (pairs (foldl step d ops)) \<longleftrightarrow>
     (case batch_effect ops k of None \<Rightarrow> (k, v) \<in> set (pairs d) | Some r \<Rightarrow> r = Some v)"
  by (auto simp: pairs_iff wf_batch get_batch split: option.splits)

end

section \<open>The sorted list is such a store\<close>

lemma set_db_put_keys: "fst ` set (db_put d k v) = insert k (fst ` set d)"
  by (induction d k v rule: db_put.induct) auto

lemma db_wf_put: "db_wf d \<Longrightarrow> db_wf (db_put d k v)"
  unfolding db_wf_def
proof (induction d k v rule: db_put.induct)
  case (1 k v)
  then show ?case by simp
next
  case (2 k' v' d k v)
  then show ?case
    using set_db_put_keys [of d k v] by (auto simp: image_iff)
qed

lemma db_get_put: "db_wf d \<Longrightarrow> db_get (db_put d k v) = (db_get d)(k \<mapsto> v)"
  unfolding db_wf_def db_get_def
proof (induction d k v rule: db_put.induct)
  case (1 k v)
  then show ?case by auto
next
  case (2 k' v' d k v)
  then show ?case by (auto simp: fun_eq_iff)
qed

lemma db_get_delete: "db_get (db_delete d k) = (db_get d)(k := None)"
  unfolding db_get_def db_delete_def by (induction d) auto

lemma db_wf_delete: "db_wf d \<Longrightarrow> db_wf (db_delete d k)"
  unfolding db_wf_def db_delete_def by (induction d) auto

lemma db_get_iff: "db_wf d \<Longrightarrow> (k, v) \<in> set d \<longleftrightarrow> db_get d k = Some v"
  unfolding db_get_def db_wf_def by (subst map_of_eq_Some_iff) (auto simp: strict_sorted_iff)

interpretation ldb: ordered_store db_wf db_get db_apply "\<lambda>d. d"
proof
  show "db_get (db_apply d (BatchPut k v)) = (db_get d)(k \<mapsto> v)" if "db_wf d" for d k v
    using that by (simp add: db_get_put)
  show "db_wf (db_apply d op)" if "db_wf d" for d op
    using that by (cases op) (simp_all add: db_wf_put db_wf_delete)
qed (auto simp: db_get_delete db_get_iff db_wf_def)

lemma db_wf_Nil [wf_intros, simp]: "db_wf []"
  by (simp add: db_wf_def)

lemma db_wf_write [wf_intros]: "db_wf d \<Longrightarrow> db_wf (db_write d ops)"
  unfolding db_write_def by (rule ldb.wf_batch)

lemma db_get_write:
  "db_wf d \<Longrightarrow> db_get (db_write d ops) k = (case batch_effect ops k of None \<Rightarrow> db_get d k | Some r \<Rightarrow> r)"
  unfolding db_write_def by (rule ldb.get_batch)

section \<open>Iteration\<close>

lemma db_range_sorted: "db_wf d \<Longrightarrow> sorted_wrt (<) (map fst (db_range d s l))"
  unfolding db_wf_def db_range_def by (induction d) auto

lemma db_range_iff: "db_wf d \<Longrightarrow> (k, v) \<in> set (db_range d s l) \<longleftrightarrow> db_get d k = Some v \<and> s \<le> k \<and> k < l"
  by (auto simp: db_range_def db_get_iff)

lemma db_seek_back_Nil [simp]: "db_seek_back [] k = None"
  by (simp add: db_seek_back_def)

lemma db_seek_back_Cons [simp]:
  "db_seek_back (e # d) k =
    (if fst e < k then (case db_seek_back d k of None \<Rightarrow> Some e | Some r \<Rightarrow> Some r)
     else if fst e = k then Some e else None)"
  by (cases "dropWhile (\<lambda>e. fst e < k) d")
     (auto simp: db_seek_back_def Let_def simp del: dropWhile_eq_Nil_conv)

text \<open>The seek finds the greatest key not above the target.\<close>

lemma db_seek_back_None:
  "db_wf d \<Longrightarrow> db_seek_back d k = None \<Longrightarrow> e \<in> set d \<Longrightarrow> k < fst e"
proof (induction d)
  case Nil
  then show ?case by simp
next
  case (Cons a d)
  then show ?case by (fastforce simp: db_wf_def split: if_splits option.splits)
qed

lemma db_seek_back_Some:
  "db_wf d \<Longrightarrow> db_seek_back d k = Some e \<Longrightarrow>
   e \<in> set d \<and> fst e \<le> k \<and> (\<forall>e' \<in> set d. fst e' \<le> k \<longrightarrow> fst e' \<le> fst e)"
proof (induction d)
  case Nil
  then show ?case by simp
next
  case (Cons a d)
  have wf: "db_wf d" and a: "\<forall>e' \<in> set d. fst a < fst e'"
    using Cons.prems(1) by (auto simp: db_wf_def)
  show ?case
  proof (cases "fst a < k")
    case True
    show ?thesis
    proof (cases "db_seek_back d k")
      case None
      with True Cons.prems(2) db_seek_back_None [OF wf None] show ?thesis
        by (auto simp: not_le [symmetric])
    next
      case (Some r)
      with True Cons wf a show ?thesis by fastforce
    qed
  next
    case False
    with Cons.prems(2) a show ?thesis by (fastforce split: if_splits)
  qed
qed

lemma db_seek_back_eq:
  assumes "db_wf d" "(k', v) \<in> set d" "k' \<le> k" "\<And>e. e \<in> set d \<Longrightarrow> fst e \<le> k \<Longrightarrow> fst e \<le> k'"
  shows "db_seek_back d k = Some (k', v)"
proof (cases "db_seek_back d k")
  case None
  with db_seek_back_None [OF assms(1) None assms(2)] assms(3) show ?thesis by simp
next
  case (Some e)
  have e: "e \<in> set d" "fst e \<le> k" "fst e \<ge> k'"
    using db_seek_back_Some [OF assms(1) Some] assms(2,3) by fastforce+
  then have "fst e = k'" using assms(4) by (simp add: order_antisym)
  with e(1) assms(1,2) have "e = (k', v)"
    by (metis db_get_iff option.inject prod.collapse)
  with Some show ?thesis by simp
qed

end
