(* ===== verification/Local.thy ===== *)
theory Local
  imports Varint RowKeys Leveldb
begin

text \<open>
  The local database of the log (\<open>custom/local.go\<close>): queued leaves, the two hash indices, the subtree
  revisions and the latest signed root, each in its own part of the key space. Reads take the store
  and return a result; writes go through a transaction that collects a batch and applies it in one
  step at \<open>Commit\<close>. The value \<open>cd\<close> is the codec of the messages, \<open>io\<close> the failures of the database.
\<close>

section \<open>Reads\<close>

definition MostRecentRoot :: "codec \<Rightarrow> ldb_io \<Rightarrow> db \<Rightarrow> int \<Rightarrow> (SignedLogRoot \<times> Frontier) result" where
  "MostRecentRoot cd io d treeID =
    (case snapErr io of Some e \<Rightarrow> Inl e | None \<Rightarrow>
     (case snap_Get io d (keyS typ_r treeID ''root'') of
        Inl e \<Rightarrow> if e = ErrNotFound then Inl ErrTreeNeedsInit else Inl e
      | Inr rootRaw \<Rightarrow>
     (case snap_Get io d (keyS typ_r treeID ''sig'') of Inl e \<Rightarrow> Inl e | Inr sig \<Rightarrow>
     (case snap_Get io d (keyS typ_r treeID ''frontier'') of Inl e \<Rightarrow> Inl e | Inr frontRaw \<Rightarrow>
     (case unmarshalLogRoot cd rootRaw of Inl e \<Rightarrow> Inl e | Inr root \<Rightarrow>
      let sth = \<lparr>TimestampNanos = wrap64 (V1_TimestampNanos root),
                 RootHash = V1_RootHash root,
                 TreeSize = wrap64 (V1_TreeSize root),
                 TreeRevision = wrap64 (V1_Revision root),
                 KeyHint = Some (serializeKeyHint cd treeID),
                 LogRoot = dupSlice (Some rootRaw),
                 LogRootSignature = dupSlice (Some sig)\<rparr>
      in (case gobDecode cd frontRaw of Inl e \<Rightarrow> Inl e | Inr front \<Rightarrow> Inr (sth, front)))))))"

text \<open>
  \<open>Unsequenced\<close> counts the rows of the tree's queue. An iterator that fails makes it return zero and no
  error.
\<close>

definition Unsequenced :: "ldb_io \<Rightarrow> db \<Rightarrow> int \<Rightarrow> int result" where
  "Unsequenced io d treeID =
    (case snapErr io of Some e \<Rightarrow> Inl e | None \<Rightarrow>
     let keys = int (length (iter_pairs io
           (db_range d (keyB typ_l treeID (rowkeyLeaf 0 None))
                       (keyB typ_l (wrap64 (treeID + 1)) (rowkeyLeaf 0 None)))))
     in (case iter_Error io of Some e \<Rightarrow> Inr 0 | None \<Rightarrow> Inr keys))"

fun getSequenceBy_loop :: "ldb_io \<Rightarrow> db \<Rightarrow> byte \<Rightarrow> int \<Rightarrow> bytes list \<Rightarrow> int list \<Rightarrow> int list result" where
  "getSequenceBy_loop io d typ treeID [] out = Inr out"
| "getSequenceBy_loop io d typ treeID (hash # hashes) out =
    (case snap_Get io d (keyB typ treeID hash) of
       Inl e \<Rightarrow> if e = ErrNotFound then getSequenceBy_loop io d typ treeID hashes (out @ [- 1]) else Inl e
     | Inr raw \<Rightarrow>
         let (idx, n) = Varint raw
         in if n \<noteq> int (length raw) then Inl (Errorf ''malformed entry in index'' [])
            else getSequenceBy_loop io d typ treeID hashes (out @ [idx]))"

definition getSequenceBy :: "ldb_io \<Rightarrow> db \<Rightarrow> byte \<Rightarrow> int \<Rightarrow> bytes list \<Rightarrow> int list result" where
  "getSequenceBy io d typ treeID hashes =
    (case snapErr io of Some e \<Rightarrow> Inl e | None \<Rightarrow> getSequenceBy_loop io d typ treeID hashes [])"

definition GetSequenceByMerkleHash :: "ldb_io \<Rightarrow> db \<Rightarrow> int \<Rightarrow> bytes list \<Rightarrow> int list result" where
  "GetSequenceByMerkleHash io d treeID hashes =
    (case getSequenceBy io d typ_m treeID hashes of
       Inl e \<Rightarrow> Inl (wrap_err ''failed to lookup by merkle hash: %v'' [] e)
     | Inr leaves \<Rightarrow> Inr leaves)"

definition GetSequenceByIdentityHash :: "ldb_io \<Rightarrow> db \<Rightarrow> int \<Rightarrow> bytes list \<Rightarrow> int list result" where
  "GetSequenceByIdentityHash io d treeID hashes =
    (case getSequenceBy io d typ_i treeID hashes of
       Inl e \<Rightarrow> Inl (wrap_err ''failed to lookup by identity hash: %v'' [] e)
     | Inr leaves \<Rightarrow> Inr leaves)"

text \<open>
  \<open>getSubtree\<close>: position an iterator over the whole store at the start row or the row before it, keep the
  row if it lies above the stop row, and decode it.
\<close>

definition getSubtree :: "codec \<Rightarrow> ldb_io \<Rightarrow> db \<Rightarrow> int \<Rightarrow> int \<Rightarrow> NodeID \<Rightarrow> SubtreeProto option result" where
  "getSubtree cd io d treeID treeRevision nid =
    (case rangeNodeID treeRevision nid of Inl e \<Rightarrow> Inl e | Inr (start0, stop0) \<Rightarrow>
     let start = keyB typ_s treeID start0; stop = keyB typ_s treeID stop0 in
     (case snapErr io of Some e \<Rightarrow> Inl e | None \<Rightarrow>
      let v = (case db_seek_back d start of
                 Some (k, v) \<Rightarrow> if \<not> k > start \<and> k > stop then dupSlice (iter_Value io v) else None
               | None \<Rightarrow> None) in
      (case iter_Error io of Some e \<Rightarrow> Inl e | None \<Rightarrow>
       (case v of None \<Rightarrow> Inr None | Some raw \<Rightarrow>
        (case unmarshalSubtree cd raw of Inl e \<Rightarrow> Inl e | Inr subtree \<Rightarrow>
         if Prefix subtree = None then Inr (Some (subtree\<lparr>Prefix := Some []\<rparr>))
         else Inr (Some subtree))))))"

fun GetSubtrees_loop ::
  "codec \<Rightarrow> ldb_io \<Rightarrow> db \<Rightarrow> int \<Rightarrow> int \<Rightarrow> nat \<Rightarrow> NodeID list \<Rightarrow> SubtreeProto list \<Rightarrow> SubtreeProto list result" where
  "GetSubtrees_loop cd io d treeID treeRevision i [] out = Inr out"
| "GetSubtrees_loop cd io d treeID treeRevision i (nid # ids) out =
    (case getSubtree cd io d treeID treeRevision nid of
       Inl e \<Rightarrow> Inl (wrap_err ''node id #%v: %v'' [ArgInt (int i + 1)] e)
     | Inr (Some subtree) \<Rightarrow> GetSubtrees_loop cd io d treeID treeRevision (Suc i) ids (out @ [subtree])
     | Inr None \<Rightarrow> GetSubtrees_loop cd io d treeID treeRevision (Suc i) ids out)"

definition GetSubtrees ::
  "codec \<Rightarrow> ldb_io \<Rightarrow> db \<Rightarrow> int \<Rightarrow> int \<Rightarrow> NodeID list \<Rightarrow> SubtreeProto list result" where
  "GetSubtrees cd io d treeID treeRevision ids = GetSubtrees_loop cd io d treeID treeRevision 0 ids []"

section \<open>Queueing\<close>

text \<open>
  \<open>rowkeyLeaf(queueTimestamp, true)\<close>: \<open>rand.Read\<close> either fills the four noise bytes (\<open>Some\<close>) or fails, which
  is a panic.
\<close>

definition rowkeyLeaf_noise :: "int \<Rightarrow> bytes option \<Rightarrow> bytes result" where
  "rowkeyLeaf_noise queueTimestamp rnd =
    (case rnd of None \<Rightarrow> Inl (Panic ''rand.Read'') | Some r \<Rightarrow> Inr (rowkeyLeaf queueTimestamp (Some r)))"

fun QueueLeaves_loop ::
  "codec \<Rightarrow> (nat \<Rightarrow> bytes option) \<Rightarrow> int \<Rightarrow> int \<Rightarrow> LogLeaf list \<Rightarrow> batch_op list \<Rightarrow> batch_op list result" where
  "QueueLeaves_loop cd rnd treeID queueTimestamp [] ops = Inr ops"
| "QueueLeaves_loop cd rnd treeID queueTimestamp (leaf # leaves) ops =
    (case marshalLeaf cd leaf of Inl e \<Rightarrow> Inl e | Inr v \<Rightarrow>
     (case rowkeyLeaf_noise queueTimestamp (rnd (length ops)) of Inl p \<Rightarrow> Inl p | Inr row \<Rightarrow>
      QueueLeaves_loop cd rnd treeID queueTimestamp leaves (ops @ [BatchPut (keyB typ_l treeID row) v])))"

definition Local_QueueLeaves ::
  "codec \<Rightarrow> ldb_io \<Rightarrow> (nat \<Rightarrow> bytes option) \<Rightarrow> db \<Rightarrow> int \<Rightarrow> int \<Rightarrow> LogLeaf list \<Rightarrow> db \<times> unit result" where
  "Local_QueueLeaves cd io rnd d treeID queueTimestamp leaves =
    (case QueueLeaves_loop cd rnd treeID queueTimestamp leaves [] of
       Inl e \<Rightarrow> (d, Inl e)
     | Inr ops \<Rightarrow>
         (case writeErr io of Some e \<Rightarrow> (d, Inl e) | None \<Rightarrow> (db_write d ops, Inr ())))"

section \<open>Transactions\<close>

record LocalTx =
  batch :: "batch_op list option"  \<comment> \<open>None: nil, after \<open>Commit\<close>\<close>

definition Local_Begin :: LocalTx where
  "Local_Begin = \<lparr>batch = Some []\<rparr>"

text \<open>\<open>ltx.batch.Put\<close> and \<open>ltx.batch.Delete\<close>: a method of a nil batch dereferences it.\<close>

definition batch_add :: "batch_op \<Rightarrow> LocalTx \<Rightarrow> LocalTx result" where
  "batch_add op ltx =
    (case batch ltx of
       None \<Rightarrow> Inl (Panic ''nil pointer dereference'')
     | Some ops \<Rightarrow> Inr (ltx\<lparr>batch := Some (ops @ [op])\<rparr>))"

text \<open>
  The loop of \<open>DequeueLeaves\<close> over the pairs the iterator delivers; \<open>fin\<close> is the iterator's error, seen
  when the loop runs to the end of them.
\<close>

fun DequeueLeaves_loop ::
  "codec \<Rightarrow> int \<Rightarrow> error option \<Rightarrow> (bytes \<times> bytes) list \<Rightarrow> LocalTx \<Rightarrow> LogLeaf list \<Rightarrow> LocalTx \<times> LogLeaf list result"
where
  "DequeueLeaves_loop cd limit fin [] ltx leaves =
    (ltx, case fin of Some e \<Rightarrow> Inl e | None \<Rightarrow> Inr leaves)"
| "DequeueLeaves_loop cd limit fin ((k, v) # es) ltx leaves =
    (if int (length leaves) \<ge> limit then (ltx, Inr leaves)
     else (case unmarshalLeaf cd v of Inl e \<Rightarrow> (ltx, Inl e) | Inr leaf \<Rightarrow>
           (case batch_add (BatchDelete k) ltx of Inl p \<Rightarrow> (ltx, Inl p) | Inr ltx' \<Rightarrow>
            DequeueLeaves_loop cd limit fin es ltx' (leaves @ [leaf]))))"

definition LocalTx_DequeueLeaves ::
  "codec \<Rightarrow> ldb_io \<Rightarrow> db \<Rightarrow> LocalTx \<Rightarrow> int \<Rightarrow> int \<Rightarrow> int \<Rightarrow> int \<Rightarrow> LocalTx \<times> LogLeaf list result" where
  "LocalTx_DequeueLeaves cd io d ltx treeID seq cutoffTime limit =
    (case snapErr io of Some e \<Rightarrow> (ltx, Inl e) | None \<Rightarrow>
     DequeueLeaves_loop cd limit (iter_Error io)
       (iter_pairs io (db_range d (keyB typ_l treeID (rowkeyLeaf 0 None))
                                  (keyB typ_l treeID (rowkeyLeaf (wrap64 (cutoffTime + 1)) None))))
       ltx [])"

text \<open>The index entries are varints written into a buffer of eight bytes.\<close>

fun PutLeaves_loop :: "int \<Rightarrow> int list \<Rightarrow> bytes list \<Rightarrow> bytes list \<Rightarrow> LocalTx \<Rightarrow> LocalTx \<times> unit result" where
  "PutLeaves_loop treeID (seq # seqs) (m # ms) (h # hs) ltx =
    (case PutVarint 8 seq of Inl p \<Rightarrow> (ltx, Inl p) | Inr raw \<Rightarrow>
     (case batch_add (BatchPut (keyB typ_m treeID m) raw) ltx of Inl p \<Rightarrow> (ltx, Inl p) | Inr ltx1 \<Rightarrow>
     (case batch_add (BatchPut (keyB typ_i treeID h) raw) ltx1 of Inl p \<Rightarrow> (ltx1, Inl p) | Inr ltx2 \<Rightarrow>
      PutLeaves_loop treeID seqs ms hs ltx2)))"
| "PutLeaves_loop treeID _ _ _ ltx = (ltx, Inr ())"

definition LocalTx_PutLeaves ::
  "LocalTx \<Rightarrow> int \<Rightarrow> int list \<Rightarrow> bytes list \<Rightarrow> bytes list \<Rightarrow> LocalTx \<times> unit result" where
  "LocalTx_PutLeaves ltx treeID seqs merkleHashes idHashes =
    (if length seqs \<noteq> length merkleHashes
     then (ltx, Inl (Errorf ''different number of sequence numbers than merkle hashes'' []))
     else if length seqs \<noteq> length idHashes
     then (ltx, Inl (Errorf ''different number of sequence numbers than identity hashes'' []))
     else PutLeaves_loop treeID seqs merkleHashes idHashes ltx)"

fun PutSubtrees_loop ::
  "codec \<Rightarrow> int \<Rightarrow> int \<Rightarrow> nat \<Rightarrow> NodeID list \<Rightarrow> SubtreeProto list \<Rightarrow> LocalTx \<Rightarrow> LocalTx \<times> unit result" where
  "PutSubtrees_loop cd treeID treeRevision i (nid # ids) (subtree # subtrees) ltx =
    (case rowkeyNodeID treeRevision nid of
       Inl e \<Rightarrow> (ltx, Inl (wrap_err ''node id #%v: %v'' [ArgInt (int i + 1)] e))
     | Inr rowkey \<Rightarrow>
     (case marshalSubtree cd subtree of Inl e \<Rightarrow> (ltx, Inl e) | Inr raw \<Rightarrow>
     (case batch_add (BatchPut (keyB typ_s treeID rowkey) raw) ltx of Inl p \<Rightarrow> (ltx, Inl p) | Inr ltx' \<Rightarrow>
      PutSubtrees_loop cd treeID treeRevision (Suc i) ids subtrees ltx')))"
| "PutSubtrees_loop cd treeID treeRevision i _ _ ltx = (ltx, Inr ())"

definition LocalTx_PutSubtrees ::
  "codec \<Rightarrow> LocalTx \<Rightarrow> int \<Rightarrow> int \<Rightarrow> NodeID list \<Rightarrow> SubtreeProto list \<Rightarrow> LocalTx \<times> unit result" where
  "LocalTx_PutSubtrees cd ltx treeID treeRevision ids subtrees =
    (if length ids \<noteq> length subtrees
     then (ltx, Inl (Errorf ''different number of ids than subtrees'' []))
     else PutSubtrees_loop cd treeID treeRevision 0 ids subtrees ltx)"

definition LocalTx_StoreRoot ::
  "codec \<Rightarrow> LocalTx \<Rightarrow> int \<Rightarrow> SignedLogRoot \<Rightarrow> Frontier \<Rightarrow> LocalTx \<times> unit result" where
  "LocalTx_StoreRoot cd ltx treeID root front =
    (case gobEncode cd front of Inl e \<Rightarrow> (ltx, Inl e) | Inr frontRaw \<Rightarrow>
     (case batch_add (BatchPut (keyS typ_r treeID ''root'') (contents (dupSlice (LogRoot root)))) ltx of
        Inl p \<Rightarrow> (ltx, Inl p)
      | Inr ltx1 \<Rightarrow>
     (case batch_add (BatchPut (keyS typ_r treeID ''sig'') (contents (dupSlice (LogRootSignature root)))) ltx1 of
        Inl p \<Rightarrow> (ltx1, Inl p)
      | Inr ltx2 \<Rightarrow>
     (case batch_add (BatchPut (keyS typ_r treeID ''frontier'') frontRaw) ltx2 of
        Inl p \<Rightarrow> (ltx2, Inl p)
      | Inr ltx3 \<Rightarrow> (ltx3, Inr ())))))"

text \<open>
  \<open>Commit\<close>: the batch is applied in one database transaction; writing a nil batch is a no-op. When it
  succeeds the batch is cleared.
\<close>

definition LocalTx_Commit :: "ldb_io \<Rightarrow> db \<Rightarrow> LocalTx \<Rightarrow> db \<times> LocalTx \<times> unit result" where
  "LocalTx_Commit io d ltx =
    (case openTxErr io of Some e \<Rightarrow> (d, ltx, Inl e) | None \<Rightarrow>
     (case txWriteErr io of Some e \<Rightarrow> (d, ltx, Inl e) | None \<Rightarrow>
     (case txCommitErr io of Some e \<Rightarrow> (d, ltx, Inl e) | None \<Rightarrow>
       ((case batch ltx of None \<Rightarrow> d | Some ops \<Rightarrow> db_write d ops), ltx\<lparr>batch := None\<rparr>, Inr ()))))"

section \<open>The rows of a tree\<close>

text \<open>
  The shape of the keys. A \<open>row\<close> is what a key stands for; \<open>row_key\<close> is the key of a row.
\<close>

datatype row =
    QueueRow int bytes      \<comment> \<open>timestamp and noise\<close>
  | MerkleRow bytes
  | IdentityRow bytes
  | SubtreeRow NodeID int   \<comment> \<open>subtree and revision\<close>
  | RootRow string

fun row_ok :: "row \<Rightarrow> bool" where
  "row_ok (QueueRow ts noise) \<longleftrightarrow> int63 ts \<and> length noise = 4"
| "row_ok (MerkleRow h) \<longleftrightarrow> True"
| "row_ok (IdentityRow h) \<longleftrightarrow> True"
| "row_ok (SubtreeRow nid r) \<longleftrightarrow> valid_node nid \<and> int63 r"
| "row_ok (RootRow s) \<longleftrightarrow> s \<in> {''root'', ''sig'', ''frontier''}"

fun row_key :: "int \<Rightarrow> row \<Rightarrow> bytes" where
  "row_key t (QueueRow ts noise) = keyB typ_l t (rowkeyLeaf ts (Some noise))"
| "row_key t (MerkleRow h) = keyB typ_m t h"
| "row_key t (IdentityRow h) = keyB typ_i t h"
| "row_key t (SubtreeRow nid r) = keyB typ_s t (node_row nid @ be8 r)"
| "row_key t (RootRow s) = keyS typ_r t s"

definition key_ok :: "bytes \<Rightarrow> bool" where
  "key_ok k \<longleftrightarrow> (\<exists>t row. valid_tree t \<and> row_ok row \<and> k = row_key t row)"

definition db_inv :: "db \<Rightarrow> bool" where
  "db_inv d \<longleftrightarrow> db_wf d \<and> (\<forall>e \<in> set d. key_ok (fst e))"

definition tx_inv :: "LocalTx \<Rightarrow> bool" where
  "tx_inv ltx \<longleftrightarrow> (case batch ltx of None \<Rightarrow> True | Some ops \<Rightarrow> list_all (\<lambda>op. key_ok (batch_key op)) ops)"

lemma key_okI: "valid_tree t \<Longrightarrow> row_ok row \<Longrightarrow> key_ok (row_key t row)"
  by (auto simp: key_ok_def)

lemma db_invD: "db_inv d \<Longrightarrow> db_wf d" "db_inv d \<Longrightarrow> (k, v) \<in> set d \<Longrightarrow> key_ok k"
  by (auto simp: db_inv_def)

lemma db_inv_Nil [wf_intros]: "db_inv []"
  by (simp add: db_inv_def)

lemma db_inv_write:
  assumes "db_inv d" "list_all (\<lambda>op. key_ok (batch_key op)) ops"
  shows "db_inv (db_write d ops)"
  unfolding db_inv_def
proof (intro conjI ballI)
  show wf: "db_wf (db_write d ops)" using assms(1) by (simp add: db_inv_def db_wf_write)
  fix e assume "e \<in> set (db_write d ops)"
  then have "db_get (db_write d ops) (fst e) = Some (snd e)"
    using db_get_iff [OF wf] by (metis prod.collapse)
  then have "db_get d (fst e) = Some (snd e) \<or> BatchPut (fst e) (snd e) \<in> set ops"
    using assms(1) batch_effect_Some_Some [of ops "fst e"]
    by (auto simp: db_get_write db_inv_def split: option.splits)
  then show "key_ok (fst e)"
  proof
    assume "db_get d (fst e) = Some (snd e)"
    then show ?thesis using assms(1) by (metis db_get_iff db_invD)
  next
    assume "BatchPut (fst e) (snd e) \<in> set ops"
    then show ?thesis using assms(2) by (force simp: list_all_iff)
  qed
qed

section \<open>What a transaction collects\<close>

text \<open>Every operation of a transaction, failed or not, only appends to the batch.\<close>

definition tx_adds :: "(batch_op \<Rightarrow> bool) \<Rightarrow> LocalTx \<Rightarrow> LocalTx \<Rightarrow> bool" where
  "tx_adds P ltx ltx' \<longleftrightarrow>
    ltx' = ltx \<or>
    (\<exists>ops ops'. batch ltx = Some ops \<and> ltx' = ltx\<lparr>batch := Some (ops @ ops')\<rparr> \<and> list_all P ops')"

lemma tx_adds_refl [simp, intro]: "tx_adds P ltx ltx"
  by (simp add: tx_adds_def)

lemma tx_adds_trans: "tx_adds P a b \<Longrightarrow> tx_adds P b c \<Longrightarrow> tx_adds P a c"
  by (fastforce simp: tx_adds_def)

lemma batch_add_Some [simp]: "batch ltx = Some ops \<Longrightarrow> batch_add op ltx = Inr (ltx\<lparr>batch := Some (ops @ [op])\<rparr>)"
  by (simp add: batch_add_def)

lemma batch_add_adds: "batch_add op ltx = Inr ltx' \<Longrightarrow> P op \<Longrightarrow> tx_adds P ltx ltx'"
  by (auto simp: batch_add_def tx_adds_def split: option.splits)

lemma batch_add_trans: "batch_add op ltx = Inr ltx' \<Longrightarrow> P op \<Longrightarrow> tx_adds P ltx' ltx'' \<Longrightarrow> tx_adds P ltx ltx''"
  using batch_add_adds tx_adds_trans by blast

lemma tx_inv_adds: "tx_inv ltx \<Longrightarrow> tx_adds (\<lambda>op. key_ok (batch_key op)) ltx ltx' \<Longrightarrow> tx_inv ltx'"
  by (auto simp: tx_inv_def tx_adds_def split: option.splits)

lemma DequeueLeaves_loop_adds:
  "\<forall>e \<in> set es. P (BatchDelete (fst e)) \<Longrightarrow> tx_adds P ltx (fst (DequeueLeaves_loop cd limit fin es ltx ls))"
proof (induction es arbitrary: ltx ls)
  case Nil
  then show ?case by simp
next
  case (Cons e es)
  then show ?case
    by (cases e) (auto split: sum.splits elim!: batch_add_trans)
qed

lemma PutLeaves_loop_adds:
  assumes "\<And>h v. P (BatchPut (keyB typ_m t h) v)" "\<And>h v. P (BatchPut (keyB typ_i t h) v)"
  shows "tx_adds P ltx (fst (PutLeaves_loop t seqs ms hs ltx))"
  using assms
proof (induction seqs arbitrary: ms hs ltx)
  case Nil
  then show ?case by simp
next
  case (Cons seq seqs)
  then show ?case
    by (cases ms; cases hs) (auto split: sum.splits elim!: batch_add_trans)
qed

lemma PutSubtrees_loop_adds:
  assumes "\<And>nid k v. rowkeyNodeID r nid = Inr k \<Longrightarrow> P (BatchPut (keyB typ_s t k) v)"
  shows "tx_adds P ltx (fst (PutSubtrees_loop cd t r i ids subtrees ltx))"
  using assms
proof (induction ids arbitrary: subtrees ltx i)
  case Nil
  then show ?case by simp
next
  case (Cons nid ids)
  then show ?case
    by (cases subtrees) (auto split: sum.splits elim!: batch_add_trans)
qed

lemma StoreRoot_adds:
  assumes "\<And>s v. s \<in> {''root'', ''sig'', ''frontier''} \<Longrightarrow> P (BatchPut (keyS typ_r t s) v)"
  shows "tx_adds P ltx (fst (LocalTx_StoreRoot cd ltx t root front))"
  using assms
  by (auto simp: LocalTx_StoreRoot_def split: sum.splits elim!: batch_add_trans)

section \<open>Runs\<close>

text \<open>
  Any interleaving of queueing and of transactions, each identified by a number, with any failures
  of the database in each step.
\<close>

datatype local_op =
    OpQueueLeaves "nat \<Rightarrow> bytes option" int int "LogLeaf list"
  | OpBegin nat
  | OpDequeueLeaves nat int int int int
  | OpPutLeaves nat int "int list" "bytes list" "bytes list"
  | OpPutSubtrees nat int int "NodeID list" "SubtreeProto list"
  | OpStoreRoot nat int SignedLogRoot Frontier
  | OpCommit nat

type_synonym local_state = "db \<times> (nat \<Rightarrow> LocalTx)"

fun local_step :: "codec \<Rightarrow> local_state \<Rightarrow> ldb_io \<times> local_op \<Rightarrow> local_state" where
  "local_step cd (d, txs) (io, OpQueueLeaves rnd t ts leaves) = (fst (Local_QueueLeaves cd io rnd d t ts leaves), txs)"
| "local_step cd (d, txs) (io, OpBegin i) = (d, txs(i := Local_Begin))"
| "local_step cd (d, txs) (io, OpDequeueLeaves i t s c l) =
    (d, txs(i := fst (LocalTx_DequeueLeaves cd io d (txs i) t s c l)))"
| "local_step cd (d, txs) (io, OpPutLeaves i t seqs ms hs) = (d, txs(i := fst (LocalTx_PutLeaves (txs i) t seqs ms hs)))"
| "local_step cd (d, txs) (io, OpPutSubtrees i t r ids subtrees) =
    (d, txs(i := fst (LocalTx_PutSubtrees cd (txs i) t r ids subtrees)))"
| "local_step cd (d, txs) (io, OpStoreRoot i t root front) = (d, txs(i := fst (LocalTx_StoreRoot cd (txs i) t root front)))"
| "local_step cd (d, txs) (io, OpCommit i) =
    (let (d', ltx, _) = LocalTx_Commit io d (txs i) in (d', txs(i := ltx)))"

definition local_run :: "codec \<Rightarrow> local_state \<Rightarrow> (ldb_io \<times> local_op) list \<Rightarrow> local_state" where
  "local_run cd = foldl (local_step cd)"

text \<open>The empty database, with no transaction open.\<close>

definition local_init :: local_state where
  "local_init = ([], \<lambda>_. \<lparr>batch = None\<rparr>)"

fun op_ok :: "local_op \<Rightarrow> bool" where
  "op_ok (OpQueueLeaves rnd t ts leaves) \<longleftrightarrow>
    valid_tree t \<and> int63 ts \<and> (\<forall>i < length leaves. case rnd i of None \<Rightarrow> True | Some r \<Rightarrow> length r = 4)"
| "op_ok (OpBegin i) \<longleftrightarrow> True"
| "op_ok (OpDequeueLeaves i t s c l) \<longleftrightarrow> True"
| "op_ok (OpPutLeaves i t seqs ms hs) \<longleftrightarrow> valid_tree t"
| "op_ok (OpPutSubtrees i t r ids subtrees) \<longleftrightarrow> valid_tree t \<and> int63 r"
| "op_ok (OpStoreRoot i t root front) \<longleftrightarrow> valid_tree t"
| "op_ok (OpCommit i) \<longleftrightarrow> True"

lemma QueueLeaves_loop_keys:
  assumes "QueueLeaves_loop cd rnd t ts leaves ops = Inr ops'" "valid_tree t" "int63 ts"
    "\<forall>i < length ops + length leaves. case rnd i of None \<Rightarrow> True | Some r \<Rightarrow> length r = 4"
    "list_all (\<lambda>op. key_ok (batch_key op)) ops"
  shows "list_all (\<lambda>op. key_ok (batch_key op)) ops'"
  using assms
proof (induction leaves arbitrary: ops)
  case Nil
  then show ?case by simp
next
  case (Cons leaf leaves)
  then obtain v r where r: "marshalLeaf cd leaf = Inr v" "rnd (length ops) = Some r"
    by (auto simp: rowkeyLeaf_noise_def split: sum.splits option.splits)
  have len: "length r = 4"
    using Cons.prems(4) [rule_format, of "length ops"] r(2) by simp
  show ?case
  proof (rule Cons.IH)
    let ?op = "BatchPut (keyB typ_l t (rowkeyLeaf ts (Some r))) v"
    show "QueueLeaves_loop cd rnd t ts leaves (ops @ [?op]) = Inr ops'"
      using Cons.prems(1) r by (simp add: rowkeyLeaf_noise_def)
    have "key_ok (row_key t (QueueRow ts r))"
      using Cons.prems(2,3) len by (intro key_okI) auto
    then show "list_all (\<lambda>op. key_ok (batch_key op)) (ops @ [?op])"
      using Cons.prems(5) by simp
    show "\<forall>i < length (ops @ [?op]) + length leaves. case rnd i of None \<Rightarrow> True | Some r \<Rightarrow> length r = 4"
      using Cons.prems(4) by simp
  qed (use Cons.prems in auto)
qed

lemma db_inv_QueueLeaves:
  assumes "db_inv d" "op_ok (OpQueueLeaves rnd t ts leaves)"
  shows "db_inv (fst (Local_QueueLeaves cd io rnd d t ts leaves))"
  using assms QueueLeaves_loop_keys [of cd rnd t ts leaves "[]"]
  by (auto simp: Local_QueueLeaves_def db_inv_write split: sum.splits option.splits)

lemma db_inv_Commit:
  assumes "db_inv d" "tx_inv ltx"
  shows "db_inv (fst (LocalTx_Commit io d ltx))" "tx_inv (fst (snd (LocalTx_Commit io d ltx)))"
  using assms by (auto simp: LocalTx_Commit_def tx_inv_def db_inv_write split: option.splits)

lemma tx_inv_DequeueLeaves:
  assumes "db_inv d" "tx_inv ltx"
  shows "tx_inv (fst (LocalTx_DequeueLeaves cd io d ltx t s c l))"
proof -
  have keys: "\<forall>e \<in> set (iter_pairs io (db_range d a b)). key_ok (fst e)" for a b
    using assms(1) by (auto simp: iter_pairs_def db_range_def db_inv_def split: option.splits dest!: in_set_takeD) force
  show ?thesis
    unfolding LocalTx_DequeueLeaves_def using assms(2) keys
    by (auto split: option.splits intro!: tx_inv_adds [OF _ DequeueLeaves_loop_adds]) (metis fst_conv)
qed

lemma tx_inv_PutLeaves: "tx_inv ltx \<Longrightarrow> valid_tree t \<Longrightarrow> tx_inv (fst (LocalTx_PutLeaves ltx t seqs ms hs))"
  using key_okI [of t "MerkleRow h" for h] key_okI [of t "IdentityRow h" for h]
  by (auto simp: LocalTx_PutLeaves_def intro!: tx_inv_adds [OF _ PutLeaves_loop_adds])

lemma tx_inv_PutSubtrees:
  "tx_inv ltx \<Longrightarrow> valid_tree t \<Longrightarrow> int63 r \<Longrightarrow> tx_inv (fst (LocalTx_PutSubtrees cd ltx t r ids subtrees))"
  using key_okI [of t "SubtreeRow nid r" for nid]
  by (auto simp: LocalTx_PutSubtrees_def rowkeyNodeID_Inr_iff intro!: tx_inv_adds [OF _ PutSubtrees_loop_adds])

lemma tx_inv_StoreRoot: "tx_inv ltx \<Longrightarrow> valid_tree t \<Longrightarrow> tx_inv (fst (LocalTx_StoreRoot cd ltx t root front))"
  by (erule tx_inv_adds, rule StoreRoot_adds)
     (simp only: batch_key.simps, simp only: key_okI row_ok.simps flip: row_key.simps(5))

definition local_inv :: "local_state \<Rightarrow> bool" where
  "local_inv s \<longleftrightarrow> db_inv (fst s) \<and> (\<forall>i. tx_inv (snd s i))"

lemma local_inv_step: "local_inv s \<Longrightarrow> op_ok (snd op) \<Longrightarrow> local_inv (local_step cd s op)"
  by (induction cd s op rule: local_step.induct)
     (auto simp: local_inv_def tx_inv_PutLeaves tx_inv_PutSubtrees tx_inv_StoreRoot tx_inv_DequeueLeaves
        Local_Begin_def tx_inv_def [of "\<lparr>batch = Some []\<rparr>"] split_beta db_inv_Commit
        simp del: op_ok.simps(1) intro: db_inv_QueueLeaves)

text \<open>
  C11. Whatever operations run on a database that starts empty, in whatever order, interleaving and
  with whatever failures of the database, its keys stay strictly increasing and each is the key of a row of
  one of the five kinds, of some tree; the same holds of the keys that open transactions will
  touch.
\<close>

theorem local_operations_keep_key_space:
  assumes "\<forall>op \<in> set ops. op_ok (snd op)"
  shows "local_inv (local_run cd local_init ops)"
proof -
  have "local_inv (local_run cd s ops)" if "local_inv s" for s
    using assms that unfolding local_run_def by (induction ops arbitrary: s) (auto simp: local_inv_step)
  moreover have "local_inv local_init"
    by (simp add: local_inv_def local_init_def db_inv_Nil tx_inv_def)
  ultimately show ?thesis by blast
qed

theorem local_operations_keep_key_space_witness:
  "local_inv (local_run sample_codec local_init
     [(no_faults, OpQueueLeaves (\<lambda>_. Some [1, 2, 3, 4]) 5 7 [sample_leaf [1]]), (no_faults, OpBegin 0),
      (no_faults, OpDequeueLeaves 0 5 0 100 10), (no_faults, OpPutLeaves 0 5 [0] [[4]] [[9]]),
      (no_faults, OpStoreRoot 0 5 zero_SignedLogRoot empty_frontier), (no_faults, OpCommit 0)])"
  by (rule local_operations_keep_key_space) (simp add: valid_tree_def int63_def)

end
