(* ===== verification/GoFmt.thy ===== *)
theory GoFmt
  imports Prelude
begin

text \<open>
  The number formats of \<open>fmt\<close> the program builds names and keys with: \<open>%v\<close> (decimal) and \<open>%x\<close>
  (hexadecimal) of an integer, and that the printed form determines the number.
\<close>

definition digit_char :: "nat \<Rightarrow> char" where
  "digit_char d = (if d < 10 then char_of (48 + d) else char_of (87 + d))"

fun digits_of :: "nat \<Rightarrow> nat \<Rightarrow> string" where
  "digits_of b n = (if b \<le> 1 \<or> n < b then [digit_char n] else digits_of b (n div b) @ [digit_char (n mod b)])"

declare digits_of.simps [simp del]

definition fmt_v_int :: "int \<Rightarrow> string" where
  "fmt_v_int x = (if x < 0 then ''-'' @ digits_of 10 (nat (- x)) else digits_of 10 (nat x))"

definition fmt_x_int :: "int \<Rightarrow> string" where
  "fmt_x_int x = (if x < 0 then ''-'' @ digits_of 16 (nat (- x)) else digits_of 16 (nat x))"

text \<open>Reading a number back.\<close>

definition digit_val :: "char \<Rightarrow> nat" where
  "digit_val c = (let n = of_char c in if n < 58 then n - 48 else n - 87)"

definition number_val :: "nat \<Rightarrow> string \<Rightarrow> nat" where
  "number_val b s = foldl (\<lambda>a c. a * b + digit_val c) 0 s"

lemma digit_val_char [simp]: "d < 16 \<Longrightarrow> digit_val (digit_char d) = d"
  by (simp add: digit_val_def digit_char_def Let_def)

lemma digits_of_val:
  assumes "1 < b" "b \<le> 16"
  shows "number_val b (digits_of b n) = n"
  using assms
proof (induction b n rule: digits_of.induct)
  case (1 b n)
  show ?case
  proof (cases "n < b")
    case True
    with 1 show ?thesis by (subst digits_of.simps) (simp add: number_val_def)
  next
    case False
    moreover have "n mod b < 16" using 1(2,3) mod_less_divisor [of b n] by linarith
    ultimately show ?thesis
      using 1 by (subst digits_of.simps) (simp add: number_val_def)
  qed
qed

lemma digits_of_inj: "1 < b \<Longrightarrow> b \<le> 16 \<Longrightarrow> digits_of b m = digits_of b n \<longleftrightarrow> m = n"
  by (metis digits_of_val)

text \<open>Printed numbers consist of digits and possibly a sign.\<close>

definition number_chars :: "char set" where
  "number_chars = set ''-0123456789abcdef''"

lemma digit_char_in: "d < 16 \<Longrightarrow> digit_char d \<in> number_chars - {CHR ''-''}"
proof -
  have "\<forall>d \<in> {0..<16}. digit_char d \<in> number_chars - {CHR ''-''}"
    by (simp add: upt_rec digit_char_def number_chars_def char_of_def bit_simps flip: set_upt)
  then show "d < 16 \<Longrightarrow> digit_char d \<in> number_chars - {CHR ''-''}" by simp
qed

lemma digits_of_chars:
  assumes "1 < b" "b \<le> 16"
  shows "set (digits_of b n) \<subseteq> number_chars - {CHR ''-''}"
  using assms
proof (induction b n rule: digits_of.induct)
  case (1 b n)
  have "n mod b < 16" using 1(2,3) mod_less_divisor [of b n] by linarith
  with 1 show ?case
    by (subst digits_of.simps) (auto dest: digit_char_in [THEN DiffD1] digit_char_in [THEN DiffD2])
qed

lemma minus_digits_neq: "1 < b \<Longrightarrow> b \<le> 16 \<Longrightarrow> CHR ''-'' # s \<noteq> digits_of b n"
  using digits_of_chars [of b n] by (metis DiffD2 insertI1 list.set_intros(1) subsetD)

lemma signed_digits_inj:
  assumes "1 < b" "b \<le> 16"
  shows "(if x < 0 then ''-'' @ digits_of b (nat (- x)) else digits_of b (nat x)) =
         (if y < 0 then ''-'' @ digits_of b (nat (- y)) else digits_of b (nat y)) \<longleftrightarrow> x = (y :: int)"
  using assms minus_digits_neq [OF assms] by (auto simp: digits_of_inj) (metis minus_digits_neq)

lemma fmt_v_int_inj: "fmt_v_int x = fmt_v_int y \<longleftrightarrow> x = y"
  unfolding fmt_v_int_def by (rule signed_digits_inj) auto

lemma fmt_x_int_inj: "fmt_x_int x = fmt_x_int y \<longleftrightarrow> x = y"
  unfolding fmt_x_int_def by (rule signed_digits_inj) auto

lemma fmt_v_int_chars: "set (fmt_v_int x) \<subseteq> number_chars"
  using digits_of_chars [of 10 "nat x"] digits_of_chars [of 10 "nat (- x)"]
  by (auto simp: fmt_v_int_def) (simp add: number_chars_def)

lemma fmt_x_int_chars: "set (fmt_x_int x) \<subseteq> number_chars"
  using digits_of_chars [of 16 "nat x"] digits_of_chars [of 16 "nat (- x)"]
  by (auto simp: fmt_x_int_def) (simp add: number_chars_def)

text \<open>A separator that is no part of the printed number splits a name uniquely.\<close>

lemma append_sep_inj:
  assumes "c \<notin> set xs" "c \<notin> set ys"
  shows "xs @ c # us = ys @ c # vs \<longleftrightarrow> xs = ys \<and> us = vs"
  using assms
proof (induction xs arbitrary: ys)
  case Nil
  then show ?case by (cases ys) auto
next
  case (Cons x xs)
  then show ?case by (cases ys) auto
qed

text \<open>The verb \<open>%x\<close> of a byte slice: two lower-case digits per byte.\<close>

definition fmt_x_bytes :: "bytes \<Rightarrow> string" where
  "fmt_x_bytes bs = concat (map (\<lambda>b. [digit_char (unat b div 16), digit_char (unat b mod 16)]) bs)"

lemma digit_char_inj: "a < 16 \<Longrightarrow> b < 16 \<Longrightarrow> digit_char a = digit_char b \<longleftrightarrow> a = b"
  by (metis digit_val_char)

lemma fmt_x_bytes_inj: "fmt_x_bytes xs = fmt_x_bytes ys \<longleftrightarrow> xs = ys"
proof (induction xs arbitrary: ys)
  case Nil
  then show ?case by (cases ys) (auto simp: fmt_x_bytes_def)
next
  case (Cons x xs)
  show ?case
  proof (cases ys)
    case Nil
    then show ?thesis by (simp add: fmt_x_bytes_def)
  next
    case (Cons y ys')
    have lt: "unat b div 16 < 16" "unat b mod 16 < 16" for b :: byte
      using unsigned_less [of b, where 'a = nat] by (simp_all add: less_mult_imp_div_less)
    have "fmt_x_bytes (x # xs) = fmt_x_bytes (y # ys') \<longleftrightarrow>
        unat x div 16 = unat y div 16 \<and> unat x mod 16 = unat y mod 16 \<and> fmt_x_bytes xs = fmt_x_bytes ys'"
      using lt by (simp add: fmt_x_bytes_def digit_char_inj)
    also have "\<dots> \<longleftrightarrow> unat x = unat y \<and> xs = ys'" using Cons.IH by (metis mult_div_mod_eq)
    finally show ?thesis using Cons by (simp add: word_unat_eq_iff)
  qed
qed

end
