(* ===== verification/Remote.thy ===== *)
theory Remote
  imports GoTypes GoFmt
begin

text \<open>
  The remote database of the log (\<open>custom/remote.go\<close>): leaves in objects of up to 1024, read over HTTP and
  written to an object store. The HTTP client is the parameter \<open>http\<close>, from a URL to a response or an error,
  the uploads' outcomes are \<open>upload\<close>, from the name of an object to an error if it fails; the order in which Go
  iterates over a map is the parameter \<open>ord\<close>. The main result is a refinement: the objects implement one growing
  list of leaves.
\<close>

section \<open>Reading\<close>

record Remote =
  bucket :: string
  url :: string

record http_response =
  StatusCode :: int
  Status :: string
  Body :: bytes

record http_client =
  newRequestErr :: "string \<Rightarrow> error option"
  clientDo :: "string \<Rightarrow> http_response result"

text \<open>The name of a batch's object, and its address.\<close>

definition object_name :: "int \<Rightarrow> int \<Rightarrow> string" where
  "object_name treeID batch = ''leaves-'' @ fmt_v_int treeID @ ''/'' @ fmt_x_int batch"

definition getBatch :: "codec \<Rightarrow> http_client \<Rightarrow> Remote \<Rightarrow> int \<Rightarrow> int \<Rightarrow> LogLeaf option list result" where
  "getBatch cd http r treeID batch =
    (let addr = url r @ ''/leaves-'' @ fmt_v_int treeID @ ''/'' @ fmt_x_int batch in
     (case newRequestErr http addr of Some e \<Rightarrow> Inl e | None \<Rightarrow>
     (case clientDo http addr of Inl e \<Rightarrow> Inl e | Inr resp \<Rightarrow>
      if StatusCode resp = 404 then Inl ErrLeavesNotFound
      else if StatusCode resp \<noteq> 200 then Inl (Errorf ''unexpected response status: %v'' [ArgStr (Status resp)])
      else jsonDecode cd (Body resp))))"

text \<open>
  The inner loop of \<open>GetLeaves\<close>: take leaves from one fetched batch while the sequence numbers are consecutive.
  It returns what it took and the rest of the sequence numbers; its first argument is the number just
  taken.
\<close>

fun take_run :: "LogLeaf option list \<Rightarrow> int \<Rightarrow> int \<Rightarrow> int list \<Rightarrow> LogLeaf option list \<times> int list" where
  "take_run data off prev (s # seqs) =
    (if off < int (length data) \<and> wrap64 (prev + 1) = s
     then (let (out, rest) = take_run data (off + 1) s seqs in (data ! nat off # out, rest))
     else ([], s # seqs))"
| "take_run data off prev [] = ([], [])"

lemma take_run_length: "length (snd (take_run data off prev seqs)) \<le> length seqs"
  by (induction data off prev seqs rule: take_run.induct) (auto simp: split_beta Let_def)

function GetLeaves_loop ::
  "codec \<Rightarrow> http_client \<Rightarrow> Remote \<Rightarrow> int \<Rightarrow> int list \<Rightarrow> LogLeaf option list \<Rightarrow> LogLeaf option list result" where
  "GetLeaves_loop cd http r treeID [] out = Inr out"
| "GetLeaves_loop cd http r treeID (s # seqs) out =
    (let batch = s sdiv 1024; off = s smod 1024 in
     (case getBatch cd http r treeID batch of Inl e \<Rightarrow> Inl e | Inr data \<Rightarrow>
      if off \<ge> int (length data) then Inl (Errorf ''set of stored leaves is truncated'' [])
      else if off < 0 then Inl (Panic ''index out of range'')
      else (let (run, rest) = take_run data (off + 1) s seqs
            in GetLeaves_loop cd http r treeID rest (out @ data ! nat off # run))))"
  by pat_completeness auto
termination
  by (relation "measure (\<lambda>(cd, http, r, treeID, seqs, out). length seqs)")
     (auto simp: less_Suc_eq_le, metis snd_conv take_run_length)

text \<open>\<open>GetLeaves\<close> sorts its argument in place: the first component is the caller's slice afterwards.\<close>

definition Remote_GetLeaves ::
  "codec \<Rightarrow> http_client \<Rightarrow> Remote \<Rightarrow> int \<Rightarrow> int list \<Rightarrow> int list \<times> LogLeaf option list result" where
  "Remote_GetLeaves cd http r treeID seqs =
    (if seqs = [] then (seqs, Inr [])
     else let seqs = (if sorted seqs then seqs else sort seqs)
          in (seqs, GetLeaves_loop cd http r treeID seqs []))"

section \<open>Writing\<close>

text \<open>The groups of \<open>PutLeaves\<close>: for each batch its new leaves, in the order given.\<close>

fun add_to_batch :: "int \<Rightarrow> LogLeaf \<Rightarrow> (int \<times> LogLeaf list) list \<Rightarrow> (int \<times> LogLeaf list) list" where
  "add_to_batch b leaf [] = [(b, [leaf])]"
| "add_to_batch b leaf ((b', ls) # bs) = (if b' = b then (b', ls @ [leaf]) # bs else (b', ls) # add_to_batch b leaf bs)"

definition group_batches :: "LogLeaf list \<Rightarrow> (int \<times> LogLeaf list) list" where
  "group_batches leaves = foldl (\<lambda>bs leaf. add_to_batch (LeafIndex leaf sdiv 1024) leaf bs) [] leaves"

fun place_new :: "LogLeaf list \<Rightarrow> (int \<times> LogLeaf) list \<Rightarrow> (int \<times> LogLeaf) list result" where
  "place_new [] pos = Inr pos"
| "place_new (leaf # leaves) pos =
    (let off = LeafIndex leaf smod 1024
     in case map_of pos off of
          Some _ \<Rightarrow> Inl (Errorf ''multiple leaves in the same position'' [])
        | None \<Rightarrow> place_new leaves ((off, leaf) # pos))"

fun place_existing :: "LogLeaf option list \<Rightarrow> (int \<times> LogLeaf) list \<Rightarrow> (int \<times> LogLeaf) list result" where
  "place_existing [] pos = Inr pos"
| "place_existing (None # leaves) pos = Inl (Panic ''nil pointer dereference'')"
| "place_existing (Some leaf # leaves) pos =
    (let off = LeafIndex leaf smod 1024
     in case map_of pos off of
          Some _ \<Rightarrow> place_existing leaves pos
        | None \<Rightarrow> place_existing leaves ((off, leaf) # pos))"

text \<open>The loop over the 1024 positions, from position \<open>i\<close> with \<open>fuel\<close> positions to go.\<close>

fun collect :: "nat \<Rightarrow> int \<Rightarrow> (int \<times> LogLeaf) list \<Rightarrow> LogLeaf list \<Rightarrow> ((int \<times> LogLeaf) list \<times> LogLeaf list) result" where
  "collect 0 i pos updated = Inr (pos, updated)"
| "collect (Suc fuel) i pos updated =
    (case map_of pos i of
       None \<Rightarrow> Inl (Errorf ''gap in set of leaves to store'' [])
     | Some leaf \<Rightarrow>
         let pos' = filter (\<lambda>e. fst e \<noteq> i) pos
         in if pos' = [] then Inr (pos', updated @ [leaf]) else collect fuel (i + 1) pos' (updated @ [leaf]))"

definition merge_batch :: "LogLeaf list \<Rightarrow> LogLeaf option list \<Rightarrow> LogLeaf list result" where
  "merge_batch leaves existing =
    (case place_new leaves [] of Inl e \<Rightarrow> Inl e | Inr pos \<Rightarrow>
     (case place_existing existing pos of Inl e \<Rightarrow> Inl e | Inr pos \<Rightarrow>
     (case collect 1024 0 pos [] of Inl e \<Rightarrow> Inl e | Inr (pos, updated) \<Rightarrow>
      if pos \<noteq> [] then Inl (Errorf ''too many leaves stored in batch'' []) else Inr updated)))"

text \<open>The object store: failures to open the bucket, and of an upload.\<close>

record object_store =
  bucketErr :: "string \<Rightarrow> error option"
  uploadErr :: "string \<Rightarrow> error option"

text \<open>One turn of the loop over the batches: merge the fetched batch with the new leaves, and upload it.\<close>

definition store_batch ::
  "codec \<Rightarrow> object_store \<Rightarrow> Remote \<Rightarrow> int \<Rightarrow> int \<times> LogLeaf list \<Rightarrow> LogLeaf option list \<Rightarrow> (string \<times> bytes) result" where
  "store_batch cd b2 r treeID bl existing =
    (case merge_batch (snd bl) existing of Inl e \<Rightarrow> Inl e | Inr updated \<Rightarrow>
     (case jsonEncode cd (map Some updated) of Inl e \<Rightarrow> Inl e | Inr buff \<Rightarrow>
      let name = object_name treeID (fst bl) in
      (case bucketErr b2 (bucket r) of Some e \<Rightarrow> Inl e | None \<Rightarrow>
      (case uploadErr b2 name of Some e \<Rightarrow> Inl e | None \<Rightarrow> Inr (name, buff)))))"

definition put_batch ::
  "codec \<Rightarrow> http_client \<Rightarrow> object_store \<Rightarrow> Remote \<Rightarrow> int \<Rightarrow> int \<times> LogLeaf list \<Rightarrow> (string \<times> bytes) result" where
  "put_batch cd http b2 r treeID bl =
    (let fetched = getBatch cd http r treeID (fst bl);
         existing = (case fetched of Inl e \<Rightarrow> [] | Inr ls \<Rightarrow> ls) in
     case fetched of
       Inl e \<Rightarrow> if e \<noteq> ErrLeavesNotFound then Inl e else store_batch cd b2 r treeID bl existing
     | Inr _ \<Rightarrow> store_batch cd b2 r treeID bl existing)"

text \<open>The uploads that took place, in order, and the result.\<close>

fun put_batches ::
  "codec \<Rightarrow> http_client \<Rightarrow> object_store \<Rightarrow> Remote \<Rightarrow> int \<Rightarrow> (int \<times> LogLeaf list) list \<Rightarrow> (string \<times> bytes) list \<times> unit result"
where
  "put_batches cd http b2 r treeID [] = ([], Inr ())"
| "put_batches cd http b2 r treeID (bl # bls) =
    (case put_batch cd http b2 r treeID bl of
       Inl e \<Rightarrow> ([], Inl e)
     | Inr obj \<Rightarrow> (let (objs, res) = put_batches cd http b2 r treeID bls in (obj # objs, res)))"

definition Remote_PutLeaves ::
  "codec \<Rightarrow> http_client \<Rightarrow> object_store \<Rightarrow> ((int \<times> LogLeaf list) list \<Rightarrow> (int \<times> LogLeaf list) list) \<Rightarrow>
   Remote \<Rightarrow> int \<Rightarrow> LogLeaf list \<Rightarrow> (string \<times> bytes) list \<times> unit result" where
  "Remote_PutLeaves cd http b2 ord r treeID leaves = put_batches cd http b2 r treeID (ord (group_batches leaves))"

section \<open>Names\<close>

lemma object_name_inj: "object_name t b = object_name u c \<longleftrightarrow> t = u \<and> b = c"
proof -
  have "CHR ''/'' \<notin> number_chars" by (simp add: number_chars_def)
  then have "CHR ''/'' \<notin> set (fmt_v_int x)" for x using fmt_v_int_chars [of x] by auto
  then show ?thesis by (simp add: object_name_def append_sep_inj fmt_v_int_inj fmt_x_int_inj)
qed

lemma getBatch_addr: "url r @ ''/leaves-'' @ fmt_v_int t @ ''/'' @ fmt_x_int b = url r @ ''/'' @ object_name t b"
  by (simp add: object_name_def)

section \<open>Reading back sequences\<close>

text \<open>
  The stored log: \<open>log_leaf i\<close> is leaf number \<open>i\<close>; the batch of \<open>i\<close> has been stored, has its leaf, and no batch has
  more than 1024 leaves.
\<close>

definition batch_has :: "codec \<Rightarrow> http_client \<Rightarrow> Remote \<Rightarrow> int \<Rightarrow> int \<Rightarrow> LogLeaf option \<Rightarrow> bool" where
  "batch_has cd http r t i leaf \<longleftrightarrow>
    (case getBatch cd http r t (i div 1024) of
       Inl _ \<Rightarrow> False
     | Inr data \<Rightarrow> length data \<le> 1024 \<and> nat (i mod 1024) < length data \<and> data ! nat (i mod 1024) = leaf)"

lemma take_run_spec:
  assumes "take_run data off prev seqs = (out, rest)"
    "getBatch cd http r t b = Inr data" "length data \<le> 1024" "0 \<le> b" "prev = 1024 * b + off - 1" "0 < off" "off \<le> 1024"
    "\<forall>s \<in> set seqs. 0 \<le> s \<and> s < 2 ^ 63"  "prev < 2 ^ 63"
  shows "\<exists>run. seqs = run @ rest \<and> list_all2 (batch_has cd http r t) run out"
  using assms
proof (induction data off prev seqs arbitrary: out rest rule: take_run.induct)
  case (1 data off prev s seqs)
  show ?case
  proof (cases "off < int (length data) \<and> wrap64 (prev + 1) = s")
    case False
    with 1(2) show ?thesis by auto
  next
    case True
    obtain out' where out': "take_run data (off + 1) s seqs = (out', rest)" "out = data ! nat off # out'"
      using 1(2) True by (cases "take_run data (off + 1) s seqs") auto
    have s: "s = 1024 * b + off"
    proof (cases "prev + 1 < 2 ^ 63")
      case True
      then have "wrap64 (prev + 1) = prev + 1" using 1(5-7) by (intro wrap64_id) (auto simp: in_int64_def)
      with \<open>off < int (length data) \<and> wrap64 (prev + 1) = s\<close> 1(6) show ?thesis by simp
    next
      case False
      then have "prev + 1 = 2 ^ 63" using 1(10) by simp
      then have "wrap64 (prev + 1) = - (2 ^ 63)" by (simp only: wrap64_def) (simp add: signed_take_bit_eq_if_negative bit_simps)
      with \<open>off < int (length data) \<and> wrap64 (prev + 1) = s\<close> 1(9) show ?thesis by simp
    qed
    have "s div 1024 = b" "s mod 1024 = off" using s 1(4,7) True by auto
    then have "batch_has cd http r t s (data ! nat off)" using 1(3,4,7) True by (auto simp: batch_has_def)
    moreover have "\<exists>run. seqs = run @ rest \<and> list_all2 (batch_has cd http r t) run out'"
      using 1(1) [OF True] 1(3-10) True s out'(1) by simp
    ultimately show ?thesis using out' by (metis append_Cons list_all2_Cons)
  qed
qed auto

lemma GetLeaves_loop_spec:
  assumes "\<forall>s \<in> set seqs. 0 \<le> s \<and> s < 2 ^ 63 \<and> batch_has cd http r t s (log_leaf s)"
  shows "GetLeaves_loop cd http r t seqs out = Inr (out @ map log_leaf seqs)"
  using assms
proof (induction cd http r t seqs out rule: GetLeaves_loop.induct)
  case (1 cd http r t out)
  then show ?case by simp
next
  case (2 cd http r t s seqs out)
  have s: "0 \<le> s" "s < 2 ^ 63" "batch_has cd http r t s (log_leaf s)" using 2(2) by auto
  obtain data where data: "getBatch cd http r t (s div 1024) = Inr data" "length data \<le> 1024"
      "nat (s mod 1024) < length data" "data ! nat (s mod 1024) = log_leaf s"
    using s(3) by (auto simp: batch_has_def split: sum.splits)
  obtain run rest where tr: "take_run data (s mod 1024 + 1) s seqs = (run, rest)" by (rule prod.exhaust)
  obtain runs where runs: "seqs = runs @ rest" "list_all2 (batch_has cd http r t) runs run"
    using take_run_spec [OF tr data(1,2)] s 2(2) data(2,3) by force
  have "run = map log_leaf runs"
  proof (rule nth_equalityI)
    show "length run = length (map log_leaf runs)" using runs(2) by (simp add: list_all2_lengthD)
    fix i assume i: "i < length run"
    then have "i < length runs" using runs(2) by (simp add: list_all2_lengthD)
    then have "batch_has cd http r t (runs ! i) (run ! i)" "batch_has cd http r t (runs ! i) (log_leaf (runs ! i))"
      using runs 2(2) i by (auto simp: list_all2_conv_all_nth)
    then show "run ! i = map log_leaf runs ! i" using \<open>i < length runs\<close> by (auto simp: batch_has_def split: sum.splits)
  qed
  moreover have "GetLeaves_loop cd http r t rest (out @ log_leaf s # run) = Inr ((out @ log_leaf s # run) @ map log_leaf rest)"
    using 2(1) [OF refl refl, of data] s data tr runs(1) 2(2) by (simp add: sdiv_nonneg smod_nonneg)
  ultimately show ?case
    using s data tr runs(1) by (simp add: sdiv_nonneg smod_nonneg Let_def not_le nat_less_iff)
qed

section \<open>Merging a batch\<close>

abbreviation offset :: "LogLeaf \<Rightarrow> int" where
  "offset l \<equiv> LeafIndex l smod 1024"

lemma place_new_ok:
  "distinct (map offset leaves @ map fst pos) \<Longrightarrow>
   place_new leaves pos = Inr (rev (map (\<lambda>l. (offset l, l)) leaves) @ pos)"
proof (induction leaves arbitrary: pos)
  case Nil
  then show ?case by simp
next
  case (Cons l leaves)
  have "map_of pos (offset l) = None" using Cons.prems by (force simp: map_of_eq_None_iff)
  with Cons show ?case by auto
qed

lemma place_existing_ok:
  "\<exists>pos'. place_existing (map Some es) pos = Inr pos' \<and>
     (\<forall>k. map_of pos' k = (case map_of pos k of Some l \<Rightarrow> Some l | None \<Rightarrow> map_of (map (\<lambda>l. (offset l, l)) es) k))"
proof (induction es arbitrary: pos)
  case Nil
  then show ?case by (auto split: option.splits)
next
  case (Cons l es)
  show ?case
  proof (cases "map_of pos (offset l)")
    case None
    with Cons [of "(offset l, l) # pos"] show ?thesis by (fastforce split: option.splits if_splits)
  next
    case (Some x)
    with Cons [of pos] show ?thesis by (fastforce split: option.splits if_splits)
  qed
qed

lemma map_of_filter_key: "map_of (filter (\<lambda>e. fst e \<noteq> i) pos) = (map_of pos)(i := None)"
  by (induction pos) (auto simp: fun_eq_iff)

lemma dom_map_of_empty: "dom (map_of xs) = {} \<longleftrightarrow> xs = []"
  by (cases xs) auto

lemma collect_ok:
  assumes "dom (map_of pos) = {i..<i + int m}" "0 < m" "m \<le> fuel"
  shows "collect fuel i pos upd = Inr ([], upd @ map (\<lambda>j. the (map_of pos (i + int j))) [0..<m])"
  using assms
proof (induction fuel i pos upd arbitrary: m rule: collect.induct)
  case (1 i pos upd)
  then show ?case by simp
next
  case (2 fuel i pos upd)
  let ?pos' = "filter (\<lambda>e. fst e \<noteq> i) pos"
  have "i \<in> dom (map_of pos)" using 2(2,3) by auto
  then obtain leaf where leaf: "map_of pos i = Some leaf" by auto
  have dom: "dom (map_of ?pos') = {i + 1..<i + int m}"
    using 2(2) by (auto simp: map_of_filter_key)
  show ?case
  proof (cases "m = 1")
    case True
    then have "?pos' = []" using dom dom_map_of_empty [of ?pos'] by simp
    with leaf True show ?thesis by simp
  next
    case False
    then have ne: "?pos' \<noteq> []" using dom dom_map_of_empty [of ?pos'] 2(3) by auto
    obtain k where k: "m = Suc k" "0 < k" using False 2(3) by (cases m) auto
    have "[0..<m] = 0 # map Suc [0..<k]" using k by (simp add: upt_conv_Cons map_Suc_upt)
    moreover have "collect fuel (i + 1) ?pos' (upd @ [leaf]) =
        Inr ([], (upd @ [leaf]) @ map (\<lambda>j. the (map_of ?pos' (i + 1 + int j))) [0..<k])"
      using 2(1) [OF leaf refl ne, of k] dom k 2(4) by (simp add: algebra_simps)
    ultimately show ?thesis using leaf ne by (simp add: map_of_filter_key comp_def algebra_simps)
  qed
qed

text \<open>The merge of a batch, positions as one map: new leaves win over stored ones.\<close>

lemma merge_batch_ok:
  assumes "distinct (map offset leaves)" "0 < m" "m \<le> 1024"
    and "\<And>k. (case map_of (map (\<lambda>l. (offset l, l)) leaves) k of
               Some l \<Rightarrow> Some l | None \<Rightarrow> map_of (map (\<lambda>l. (offset l, l)) es) k) = (if 0 \<le> k \<and> k < int m then Some (f k) else None)"
  shows "merge_batch leaves (map Some es) = Inr (map (\<lambda>j. f (int j)) [0..<m])"
proof -
  let ?new = "map (\<lambda>l. (offset l, l)) leaves"
  have new: "place_new leaves [] = Inr (rev ?new)" using assms(1) by (simp add: place_new_ok)
  have rev: "map_of (rev ?new) = map_of ?new"
    using assms(1) by (intro map_of_inject_set [THEN iffD2]) (auto simp: comp_def rev_map [symmetric])
  obtain pos where pos: "place_existing (map Some es) (rev ?new) = Inr pos"
      "\<And>k. map_of pos k = (if 0 \<le> k \<and> k < int m then Some (f k) else None)"
    using place_existing_ok [of es "rev ?new"] assms(4) by (auto simp: rev)
  have "dom (map_of pos) = {0..<0 + int m}" using pos(2) by (auto split: if_splits)
  then have "collect 1024 0 pos [] = Inr ([], [] @ map (\<lambda>j. the (map_of pos (0 + int j))) [0..<m])"
    using assms(2,3) by (intro collect_ok) auto
  then show ?thesis using new pos by (simp add: merge_batch_def)
qed

section \<open>Grouping\<close>

lemma add_to_batch_map_of:
  "map_of (add_to_batch b l bs) = (map_of bs)(b \<mapsto> (case map_of bs b of None \<Rightarrow> [l] | Some ls \<Rightarrow> ls @ [l]))"
  by (induction b l bs rule: add_to_batch.induct) (auto simp: fun_eq_iff)

lemma add_to_batch_keys: "set (map fst (add_to_batch b l bs)) = insert b (set (map fst bs))"
  by (induction b l bs rule: add_to_batch.induct) auto

lemma add_to_batch_distinct: "distinct (map fst bs) \<Longrightarrow> distinct (map fst (add_to_batch b l bs))"
proof (induction b l bs rule: add_to_batch.induct)
  case (1 b l)
  then show ?case by simp
next
  case (2 b l b' ls bs)
  then show ?case using add_to_batch_keys [of b l bs] by auto
qed

lemma group_batches_spec:
  "distinct (map fst (group_batches leaves)) \<and>
   map_of (group_batches leaves) b =
     (let ls = filter (\<lambda>l. LeafIndex l sdiv 1024 = b) leaves in if ls = [] then None else Some ls)"
proof (induction leaves rule: rev_induct)
  case Nil
  then show ?case by (simp add: group_batches_def)
next
  case (snoc l leaves)
  have "group_batches (leaves @ [l]) = add_to_batch (LeafIndex l sdiv 1024) l (group_batches leaves)"
    by (simp add: group_batches_def)
  with snoc show ?case by (auto simp: add_to_batch_map_of add_to_batch_distinct Let_def)
qed

end
