(* ===== verification/Cache.thy ===== *)
theory Cache
  imports Prelude
begin

text \<open>
  Package \<open>ct/cache\<close>: the in-memory cache of recently queued leaves. A map from keys to items with an
  expiration time, and a list of the same keys from which a random victim is drawn when the cache is
  full. The clock and the random source are arguments: \<open>now\<close> is what \<open>time.Now().UnixNano()\<close> returns,
  \<open>rnd\<close> is the outcome of \<open>rand.Read\<close> on the eight-byte buffer.
\<close>

section \<open>Data\<close>

record 'v Item =
  Object :: 'v
  Expiration :: int

definition Expired :: "int \<Rightarrow> 'v Item \<Rightarrow> bool" where
  "Expired now item = (if Expiration item = 0 then False else now > Expiration item)"

definition NoExpiration :: int where "NoExpiration = -1"
definition DefaultExpiration :: int where "DefaultExpiration = 0"

record keyList =
  keys :: "string list"
  maxSize :: int

record 'v cache =
  defaultExpiration :: int
  items :: "string \<rightharpoonup> 'v Item"
  keylist :: keyList

section \<open>Operations\<close>

text \<open>The random index: eight bytes folded into an \<open>int\<close>, made non-negative by negation.\<close>

definition fold_random :: "bytes \<Rightarrow> int" where
  "fold_random buff = foldl (\<lambda>i b. wrap64 (push_bit 8 i) OR uint b) 0 buff"

definition random_index :: "bytes \<Rightarrow> nat \<Rightarrow> int" where
  "random_index buff n =
    (let i = fold_random buff;
         i = (if i < 0 then wrap64 (- i) else i)
     in i smod int n)"

definition keyList_insert :: "keyList \<Rightarrow> string \<Rightarrow> bytes result \<Rightarrow> (keyList \<times> string \<times> bool) result" where
  "keyList_insert kl key rnd =
    (if int (length (keys kl)) < maxSize kl
     then Inr (kl\<lparr>keys := keys kl @ [key]\<rparr>, '''', False)
     else case rnd of
       Inl err \<Rightarrow> Inl (Panic ''rand.Read'')
     | Inr buff \<Rightarrow>
         if length (keys kl) = 0 then Inl (Panic ''integer divide by zero'')
         else let i = random_index buff (length (keys kl))
              in if i < 0 then Inl (Panic ''index out of range'')
                 else Inr (kl\<lparr>keys := (keys kl)[nat i := key]\<rparr>, keys kl ! nat i, True))"

definition evictAt :: "keyList \<Rightarrow> nat \<Rightarrow> keyList result" where
  "evictAt kl i =
    (let n = length (keys kl)
     in if i < n
        then Inr (kl\<lparr>keys := take (n - 1) ((keys kl)[i := keys kl ! (n - 1), n - 1 := keys kl ! i])\<rparr>)
        else Inl (Panic ''index out of range''))"

definition cache_Set :: "'v cache \<Rightarrow> string \<Rightarrow> 'v \<Rightarrow> int \<Rightarrow> int \<Rightarrow> bytes result \<Rightarrow> 'v cache result" where
  "cache_Set c k x d now rnd =
    (let d = (if d = DefaultExpiration then defaultExpiration c else d);
         e = (if d > 0 then wrap64 (now + d) else 0)
     in case (if k \<in> dom (items c) then Inr c
              else case keyList_insert (keylist c) k rnd of
                  Inl p \<Rightarrow> Inl p
                | Inr (kl, evicted, ok) \<Rightarrow>
                    Inr (if ok then c\<lparr>keylist := kl, items := (items c)(evicted := None)\<rparr>
                         else c\<lparr>keylist := kl\<rparr>)) of
          Inl p \<Rightarrow> Inl p
        | Inr c \<Rightarrow> Inr (c\<lparr>items := (items c)(k \<mapsto> \<lparr>Object = x, Expiration = e\<rparr>)\<rparr>))"

definition cache_Get :: "'v cache \<Rightarrow> string \<Rightarrow> int \<Rightarrow> 'v option" where
  "cache_Get c k now =
    (case items c k of
       None \<Rightarrow> None
     | Some item \<Rightarrow> if Expired now item then None else Some (Object item))"

text \<open>
  The loop of \<open>DeleteExpired\<close>. The clock is read once per iteration, so it is a function of the loop
  index, which grows by one in every iteration.
\<close>

function DeleteExpired_loop :: "(nat \<Rightarrow> int) \<Rightarrow> nat \<Rightarrow> 'v cache \<Rightarrow> 'v cache result" where
  "DeleteExpired_loop now i c =
    (if i < length (keys (keylist c))
     then let k = keys (keylist c) ! i
          in case items c k of
            None \<Rightarrow> Inl (Panic ''cache inconsistent'')
          | Some v \<Rightarrow>
              if Expired (now i) v
              then case evictAt (keylist c) i of
                  Inl p \<Rightarrow> Inl p
                | Inr kl \<Rightarrow>
                    DeleteExpired_loop now (i + 1) (c\<lparr>keylist := kl, items := (items c)(k := None)\<rparr>)
              else DeleteExpired_loop now (i + 1) c
     else Inr c)"
  by pat_completeness auto
termination
  by (relation "measure (\<lambda>(now, i, c). length (keys (keylist c)) - i)")
     (auto simp: evictAt_def Let_def split: if_splits)

declare DeleteExpired_loop.simps [simp del]

definition DeleteExpired :: "(nat \<Rightarrow> int) \<Rightarrow> 'v cache \<Rightarrow> 'v cache result" where
  "DeleteExpired now c = DeleteExpired_loop now 0 c"

definition newCache :: "int \<Rightarrow> int \<Rightarrow> (string \<rightharpoonup> 'v Item) \<Rightarrow> 'v cache" where
  "newCache de size_max m =
    \<lparr>defaultExpiration = (if de = 0 then -1 else de), items = m, keylist = \<lparr>keys = [], maxSize = size_max\<rparr>\<rparr>"

text \<open>\<open>New\<close>; the janitor it starts calls \<open>DeleteExpired\<close> at every tick.\<close>

definition cache_New :: "int \<Rightarrow> int \<Rightarrow> int \<Rightarrow> 'v cache" where
  "cache_New de cleanupInterval size_max = newCache de size_max Map.empty"

section \<open>The invariant\<close>

text \<open>The key list holds every key of the map once, and no more of them than allowed.\<close>

definition cache_inv :: "'v cache \<Rightarrow> bool" where
  "cache_inv c \<longleftrightarrow>
    distinct (keys (keylist c)) \<and> set (keys (keylist c)) = dom (items c) \<and>
    int (length (keys (keylist c))) \<le> maxSize (keylist c)"

lemma cache_inv_New [wf_intros]: "0 \<le> size_max \<Longrightarrow> cache_inv (cache_New de ci size_max)"
  by (simp add: cache_inv_def cache_New_def newCache_def)

lemma random_index_less: "0 < n \<Longrightarrow> random_index buff n < int n"
  by (simp add: random_index_def Let_def smod_less)

lemma keyList_insert_cases:
  assumes "keyList_insert kl key rnd = Inr (kl', evicted, ok)"
  obtains (grow) "int (length (keys kl)) < maxSize kl" "\<not> ok" "kl' = kl\<lparr>keys := keys kl @ [key]\<rparr>"
  | (replace) i where "\<not> int (length (keys kl)) < maxSize kl" "i < length (keys kl)" "ok"
      "evicted = keys kl ! i" "kl' = kl\<lparr>keys := (keys kl)[i := key]\<rparr>"
proof (cases "int (length (keys kl)) < maxSize kl")
  case True
  with assms grow show ?thesis by (simp add: keyList_insert_def)
next
  case False
  with assms obtain buff where buff: "rnd = Inr buff"
    by (auto simp: keyList_insert_def split: sum.splits)
  with False assms random_index_less [of "length (keys kl)" buff] show ?thesis
    by (intro replace [of "nat (random_index buff (length (keys kl)))"])
       (auto simp: keyList_insert_def Let_def nat_less_iff split: if_splits)
qed

definition set_expiry :: "'v cache \<Rightarrow> int \<Rightarrow> int \<Rightarrow> int" where
  "set_expiry c d now =
    (let d = (if d = DefaultExpiration then defaultExpiration c else d) in if d > 0 then wrap64 (now + d) else 0)"

lemma cache_Set_cases:
  assumes "cache_Set c k x d now rnd = Inr c'"
  obtains (present) "k \<in> dom (items c)"
      "c' = c\<lparr>items := (items c)(k \<mapsto> \<lparr>Object = x, Expiration = set_expiry c d now\<rparr>)\<rparr>"
  | (grow) "k \<notin> dom (items c)" "int (length (keys (keylist c))) < maxSize (keylist c)"
      "c' = c\<lparr>keylist := (keylist c)\<lparr>keys := keys (keylist c) @ [k]\<rparr>,
              items := (items c)(k \<mapsto> \<lparr>Object = x, Expiration = set_expiry c d now\<rparr>)\<rparr>"
  | (replace) i where "k \<notin> dom (items c)" "\<not> int (length (keys (keylist c))) < maxSize (keylist c)"
      "i < length (keys (keylist c))"
      "c' = c\<lparr>keylist := (keylist c)\<lparr>keys := (keys (keylist c))[i := k]\<rparr>,
              items := (items c)(keys (keylist c) ! i := None,
                k \<mapsto> \<lparr>Object = x, Expiration = set_expiry c d now\<rparr>)\<rparr>"
proof (cases "k \<in> dom (items c)")
  case True
  with assms present show ?thesis by (simp add: cache_Set_def set_expiry_def Let_def)
next
  case False
  then obtain kl ev ok where ins: "keyList_insert (keylist c) k rnd = Inr (kl, ev, ok)"
    using assms by (auto simp: cache_Set_def Let_def split: sum.splits)
  then show ?thesis
  proof (cases rule: keyList_insert_cases)
    case grow
    with False assms ins that(2) show ?thesis
      by (simp add: cache_Set_def set_expiry_def Let_def)
  next
    case (replace i)
    with False assms ins that(3) [of i] show ?thesis
      by (simp add: cache_Set_def set_expiry_def Let_def)
  qed
qed

lemma cache_inv_Set [wf_intros]:
  assumes "cache_inv c" "cache_Set c k x d now rnd = Inr c'"
  shows "cache_inv c'"
  using assms(2)
proof (cases rule: cache_Set_cases)
  case present
  with assms(1) show ?thesis by (auto simp: cache_inv_def)
next
  case grow
  with assms(1) show ?thesis by (auto simp: cache_inv_def)
next
  case (replace i)
  with assms(1) show ?thesis
    by (auto simp: cache_inv_def distinct_list_update set_update_distinct)
qed

lemma evictAt_spec:
  assumes "i < length (keys kl)" "distinct (keys kl)"
  shows "\<exists>ks. evictAt kl i = Inr (kl\<lparr>keys := ks\<rparr>) \<and> distinct ks \<and>
    set ks = set (keys kl) - {keys kl ! i} \<and> Suc (length ks) = length (keys kl) \<and>
    (\<forall>j < i. ks ! j = keys kl ! j)"
proof -
  let ?xs = "keys kl" and ?n = "length (keys kl)"
  define ys where "ys = ?xs[i := ?xs ! (?n - 1), ?n - 1 := ?xs ! i]"
  have "?xs \<noteq> []" using assms(1) by auto
  then have ne: "ys \<noteq> []" and last: "last ys = ?xs ! i" and len: "length ys = ?n"
    using assms(1) by (auto simp: ys_def last_conv_nth nth_list_update list_update_nonempty)
  have "mset ys = mset ?xs"
    unfolding ys_def using assms(1) by (intro mset_swap) auto
  then have dist: "distinct ys" and set: "set ys = set ?xs"
    using assms(2) mset_eq_imp_distinct_iff mset_eq_setD by blast+
  have "set (butlast ys) = set ys - {last ys}"
    using dist append_butlast_last_id [OF ne]
    by (metis Diff_insert_absorb Un_insert_right distinct_append empty_set list.simps(15)
        not_distinct_conv_prefix set_append sup_bot.right_neutral)
  moreover have "take (?n - 1) ys = butlast ys"
    using len by (simp add: butlast_conv_take)
  moreover have "\<forall>j < i. butlast ys ! j = ?xs ! j"
    using assms(1) len by (auto simp: nth_butlast ys_def)
  ultimately show ?thesis
    using assms(1) dist set last len
    by (intro exI [of _ "butlast ys"]) (auto simp: evictAt_def Let_def ys_def distinct_butlast)
qed

section \<open>Deleting expired items\<close>

text \<open>One iteration of the loop on a consistent cache.\<close>

lemma DeleteExpired_loop_step:
  assumes "cache_inv c" "i < length (keys (keylist c))"
  obtains (keep) v where "items c (keys (keylist c) ! i) = Some v" "\<not> Expired (now i) v"
      "DeleteExpired_loop now i c = DeleteExpired_loop now (Suc i) c"
  | (evict) v c' where "items c (keys (keylist c) ! i) = Some v" "Expired (now i) v"
      "DeleteExpired_loop now i c = DeleteExpired_loop now (Suc i) c'" "cache_inv c'"
      "items c' = (items c)(keys (keylist c) ! i := None)"
      "Suc (length (keys (keylist c'))) = length (keys (keylist c))"
      "maxSize (keylist c') = maxSize (keylist c)" "defaultExpiration c' = defaultExpiration c"
proof -
  let ?k = "keys (keylist c) ! i"
  have "?k \<in> dom (items c)"
    using assms by (auto simp: cache_inv_def)
  then obtain v where v: "items c ?k = Some v" by auto
  obtain ks where ks: "evictAt (keylist c) i = Inr ((keylist c)\<lparr>keys := ks\<rparr>)" "distinct ks"
    "set ks = set (keys (keylist c)) - {?k}" "Suc (length ks) = length (keys (keylist c))"
    using evictAt_spec [OF assms(2)] assms(1) by (auto simp: cache_inv_def)
  show ?thesis
  proof (cases "Expired (now i) v")
    case True
    with v ks assms evict [of v "c\<lparr>keylist := (keylist c)\<lparr>keys := ks\<rparr>, items := (items c)(?k := None)\<rparr>"]
    show ?thesis
      by (auto simp: DeleteExpired_loop.simps [of now i c] Let_def cache_inv_def)
  next
    case False
    with v assms keep show ?thesis by (simp add: DeleteExpired_loop.simps [of now i c])
  qed
qed

lemma DeleteExpired_loop_end:
  "\<not> i < length (keys (keylist c)) \<Longrightarrow> DeleteExpired_loop now i c = Inr c"
  by (simp add: DeleteExpired_loop.simps [of now i c])

text \<open>
  The loop never panics on a consistent cache, keeps it consistent, and drops only items that had
  expired when they were looked at.
\<close>

lemma DeleteExpired_loop_spec:
  assumes "cache_inv c"
  shows "\<exists>c'. DeleteExpired_loop now i c = Inr c' \<and> cache_inv c' \<and> items c' \<subseteq>\<^sub>m items c \<and>
    (\<forall>k v. items c k = Some v \<and> items c' k = None \<longrightarrow> (\<exists>j. Expired (now j) v)) \<and>
    length (keys (keylist c')) \<le> length (keys (keylist c)) \<and>
    maxSize (keylist c') = maxSize (keylist c) \<and> defaultExpiration c' = defaultExpiration c"
  using assms
proof (induction "length (keys (keylist c)) - i" arbitrary: c i rule: less_induct)
  case less
  show ?case
  proof (cases "i < length (keys (keylist c))")
    case False
    with less.prems show ?thesis by (auto simp: DeleteExpired_loop_end)
  next
    case True
    from less.prems True show ?thesis
    proof (cases rule: DeleteExpired_loop_step [where now = now])
      case (keep v)
      then show ?thesis using less.hyps [of c "Suc i"] less.prems True by auto
    next
      case (evict v c1)
      have "length (keys (keylist c1)) - Suc i < length (keys (keylist c)) - i"
        using evict(6) True by simp
      from less.hyps [OF this evict(4)]
      obtain c' where c': "DeleteExpired_loop now (Suc i) c1 = Inr c'" "cache_inv c'"
        "items c' \<subseteq>\<^sub>m items c1"
        "\<forall>k v. items c1 k = Some v \<and> items c' k = None \<longrightarrow> (\<exists>j. Expired (now j) v)"
        "length (keys (keylist c')) \<le> length (keys (keylist c1))"
        "maxSize (keylist c') = maxSize (keylist c1)" "defaultExpiration c' = defaultExpiration c1"
        by blast
      have "items c' \<subseteq>\<^sub>m items c"
        using c'(3) evict(5) by (auto simp: map_le_def split: if_splits)
      moreover have "\<exists>j. Expired (now j) v'" if "items c k = Some v'" "items c' k = None" for k v'
        using that evict c'(4) [rule_format, of k v'] by (cases "k = keys (keylist c) ! i") auto
      ultimately show ?thesis using c' evict by auto
    qed
  qed
qed

definition expired_keys :: "int \<Rightarrow> 'v cache \<Rightarrow> string set" where
  "expired_keys t c = {k. \<exists>v. items c k = Some v \<and> Expired t v}"

text \<open>An item evicted by the first iteration stays evicted.\<close>

lemma DeleteExpired_loop_evicted:
  assumes "cache_inv c" "i < length (keys (keylist c))" "DeleteExpired_loop (\<lambda>_. t) i c = Inr c'"
    "keys (keylist c) ! i \<in> expired_keys t c"
  shows "items c' (keys (keylist c) ! i) = None"
  using assms(1,2)
proof (cases rule: DeleteExpired_loop_step [where now = "\<lambda>_. t"])
  case (keep v)
  with assms(4) show ?thesis by (auto simp: expired_keys_def)
next
  case (evict v c1)
  with assms(3) DeleteExpired_loop_spec [OF evict(4), of "\<lambda>_. t" "Suc i"]
  have "items c' \<subseteq>\<^sub>m items c1" by auto
  with evict(5) show ?thesis by (auto intro: map_le_None)
qed

lemma DeleteExpired_loop_progress:
  assumes "cache_inv c" "i \<le> j" "j < length (keys (keylist c))"
    "keys (keylist c) ! j \<in> expired_keys t c" "DeleteExpired_loop (\<lambda>_. t) i c = Inr c'"
  shows "\<exists>k \<in> expired_keys t c. items c' k = None"
  using assms
proof (induction "j - i" arbitrary: i)
  case 0
  then show ?case using DeleteExpired_loop_evicted [of c i t c'] by auto
next
  case (Suc n)
  have i: "i < length (keys (keylist c))" using Suc by simp
  show ?case
  proof (cases "keys (keylist c) ! i \<in> expired_keys t c")
    case True
    with Suc.prems i show ?thesis using DeleteExpired_loop_evicted by blast
  next
    case False
    from \<open>cache_inv c\<close> i have "DeleteExpired_loop (\<lambda>_. t) i c = DeleteExpired_loop (\<lambda>_. t) (Suc i) c"
      using False by (cases rule: DeleteExpired_loop_step [where now = "\<lambda>_. t"]) (auto simp: expired_keys_def)
    with Suc.hyps(1) [of "Suc i"] Suc.hyps(2) Suc.prems show ?thesis by simp
  qed
qed

lemma finite_expired_keys [simp]: "cache_inv c \<Longrightarrow> finite (expired_keys t c)"
proof (rule finite_subset [rotated])
  show "expired_keys t c \<subseteq> dom (items c)" by (auto simp: expired_keys_def)
  assume "cache_inv c"
  then show "finite (dom (items c))" by (metis List.finite_set cache_inv_def)
qed

lemma expired_keys_less:
  assumes "cache_inv c" "DeleteExpired (\<lambda>_. t) c = Inr c'" "expired_keys t c \<noteq> {}"
  shows "expired_keys t c' \<subset> expired_keys t c"
proof -
  from assms(3) obtain k where k: "k \<in> expired_keys t c" by auto
  then have "k \<in> set (keys (keylist c))" using assms(1) by (auto simp: expired_keys_def cache_inv_def)
  then obtain j where "j < length (keys (keylist c))" "keys (keylist c) ! j = k" by (auto simp: in_set_conv_nth)
  then obtain k' where k': "k' \<in> expired_keys t c" "items c' k' = None"
    using DeleteExpired_loop_progress [of c 0 j t c'] assms k by (auto simp: DeleteExpired_def)
  have "items c' \<subseteq>\<^sub>m items c"
    using DeleteExpired_loop_spec [OF assms(1), of "\<lambda>_. t" 0] assms(2) by (auto simp: DeleteExpired_def)
  then have "expired_keys t c' \<subseteq> expired_keys t c"
    by (auto simp: expired_keys_def dest: map_le_Some)
  moreover have "k' \<notin> expired_keys t c'" using k' by (simp add: expired_keys_def)
  ultimately show ?thesis using k' by blast
qed

text \<open>Consecutive passes of the janitor at one clock reading.\<close>

fun janitor_passes :: "nat \<Rightarrow> int \<Rightarrow> 'v cache \<Rightarrow> 'v cache result" where
  "janitor_passes 0 t c = Inr c"
| "janitor_passes (Suc n) t c =
     (case DeleteExpired (\<lambda>_. t) c of Inl p \<Rightarrow> Inl p | Inr c' \<Rightarrow> janitor_passes n t c')"

lemma janitor_passes_spec:
  assumes "cache_inv c" "card (expired_keys t c) \<le> n"
  shows "\<exists>c'. janitor_passes n t c = Inr c' \<and> cache_inv c' \<and> items c' = items c |` (- expired_keys t c)"
  using assms
proof (induction n arbitrary: c)
  case 0
  then have "expired_keys t c = {}" by simp
  with 0 show ?case by simp
next
  case (Suc n)
  from DeleteExpired_loop_spec [OF Suc.prems(1), of "\<lambda>_. t" 0]
  obtain c1 where c1: "DeleteExpired (\<lambda>_. t) c = Inr c1" "cache_inv c1" "items c1 \<subseteq>\<^sub>m items c"
    "\<forall>k v. items c k = Some v \<and> items c1 k = None \<longrightarrow> Expired t v"
    unfolding DeleteExpired_def by auto
  have "card (expired_keys t c1) \<le> n"
  proof (cases "expired_keys t c = {}")
    case True
    then have "expired_keys t c1 = {}"
      using c1(3) by (auto simp: expired_keys_def dest: map_le_Some)
    then show ?thesis by simp
  next
    case False
    then have "card (expired_keys t c1) < card (expired_keys t c)"
      using expired_keys_less [OF Suc.prems(1) c1(1)] Suc.prems(1) by (intro psubset_card_mono) auto
    with Suc.prems(2) show ?thesis by simp
  qed
  from Suc.IH [OF c1(2) this] obtain c' where c': "janitor_passes n t c1 = Inr c'" "cache_inv c'"
    "items c' = items c1 |` (- expired_keys t c1)" by auto
  have "items c1 |` (- expired_keys t c1) = items c |` (- expired_keys t c)"
  proof
    fix k
    show "(items c1 |` (- expired_keys t c1)) k = (items c |` (- expired_keys t c)) k"
      using c1(3,4) by (cases "items c1 k"; cases "items c k")
        (auto simp: restrict_map_def expired_keys_def dest: map_le_Some)
  qed
  with c1 c' show ?case by simp
qed

section \<open>The random index\<close>

lemma in_int64_iff: "in_int64 x \<longleftrightarrow> wrap64 x = x"
  by (metis in_int64_wrap64 wrap64_id)

lemma fold_random_range: "in_int64 (fold_random buff)"
proof -
  have "in_int64 (wrap64 i OR uint (b::byte))" for i b
  proof -
    have "in_int64 (uint b)" by (rule in_int64I) (use uint_lt2p [of b] in auto)
    then show ?thesis
      by (simp add: in_int64_iff wrap64_def signed_take_bit_or)
  qed
  moreover have "in_int64 0" by (simp add: in_int64_def)
  ultimately show ?thesis
    unfolding fold_random_def by (induction buff rule: rev_induct) auto
qed

text \<open>Negating the smallest 64-bit integer overflows back to itself; it is the only bad draw.\<close>

lemma random_index_nonneg_iff:
  "0 < n \<Longrightarrow> 0 \<le> random_index buff n \<longleftrightarrow> fold_random buff \<noteq> minInt64 \<or> int n dvd 2 ^ 63"
proof (cases "fold_random buff = minInt64")
  case True
  assume "0 < n"
  have "random_index buff n = minInt64 smod int n"
    using True by (simp add: random_index_def wrap64_def)
  also have "\<dots> = - (2 ^ 63 mod int n)"
    using \<open>0 < n\<close> by (simp add: signed_modulo_int_def)
  finally show ?thesis
    using True \<open>0 < n\<close> by (auto simp: dvd_eq_mod_eq_0) (metis neg_0_le_iff_le pos_mod_sign of_nat_0_less_iff dual_order.antisym)
next
  case False
  assume "0 < n"
  have "in_int64 (- fold_random buff)" if "fold_random buff < 0"
    using False that fold_random_range [of buff] by (auto simp: in_int64_def)
  then have "0 \<le> random_index buff n"
    using \<open>0 < n\<close> smod_int_compares(2) [of "fold_random buff" "int n"]
      smod_int_compares(2) [of "- fold_random buff" "int n"]
    by (auto simp: random_index_def Let_def)
  with False show ?thesis by simp
qed

lemma keyList_insert_panic_iff:
  assumes "0 < length (keys kl)"
  shows "(\<exists>p. keyList_insert kl k rnd = Inl p) \<longleftrightarrow>
    maxSize kl \<le> int (length (keys kl)) \<and>
    (case rnd of Inl _ \<Rightarrow> True
     | Inr buff \<Rightarrow> fold_random buff = minInt64 \<and> \<not> int (length (keys kl)) dvd 2 ^ 63)"
proof (cases rnd)
  case (Inl e)
  then show ?thesis by (auto simp: keyList_insert_def)
next
  case (Inr buff)
  with assms random_index_nonneg_iff [OF assms, of buff] show ?thesis
    by (auto simp: keyList_insert_def Let_def not_less)
qed

section \<open>The contract: a lossy map\<close>

text \<open>
  What the leaf cache's client relies on. A lossy map may forget any entry, but a hit is always the
  value last stored under that key.
\<close>

fun store_all :: "('c \<Rightarrow> 'k \<Rightarrow> 'v \<Rightarrow> 'e \<Rightarrow> 'c result) \<Rightarrow> 'c \<Rightarrow> ('k \<times> 'v \<times> 'e) list \<Rightarrow> 'c result" where
  "store_all put c [] = Inr c"
| "store_all put c ((k, x, e) # ops) =
     (case put c k x e of Inl p \<Rightarrow> Inl p | Inr c' \<Rightarrow> store_all put c' ops)"

lemma store_all_append:
  "store_all put c (xs @ ys) = (case store_all put c xs of Inl p \<Rightarrow> Inl p | Inr c1 \<Rightarrow> store_all put c1 ys)"
  by (induction put c xs rule: store_all.induct) (auto split: sum.splits)

locale lossy_map =
  fixes inv :: "'c \<Rightarrow> bool"
    and get :: "'c \<Rightarrow> 'k \<Rightarrow> 't \<Rightarrow> 'v option"
    and put :: "'c \<Rightarrow> 'k \<Rightarrow> 'v \<Rightarrow> 'e \<Rightarrow> 'c result"
  assumes put_inv: "inv c \<Longrightarrow> put c k x e = Inr c' \<Longrightarrow> inv c'"
    and put_same: "inv c \<Longrightarrow> put c k x e = Inr c' \<Longrightarrow> get c' k t = Some y \<Longrightarrow> y = x"
    and put_other: "inv c \<Longrightarrow> put c k x e = Inr c' \<Longrightarrow> k' \<noteq> k \<Longrightarrow> get c' k' t = Some y \<Longrightarrow> get c k' t = Some y"
begin

lemma puts_inv: "inv c \<Longrightarrow> store_all put c ops = Inr c' \<Longrightarrow> inv c'"
  by (induction ops arbitrary: c) (auto split: sum.splits, metis put_inv)

text \<open>A hit after any sequence of stores is the latest value stored under its key.\<close>

lemma puts_get:
  assumes "inv c" "store_all put c ops = Inr c'" "get c' k t = Some y"
  shows "(case map_of (rev (map (\<lambda>(k, x, e). (k, x)) ops)) k of
      Some x \<Rightarrow> y = x | None \<Rightarrow> get c k t = Some y)"
  using assms
proof (induction ops arbitrary: c' y rule: rev_induct)
  case Nil
  then show ?case by simp
next
  case (snoc op ops)
  obtain k1 x1 e1 where op: "op = (k1, x1, e1)" by (cases op)
  from snoc.prems(2) obtain c1 where c1: "store_all put c ops = Inr c1" "put c1 k1 x1 e1 = Inr c'"
    by (auto simp: store_all_append op split: sum.splits)
  have inv1: "inv c1" by (rule puts_inv [OF snoc.prems(1) c1(1)])
  show ?case
  proof (cases "k = k1")
    case True
    with put_same [OF inv1 c1(2)] snoc.prems(3) op show ?thesis by auto
  next
    case False
    with put_other [OF inv1 c1(2)] snoc.prems(3) have "get c1 k t = Some y" by blast
    from snoc.IH [OF snoc.prems(1) c1(1) this] False op show ?thesis by simp
  qed
qed

end

text \<open>The cache with the duration, the clock and the random draw of each \<open>Set\<close> as its environment.\<close>

definition cache_put :: "'v cache \<Rightarrow> string \<Rightarrow> 'v \<Rightarrow> int \<times> int \<times> bytes result \<Rightarrow> 'v cache result" where
  "cache_put c k x env = (case env of (d, now, rnd) \<Rightarrow> cache_Set c k x d now rnd)"

lemma cache_Set_items:
  assumes "cache_Set c k x d now rnd = Inr c'"
  shows "items c' k = Some \<lparr>Object = x, Expiration = set_expiry c d now\<rparr>"
    and "k' \<noteq> k \<Longrightarrow> items c' k' = items c k' \<or> items c' k' = None"
  using assms by (cases rule: cache_Set_cases; auto)+

interpretation leaf: lossy_map cache_inv cache_Get cache_put
proof
  fix c :: "'v cache" and k x e c'
  assume inv: "cache_inv c" and put: "cache_put c k x e = Inr c'"
  obtain d now rnd where e: "e = (d, now, rnd)" by (cases e)
  with put have set: "cache_Set c k x d now rnd = Inr c'" by (simp add: cache_put_def)
  show "cache_inv c'" by (rule cache_inv_Set [OF inv set])
  show "y = x" if "cache_Get c' k t = Some y" for t y
    using that cache_Set_items(1) [OF set] by (simp add: cache_Get_def split: if_splits)
  show "cache_Get c k' t = Some y" if "k' \<noteq> k" "cache_Get c' k' t = Some y" for k' t y
    using that cache_Set_items(2) [OF set, of k'] by (auto simp: cache_Get_def)
qed

section \<open>Properties\<close>

text \<open>
  C32. Every operation keeps the cache consistent (each key listed once, the list and the map over the
  same keys, never more than the maximum size): \<open>Set\<close> whenever it returns, and \<open>DeleteExpired\<close> always, whatever
  the clock does; the latter never reaches its \<open>panic\<close>, and drops nothing that had not expired.
\<close>

theorem cache_operations_keep_invariant:
  assumes "cache_inv c"
  shows "(\<forall>k x d now rnd c'. cache_Set c k x d now rnd = Inr c' \<longrightarrow> cache_inv c')
    \<and> (\<exists>c'. DeleteExpired clock c = Inr c' \<and> cache_inv c' \<and> items c' \<subseteq>\<^sub>m items c
         \<and> (\<forall>k v. items c k = Some v \<and> items c' k = None \<longrightarrow> (\<exists>j. Expired (clock j) v)))"
  using cache_inv_Set [OF assms] DeleteExpired_loop_spec [OF assms, of clock 0]
  unfolding DeleteExpired_def by blast

definition two_expired :: "nat cache" where
  "two_expired =
    \<lparr>defaultExpiration = 3600, items = [''a'' \<mapsto> \<lparr>Object = 1, Expiration = 10\<rparr>, ''b'' \<mapsto> \<lparr>Object = 2, Expiration = 10\<rparr>],
     keylist = \<lparr>keys = [''a'', ''b''], maxSize = 2\<rparr>\<rparr>"

theorem cache_operations_keep_invariant_witness:
  "\<exists>c'. DeleteExpired (\<lambda>_. 11) two_expired = Inr c' \<and> cache_inv c'"
proof -
  have "cache_inv two_expired" by (auto simp: two_expired_def cache_inv_def)
  from cache_operations_keep_invariant [OF this, of "\<lambda>_. 11"] show ?thesis by blast
qed

text \<open>
  C33. A cache hit is genuine: after any sequence of \<open>Set\<close> calls on a consistent cache, whatever keys were
  evicted, \<open>Get\<close> returns only the value most recently set under that key (or, if the key was never set,
  what the original cache held).
\<close>

theorem cache_hits_are_genuine:
  assumes "cache_inv c" "store_all cache_put c ops = Inr c'" "cache_Get c' k now = Some y"
  shows "case map_of (rev (map (\<lambda>(k, x, env). (k, x)) ops)) k of
    Some x \<Rightarrow> y = x | None \<Rightarrow> cache_Get c k now = Some y"
  using assms by (rule leaf.puts_get)

theorem cache_hits_are_genuine_witness:
  "cache_Get (two_expired\<lparr>items := (items two_expired)(''a'' \<mapsto> \<lparr>Object = 7, Expiration = 105\<rparr>)\<rparr>) ''a'' 50 = Some 7
   \<and> (case map_of (rev (map (\<lambda>(k, x, env). (k, x)) [(''a'', 7 :: nat, (5 :: int, 100 :: int, Inl (External ''r'') :: bytes result))])) ''a'' of
        Some x \<Rightarrow> 7 = x | None \<Rightarrow> cache_Get two_expired ''a'' 50 = Some 7)"
proof -
  have inv: "cache_inv two_expired" by (auto simp: two_expired_def cache_inv_def)
  have puts: "store_all cache_put two_expired [(''a'', 7, (5, 100, Inl (External ''r'')))]
      = Inr (two_expired\<lparr>items := (items two_expired)(''a'' \<mapsto> \<lparr>Object = 7, Expiration = 105\<rparr>)\<rparr>)"
    by (simp add: two_expired_def cache_put_def cache_Set_def DefaultExpiration_def in_int64_def)
  have hit: "cache_Get (two_expired\<lparr>items := (items two_expired)(''a'' \<mapsto> \<lparr>Object = 7, Expiration = 105\<rparr>)\<rparr>) ''a'' 50 = Some 7"
    by (simp add: cache_Get_def Expired_def)
  from hit cache_hits_are_genuine [OF inv puts hit] show ?thesis by simp
qed

text \<open>
  \<open>Set\<close> stores: right after it the key is found until the expiry it was given (default expiry when the
  duration is 0, never when negative), and at most one other key is lost, only when the cache was full
  and the key was new.
\<close>

theorem cache_Set_then_Get:
  assumes "cache_inv c" "cache_Set c k x d now rnd = Inr c'"
  shows "cache_Get c' k t =
      (if set_expiry c d now \<noteq> 0 \<and> t > set_expiry c d now then None else Some x)
    \<and> (\<exists>lost. card lost \<le> 1 \<and> (\<forall>k'. k' \<noteq> k \<longrightarrow> items c' k' = (if k' \<in> lost then None else items c k'))
         \<and> (lost \<noteq> {} \<longrightarrow> k \<notin> dom (items c) \<and> int (length (keys (keylist c))) = maxSize (keylist c)))"
proof
  show "cache_Get c' k t = (if set_expiry c d now \<noteq> 0 \<and> t > set_expiry c d now then None else Some x)"
    using cache_Set_items(1) [OF assms(2)] by (simp add: cache_Get_def Expired_def)
  from assms(2) show "\<exists>lost. card lost \<le> 1 \<and> (\<forall>k'. k' \<noteq> k \<longrightarrow> items c' k' = (if k' \<in> lost then None else items c k'))
         \<and> (lost \<noteq> {} \<longrightarrow> k \<notin> dom (items c) \<and> int (length (keys (keylist c))) = maxSize (keylist c))"
  proof (cases rule: cache_Set_cases)
    case present
    then show ?thesis by (intro exI [of _ "{}"]) simp
  next
    case grow
    then show ?thesis by (intro exI [of _ "{}"]) simp
  next
    case (replace i)
    with assms(1) show ?thesis
      by (intro exI [of _ "{keys (keylist c) ! i}"]) (auto simp: cache_inv_def)
  qed
qed

theorem cache_Set_then_Get_witness:
  "cache_Get (two_expired\<lparr>items := (items two_expired)(''a'' \<mapsto> \<lparr>Object = 7, Expiration = 105\<rparr>)\<rparr>) ''a'' 105 = Some 7"
proof -
  have inv: "cache_inv two_expired" by (auto simp: two_expired_def cache_inv_def)
  have set: "cache_Set two_expired ''a'' 7 5 100 (Inl (External ''r''))
      = Inr (two_expired\<lparr>items := (items two_expired)(''a'' \<mapsto> \<lparr>Object = 7, Expiration = 105\<rparr>)\<rparr>)"
    by (simp add: two_expired_def cache_Set_def DefaultExpiration_def in_int64_def)
  show ?thesis
    using cache_Set_then_Get [OF inv set, of 105]
    by (simp add: set_expiry_def DefaultExpiration_def in_int64_def)
qed

text \<open>
  C34. Repeated passes of the janitor do remove everything that has expired: after as many passes as
  there are keys (at one clock reading) the cache holds exactly the items that have not expired.
\<close>

theorem janitor_removes_all_expired:
  assumes "cache_inv c"
  shows "\<exists>c'. janitor_passes (length (keys (keylist c))) t c = Inr c' \<and> cache_inv c' \<and>
    items c' = items c |` {k. \<forall>v. items c k = Some v \<longrightarrow> \<not> Expired t v}"
proof -
  have "card (expired_keys t c) \<le> card (set (keys (keylist c)))"
    using assms by (intro card_mono List.finite_set) (auto simp: expired_keys_def cache_inv_def)
  also have "\<dots> \<le> length (keys (keylist c))" by (rule card_length)
  finally have "card (expired_keys t c) \<le> length (keys (keylist c))" .
  moreover have "- expired_keys t c = {k. \<forall>v. items c k = Some v \<longrightarrow> \<not> Expired t v}"
    by (auto simp: expired_keys_def)
  ultimately show ?thesis
    using janitor_passes_spec [OF assms, of t] by metis
qed

theorem janitor_removes_all_expired_witness:
  "\<exists>c'. janitor_passes 2 11 two_expired = Inr c' \<and> items c' = Map.empty"
proof -
  have "cache_inv two_expired" by (auto simp: two_expired_def cache_inv_def)
  from janitor_removes_all_expired [OF this, of 11] show ?thesis
    by (auto simp: two_expired_def Expired_def restrict_map_def fun_eq_iff numeral_2_eq_2 split: if_splits)
qed

text \<open>
  A single pass does not delete all expired items, contrary to its comment: after an eviction the
  last key is swapped into the freed position and the index moves past it. With two expired items the
  second one survives the pass.
\<close>

theorem DeleteExpired_skips_swapped_key:
  assumes "k1 \<noteq> k2" "Expired t v1" "Expired t v2"
  shows "DeleteExpired (\<lambda>_. t)
      \<lparr>defaultExpiration = de, items = [k1 \<mapsto> v1, k2 \<mapsto> v2], keylist = \<lparr>keys = [k1, k2], maxSize = n\<rparr>\<rparr>
    = Inr \<lparr>defaultExpiration = de, items = [k2 \<mapsto> v2], keylist = \<lparr>keys = [k2], maxSize = n\<rparr>\<rparr>"
  using assms
  by (auto simp: DeleteExpired_def DeleteExpired_loop.simps evictAt_def fun_eq_iff)

theorem DeleteExpired_skips_swapped_key_witness:
  "DeleteExpired (\<lambda>_. 11)
      \<lparr>defaultExpiration = 3600, items = [''a'' \<mapsto> \<lparr>Object = 1 :: nat, Expiration = 10\<rparr>, ''b'' \<mapsto> \<lparr>Object = 2, Expiration = 10\<rparr>],
       keylist = \<lparr>keys = [''a'', ''b''], maxSize = 2\<rparr>\<rparr>
    = Inr \<lparr>defaultExpiration = 3600, items = [''b'' \<mapsto> \<lparr>Object = 2, Expiration = 10\<rparr>],
       keylist = \<lparr>keys = [''b''], maxSize = 2\<rparr>\<rparr>"
  by (rule DeleteExpired_skips_swapped_key) (simp_all add: Expired_def)

text \<open>
  \<open>Set\<close> panics exactly when the key is new, the cache is full, and either the random source fails or
  the eight random bytes are the smallest 64-bit integer, whose negation overflows to itself so that
  the index is negative (unless the number of keys is a power of two up to 2 to the 63).
\<close>

theorem cache_Set_panics_iff:
  assumes "cache_inv c" "0 < length (keys (keylist c))"
  shows "(\<exists>p. cache_Set c k x d now rnd = Inl p) \<longleftrightarrow>
    k \<notin> dom (items c) \<and> int (length (keys (keylist c))) = maxSize (keylist c) \<and>
    (case rnd of Inl _ \<Rightarrow> True
     | Inr buff \<Rightarrow> fold_random buff = minInt64 \<and> \<not> int (length (keys (keylist c))) dvd 2 ^ 63)"
proof -
  have "(\<exists>p. cache_Set c k x d now rnd = Inl p) \<longleftrightarrow>
      k \<notin> dom (items c) \<and> (\<exists>p. keyList_insert (keylist c) k rnd = Inl p)"
    by (auto simp: cache_Set_def Let_def split: sum.splits)
  moreover have "int (length (keys (keylist c))) \<le> maxSize (keylist c)"
    using assms(1) by (simp add: cache_inv_def)
  ultimately show ?thesis
    unfolding keyList_insert_panic_iff [OF assms(2)] by auto
qed

definition full_cache :: "nat cache" where
  "full_cache =
    \<lparr>defaultExpiration = 3600, items = [''a'' \<mapsto> \<lparr>Object = 1, Expiration = 0\<rparr>, ''b'' \<mapsto> \<lparr>Object = 2, Expiration = 0\<rparr>, ''c'' \<mapsto> \<lparr>Object = 3, Expiration = 0\<rparr>],
     keylist = \<lparr>keys = [''a'', ''b'', ''c''], maxSize = 3\<rparr>\<rparr>"

theorem cache_Set_panics_iff_witness:
  "\<exists>p. cache_Set full_cache ''d'' 4 0 100 (Inr [0x80, 0, 0, 0, 0, 0, 0, 0]) = Inl p"
proof -
  have "cache_inv full_cache" "0 < length (keys (keylist full_cache))"
    by (auto simp: full_cache_def cache_inv_def)
  from cache_Set_panics_iff [OF this] show ?thesis
    by (simp add: full_cache_def fold_random_def wrap64_def)
qed

end
