(* ===== verification/LeafCache.thy ===== *)
theory LeafCache
  imports Cache GoTypes GoFmt
begin

text \<open>
  The process-wide cache of recently queued leaves (\<open>leafCache\<close> in \<open>ct/tree_tx.go\<close>): leaves keyed by tree and
  identity hash. The theory shows that the printed keys keep trees and hashes apart, so that a hit is a copy
  of the leaf that was added last under the same tree and identity hash.
\<close>

section \<open>Operations\<close>

definition dupLeaf :: "LogLeaf \<Rightarrow> LogLeaf" where
  "dupLeaf leaf =
    \<lparr>MerkleLeafHash = dupSlice (MerkleLeafHash leaf), LeafValue = dupSlice (LeafValue leaf),
     ExtraData = dupSlice (ExtraData leaf), LeafIndex = LeafIndex leaf,
     LeafIdentityHash = dupSlice (LeafIdentityHash leaf), QueueTimestamp = None, IntegrateTimestamp = None\<rparr>"

text \<open>\<open>SetLeafCacheSize\<close> replaces the cache; durations are in nanoseconds.\<close>

definition SetLeafCacheSize :: "int \<Rightarrow> LogLeaf cache" where
  "SetLeafCacheSize size_max = cache_New (1 * 3600 * 10 ^ 9) (1 * 60 * 10 ^ 9) size_max"

definition leafCache :: "LogLeaf cache" where
  "leafCache = cache_New (1 * 3600 * 10 ^ 9) (1 * 60 * 10 ^ 9) 75000"

definition leaf_key :: "int \<Rightarrow> gobytes \<Rightarrow> string" where
  "leaf_key treeID h = ''treeID='' @ fmt_v_int treeID @ '',id='' @ fmt_x_bytes (contents h)"

text \<open>\<open>now\<close> is the clock, \<open>rnd\<close> the random bytes that choose a victim when the cache is full.\<close>

definition addLeaf :: "LogLeaf cache \<Rightarrow> int \<Rightarrow> LogLeaf \<Rightarrow> int \<Rightarrow> bytes result \<Rightarrow> LogLeaf cache result" where
  "addLeaf c treeID leaf now rnd =
    cache_Set c (leaf_key treeID (LeafIdentityHash leaf)) (dupLeaf leaf) DefaultExpiration now rnd"

definition getLeafByIdentityHash :: "LogLeaf cache \<Rightarrow> int \<Rightarrow> gobytes \<Rightarrow> int \<Rightarrow> LogLeaf option" where
  "getLeafByIdentityHash c treeID h now =
    (case cache_Get c (leaf_key treeID h) now of None \<Rightarrow> None | Some leaf \<Rightarrow> Some (dupLeaf leaf))"

section \<open>Keys\<close>

lemma leaf_key_inj: "leaf_key t g = leaf_key u h \<longleftrightarrow> t = u \<and> contents g = contents h"
proof -
  have "CHR '','' \<notin> number_chars" by (simp add: number_chars_def)
  then have "CHR '','' \<notin> set (fmt_v_int x)" for x using fmt_v_int_chars [of x] by auto
  then show ?thesis by (simp add: leaf_key_def append_sep_inj fmt_v_int_inj fmt_x_bytes_inj)
qed

lemma dupLeaf_dupLeaf [simp]: "dupLeaf (dupLeaf l) = dupLeaf l"
  by (simp add: dupLeaf_def)

lemma addLeaf_own:
  assumes "addLeaf c t leaf now rnd = Inr c'" "contents h = contents (LeafIdentityHash leaf)"
  shows "getLeafByIdentityHash c' t h t' =
    (if set_expiry c DefaultExpiration now \<noteq> 0 \<and> t' > set_expiry c DefaultExpiration now then None else Some (dupLeaf leaf))"
proof -
  have "leaf_key t h = leaf_key t (LeafIdentityHash leaf)" using assms(2) by (simp add: leaf_key_def)
  then have "items c' (leaf_key t h) = Some \<lparr>Object = dupLeaf leaf, Expiration = set_expiry c DefaultExpiration now\<rparr>"
    using cache_Set_items(1) [OF assms(1) [unfolded addLeaf_def]] by simp
  then show ?thesis by (simp add: getLeafByIdentityHash_def cache_Get_def Expired_def)
qed

text \<open>
  The leaf cache answers for the right leaf: after a successful \<open>addLeaf\<close>, a lookup of that tree and identity hash
  gives the added leaf without its timestamps while it is fresh, and a lookup of any other tree or hash gives what it gave
  before, or nothing if the other leaf was evicted.
\<close>

theorem addLeaf_then_getLeafByIdentityHash:
  assumes "cache_inv c" "addLeaf c t leaf now rnd = Inr c'"
  shows "cache_inv c' \<and>
    getLeafByIdentityHash c' t (LeafIdentityHash leaf) t' =
      (if set_expiry c DefaultExpiration now \<noteq> 0 \<and> t' > set_expiry c DefaultExpiration now then None else Some (dupLeaf leaf)) \<and>
    (\<forall>u h. (u, contents h) \<noteq> (t, contents (LeafIdentityHash leaf)) \<longrightarrow>
      getLeafByIdentityHash c' u h t' \<in> {None, getLeafByIdentityHash c u h t'})"
proof (intro conjI allI impI)
  show "cache_inv c'" by (rule cache_inv_Set [OF assms(1) assms(2) [unfolded addLeaf_def]])
  show "getLeafByIdentityHash c' t (LeafIdentityHash leaf) t' =
      (if set_expiry c DefaultExpiration now \<noteq> 0 \<and> t' > set_expiry c DefaultExpiration now then None else Some (dupLeaf leaf))"
    using assms(2) by (rule addLeaf_own) simp
  fix u h assume "(u, contents h) \<noteq> (t, contents (LeafIdentityHash leaf))"
  then have "leaf_key u h \<noteq> leaf_key t (LeafIdentityHash leaf)" by (auto simp: leaf_key_inj)
  then have "items c' (leaf_key u h) \<in> {None, items c (leaf_key u h)}"
    using cache_Set_items(2) [OF assms(2) [unfolded addLeaf_def]] by blast
  then show "getLeafByIdentityHash c' u h t' \<in> {None, getLeafByIdentityHash c u h t'}"
    by (auto simp: getLeafByIdentityHash_def cache_Get_def)
qed

theorem addLeaf_then_getLeafByIdentityHash_witness:
  "\<exists>c'. addLeaf leafCache 3 (sample_leaf [7]) 5 (Inr []) = Inr c' \<and> getLeafByIdentityHash c' 3 None 6 = Some (sample_leaf [7])"
proof -
  have inv: "cache_inv leafCache" unfolding leafCache_def by (rule cache_inv_New) simp
  obtain c' where add: "addLeaf leafCache 3 (sample_leaf [7]) 5 (Inr []) = Inr c'"
    by (simp add: addLeaf_def cache_Set_def leafCache_def cache_New_def newCache_def keyList_insert_def)
  have "set_expiry leafCache DefaultExpiration 5 = 3600000000005"
    by (simp add: set_expiry_def leafCache_def cache_New_def newCache_def in_int64_def)
  then show ?thesis
    using addLeaf_then_getLeafByIdentityHash [OF inv add, of 6] add by (simp add: sample_leaf_def dupLeaf_def)
qed

end
