(* ===== verification/ReadTreeTx.thy ===== *)
theory ReadTreeTx
  imports Local Remote LeafCache
begin

text \<open>
  Read-only tree transactions (\<open>ct/read_tree_tx.go\<close>). A transaction remembers the root and frontier it
  started from; leaves come from the remote database, tree nodes through Trillian's subtree cache, whose
  operations are a parameter, and the subtrees from the local database at the transaction's revision.
\<close>

section \<open>The surroundings\<close>

text \<open>
  What one call meets: the codecs, the failures of the databases, the iteration order of maps, the clock
  and the random bytes.
\<close>

record env =
  e_codec :: codec
  e_io :: ldb_io
  e_http :: http_client
  e_b2 :: object_store
  e_ord :: "(int \<times> LogLeaf list) list \<Rightarrow> (int \<times> LogLeaf list) list"
  e_now :: int
  e_noise :: "nat \<Rightarrow> bytes option"
  e_evict :: "bytes result"

text \<open>What calls share and change: the local database, the leaf cache, the objects uploaded so far.\<close>

record world =
  w_db :: db
  w_cache :: "LogLeaf cache"
  w_uploads :: "(string \<times> bytes) list"

text \<open>
  The interface of \<open>cache.SubtreeCache\<close>: obtaining the hasher it needs, making an empty cache, setting a node hash (with a function that reads a subtree), reading
  nodes (with a function that reads subtrees), and flushing, which gives the dirty subtrees it hands to
  its callback, if it calls it.
\<close>

record 'sc subtree_cache_ops =
  scHasher :: "error option"  \<comment> \<open>\<open>hashers.NewLogHasher\<close>\<close>
  scNew :: 'sc
  scSetNodeHash :: "'sc \<Rightarrow> NodeID \<Rightarrow> gobytes \<Rightarrow> (NodeID \<Rightarrow> SubtreeProto option result) \<Rightarrow> 'sc \<times> unit result"
  scGetNodes :: "'sc \<Rightarrow> NodeID list \<Rightarrow> (NodeID list \<Rightarrow> SubtreeProto list result) \<Rightarrow> 'sc \<times> Node list result"
  scFlush :: "'sc \<Rightarrow> 'sc \<times> SubtreeProto list option result"

section \<open>Transactions\<close>

record 'sc readOnlyLogTreeTX =
  remote :: Remote
  subtreeCache :: 'sc
  treeID :: int
  root :: SignedLogRoot
  front :: Frontier
  closed :: bool

definition LatestSignedLogRoot :: "('sc, 'a) readOnlyLogTreeTX_scheme \<Rightarrow> SignedLogRoot result" where
  "LatestSignedLogRoot rolt = Inr (root rolt)"

definition ReadRevision :: "('sc, 'a) readOnlyLogTreeTX_scheme \<Rightarrow> int result" where
  "ReadRevision rolt = Inr (TreeRevision (root rolt))"

definition GetSequencedLeafCount :: "('sc, 'a) readOnlyLogTreeTX_scheme \<Rightarrow> int result" where
  "GetSequencedLeafCount rolt = Inr (TreeSize (root rolt))"

definition rolt_getSubtrees ::
  "env \<Rightarrow> world \<Rightarrow> ('sc, 'a) readOnlyLogTreeTX_scheme \<Rightarrow> int \<Rightarrow> NodeID list \<Rightarrow> SubtreeProto list result" where
  "rolt_getSubtrees env w rolt treeRevision ids =
    GetSubtrees (e_codec env) (e_io env) (w_db w) (treeID rolt) treeRevision ids"

definition rolt_getSubtree ::
  "env \<Rightarrow> world \<Rightarrow> ('sc, 'a) readOnlyLogTreeTX_scheme \<Rightarrow> int \<Rightarrow> NodeID \<Rightarrow> SubtreeProto option result" where
  "rolt_getSubtree env w rolt treeRevision nodeID =
    (case rolt_getSubtrees env w rolt treeRevision [nodeID] of
       Inl e \<Rightarrow> Inl e
     | Inr s \<Rightarrow> if length s = 0 then Inr None
                else if length s = 1 then Inr (Some (s ! 0))
                else Inl (Errorf ''got %d subtrees, but expected 0 or 1'' [ArgInt (int (length s))]))"

definition GetMerkleNodes ::
  "'sc subtree_cache_ops \<Rightarrow> env \<Rightarrow> world \<Rightarrow> ('sc, 'a) readOnlyLogTreeTX_scheme \<Rightarrow> int \<Rightarrow> NodeID list \<Rightarrow>
   ('sc, 'a) readOnlyLogTreeTX_scheme \<times> Node list result" where
  "GetMerkleNodes sc env w rolt treeRevision ids =
    (let (c, res) = scGetNodes sc (subtreeCache rolt) ids (rolt_getSubtrees env w rolt treeRevision)
     in (rolt\<lparr>subtreeCache := c\<rparr>, res))"

text \<open>\<open>storage.NewNodeIDForTreeCoords(0, index, 64)\<close>: the big-endian bytes of the index.\<close>

definition NewNodeIDForTreeCoords :: "int \<Rightarrow> int \<Rightarrow> nat \<Rightarrow> NodeID result" where
  "NewNodeIDForTreeCoords depth index maxPathBits =
    (if index < 0 \<or> depth < 0 \<or> \<not> (index < 2 ^ nat (int maxPathBits - depth)) \<or> int maxPathBits < depth \<or> maxPathBits mod 8 \<noteq> 0
     then Inl (Errorf ''depth/index combination out of range: depth=%d index=%d maxPathBits=%v''
                [ArgInt depth, ArgInt index, ArgInt (int maxPathBits)])
     else Inr \<lparr>Path = posenc 256 word_of_int (maxPathBits div 8) (take_bit 64 (push_bit (nat depth) index)),
               PrefixLenBits = int maxPathBits - depth\<rparr>)"

fun check_indexes :: "int \<Rightarrow> int list \<Rightarrow> unit result" where
  "check_indexes treeSize [] = Inr ()"
| "check_indexes treeSize (idx # indexes) =
    (if idx < 0 then Inl (Errorf ''%v is a bad leaf index'' [ArgInt idx])
     else if idx \<ge> treeSize then Inl (Errorf ''there is no leaf with index %v yet'' [ArgInt idx])
     else check_indexes treeSize indexes)"

text \<open>
  The comparison loop: one node per leaf, in order. The message names the index at the same position of the
  slice of indexes, as \<open>GetLeaves\<close> left it.
\<close>

fun check_hashes :: "Node list \<Rightarrow> LogLeaf option list \<Rightarrow> int list \<Rightarrow> unit result" where
  "check_hashes (node # nodes) (None # leaves) indexes = Inl (Panic ''nil pointer dereference'')"
| "check_hashes (node # nodes) (Some leaf # leaves) indexes =
    (if \<not> bytes_Equal (Hash node) (MerkleLeafHash leaf)
     then (case indexes of [] \<Rightarrow> Inl (Panic ''index out of range'')
           | idx # _ \<Rightarrow> Inl (Errorf ''leaf at index %v doesn't have the expected merkle hash'' [ArgInt idx]))
     else check_hashes nodes leaves (drop 1 indexes))"
| "check_hashes nodes leaves indexes = Inr ()"

text \<open>
  \<open>GetLeavesByIndex\<close>; the first component of the result is the caller's slice of indexes, which
  \<open>GetLeaves\<close> has sorted in place.
\<close>

definition GetLeavesByIndex ::
  "'sc subtree_cache_ops \<Rightarrow> env \<Rightarrow> world \<Rightarrow> ('sc, 'a) readOnlyLogTreeTX_scheme \<Rightarrow> int list \<Rightarrow>
   int list \<times> ('sc, 'a) readOnlyLogTreeTX_scheme \<times> LogLeaf option list result" where
  "GetLeavesByIndex sc env w rolt indexes =
    (case check_indexes (TreeSize (root rolt)) indexes of Inl e \<Rightarrow> (indexes, rolt, Inl e) | Inr _ \<Rightarrow>
     let (indexes, got) = Remote_GetLeaves (e_codec env) (e_http env) (remote rolt) (treeID rolt) indexes in
     (case got of Inl e \<Rightarrow> (indexes, rolt, Inl e) | Inr leaves \<Rightarrow>
     (case mapM (\<lambda>idx. NewNodeIDForTreeCoords 0 idx 64) indexes of Inl e \<Rightarrow> (indexes, rolt, Inl e) | Inr nodeIds \<Rightarrow>
     (case ReadRevision rolt of Inl e \<Rightarrow> (indexes, rolt, Inl e) | Inr revision \<Rightarrow>
      let (rolt, res) = GetMerkleNodes sc env w rolt revision nodeIds in
      (case res of Inl e \<Rightarrow> (indexes, rolt, Inl e) | Inr nodes \<Rightarrow>
       if length nodes \<noteq> length leaves then (indexes, rolt, Inl (Errorf ''error verifying leaves read from B2'' []))
       else (case check_hashes nodes leaves indexes of Inl e \<Rightarrow> (indexes, rolt, Inl e) | Inr _ \<Rightarrow>
             (indexes, rolt, Inr leaves)))))))"

text \<open>
  The indexes of a range. \<open>make\<close> panics on a capacity that is negative or whose eight-byte elements exceed
  the address space of the runtime (48 bits).
\<close>

function range_indexes :: "int \<Rightarrow> int \<Rightarrow> int \<Rightarrow> int list" where
  "range_indexes stop treeSize idx =
    (if idx < stop \<and> idx < treeSize then idx # range_indexes stop treeSize (idx + 1) else [])"
  by pat_completeness auto
termination by (relation "measure (\<lambda>(stop, treeSize, idx). nat (treeSize - idx))") auto

declare range_indexes.simps [simp del]

definition GetLeavesByRange ::
  "'sc subtree_cache_ops \<Rightarrow> env \<Rightarrow> world \<Rightarrow> ('sc, 'a) readOnlyLogTreeTX_scheme \<Rightarrow> int \<Rightarrow> int \<Rightarrow>
   ('sc, 'a) readOnlyLogTreeTX_scheme \<times> LogLeaf option list result" where
  "GetLeavesByRange sc env w rolt start cnt =
    (if cnt < 0 \<or> 8 * cnt > 2 ^ 48 then (rolt, Inl (Panic ''makeslice: cap out of range''))
     else let (_, rolt, res) =
            GetLeavesByIndex sc env w rolt (range_indexes (wrap64 (start + cnt)) (TreeSize (root rolt)) start)
          in (rolt, res))"

definition in_bounds :: "int \<Rightarrow> int \<Rightarrow> bool" where
  "in_bounds treeSize idx \<longleftrightarrow> \<not> (idx < 0 \<or> idx \<ge> treeSize)"

text \<open>
  The check of \<open>GetLeavesByHash\<close>: the requested hashes with an index in bounds, in the order of the request,
  against the leaves in the order they were read.
\<close>

fun check_requested :: "int \<Rightarrow> bytes list \<Rightarrow> int list \<Rightarrow> LogLeaf option list \<Rightarrow> LogLeaf option list result" where
  "check_requested treeSize (h # hs) (idx # temp) leaves =
    (if \<not> in_bounds treeSize idx then check_requested treeSize hs temp leaves
     else case leaves of
         [] \<Rightarrow> Inl (Panic ''index out of range'')
       | None # _ \<Rightarrow> Inl (Panic ''nil pointer dereference'')
       | Some leaf # leaves' \<Rightarrow>
           if \<not> bytes_Equal (Some h) (MerkleLeafHash leaf)
           then Inl (Errorf ''leaf at index %v doesn't have the expected merkle hash'' [ArgInt idx])
           else check_requested treeSize hs temp leaves')"
| "check_requested treeSize _ _ leaves = Inr leaves"

definition GetLeavesByHash ::
  "env \<Rightarrow> world \<Rightarrow> ('sc, 'a) readOnlyLogTreeTX_scheme \<Rightarrow> bytes list \<Rightarrow> bool \<Rightarrow> LogLeaf option list result" where
  "GetLeavesByHash env w rolt leafHashes orderBySequence =
    (case GetSequenceByMerkleHash (e_io env) (w_db w) (treeID rolt) leafHashes of Inl e \<Rightarrow> Inl e | Inr temp \<Rightarrow>
     let indexes = filter (in_bounds (TreeSize (root rolt))) temp in
     (case snd (Remote_GetLeaves (e_codec env) (e_http env) (remote rolt) (treeID rolt) indexes) of Inl e \<Rightarrow> Inl e | Inr leaves \<Rightarrow>
     (case check_requested (TreeSize (root rolt)) leafHashes temp leaves of Inl e \<Rightarrow> Inl e | Inr rest \<Rightarrow>
      if rest \<noteq> [] then Inl (Errorf ''error verifying leaves read from B2'' []) else Inr leaves)))"

definition rolt_Close :: "('sc, 'a) readOnlyLogTreeTX_scheme \<Rightarrow> ('sc, 'a) readOnlyLogTreeTX_scheme \<times> unit result" where
  "rolt_Close rolt = (rolt\<lparr>closed := True\<rparr>, Inr ())"

definition rolt_Commit :: "('sc, 'a) readOnlyLogTreeTX_scheme \<Rightarrow> ('sc, 'a) readOnlyLogTreeTX_scheme \<times> unit result" where
  "rolt_Commit rolt = rolt_Close rolt"

definition rolt_Rollback :: "('sc, 'a) readOnlyLogTreeTX_scheme \<Rightarrow> ('sc, 'a) readOnlyLogTreeTX_scheme \<times> unit result" where
  "rolt_Rollback rolt = rolt_Close rolt"

definition rolt_IsOpen :: "('sc, 'a) readOnlyLogTreeTX_scheme \<Rightarrow> bool" where
  "rolt_IsOpen rolt \<longleftrightarrow> \<not> closed rolt"

end
