(* ===== verification/Fsm.thy ===== *)
theory Fsm
  imports Prelude
begin

text \<open>
  \<open>ct/fsm.go\<close>: the state machine a \<open>logTreeTX\<close> consults before every operation. The theory characterises
  \<open>emit\<close> and proves which sequences of operations a transaction can ever accept.
\<close>

section \<open>The machine\<close>

text \<open>
  The values of the Go type are the nine constants below; the \<open>default\<close> branch of \<open>String\<close> (any other
  integer) has no counterpart because no code produces one.
\<close>

datatype fsmState =
    sBegin
  | sQueueLeaves
  | sDequeueLeaves
  | sUpdateSequencedLeaves
  | sSetMerkleNodes
  | sStoreSignedLogRoot
  | sCommit
  | sRollback
  | sClose

fun fsmState_String :: "fsmState \<Rightarrow> string" where
  "fsmState_String sBegin = ''BeginForTree''"
| "fsmState_String sQueueLeaves = ''QueueLeaves''"
| "fsmState_String sDequeueLeaves = ''DequeueLeaves''"
| "fsmState_String sUpdateSequencedLeaves = ''UpdateSequencedLeaves''"
| "fsmState_String sSetMerkleNodes = ''SetMerkleNodes''"
| "fsmState_String sStoreSignedLogRoot = ''StoreSignedLogRoot''"
| "fsmState_String sCommit = ''Commit''"
| "fsmState_String sRollback = ''Rollback''"
| "fsmState_String sClose = ''Close''"

text \<open>A key that is missing from the Go map reads as the nil slice.\<close>

fun fsmTransitions :: "fsmState \<Rightarrow> fsmState list" where
  "fsmTransitions sBegin = [sQueueLeaves, sDequeueLeaves, sStoreSignedLogRoot]"
| "fsmTransitions sQueueLeaves = [sCommit]"
| "fsmTransitions sDequeueLeaves = [sUpdateSequencedLeaves, sCommit]"
| "fsmTransitions sUpdateSequencedLeaves = [sSetMerkleNodes]"
| "fsmTransitions sSetMerkleNodes = [sStoreSignedLogRoot]"
| "fsmTransitions sStoreSignedLogRoot = [sCommit]"
| "fsmTransitions sCommit = [sClose]"
| "fsmTransitions sRollback = [sClose]"
| "fsmTransitions sClose = []"

record fsm =
  state :: fsmState

definition illegal_transition :: "fsmState \<Rightarrow> fsmState \<Rightarrow> error" where
  "illegal_transition s e =
    Errorf ''illegal transition blocked: %v -> %v'' [ArgStr (fsmState_String s), ArgStr (fsmState_String e)]"

fun emit_scan :: "('a fsm_scheme) \<Rightarrow> fsmState \<Rightarrow> fsmState list \<Rightarrow> 'a fsm_scheme \<times> error option" where
  "emit_scan m st [] = (m, Some (illegal_transition (state m) st))"
| "emit_scan m st (cand # cands) =
     (if st = cand then (m\<lparr>state := st\<rparr>, None) else emit_scan m st cands)"

definition emit :: "'a fsm_scheme \<Rightarrow> fsmState \<Rightarrow> 'a fsm_scheme \<times> error option" where
  "emit m st =
    (if st = sRollback \<or> st = sClose then (m\<lparr>state := st\<rparr>, None)
     else emit_scan m st (fsmTransitions (state m)))"

section \<open>What a single emission does\<close>

definition allowed :: "fsmState \<Rightarrow> fsmState \<Rightarrow> bool" where
  "allowed s e \<longleftrightarrow> e \<in> {sRollback, sClose} \<or> e \<in> set (fsmTransitions s)"

lemma emit_scan_eq:
  "emit_scan m st cands =
    (if st \<in> set cands then (m\<lparr>state := st\<rparr>, None) else (m, Some (illegal_transition (state m) st)))"
  by (induction cands) auto

lemma emit_eq:
  "emit m e =
    (if allowed (state m) e then (m\<lparr>state := e\<rparr>, None) else (m, Some (illegal_transition (state m) e)))"
  by (simp add: emit_def allowed_def emit_scan_eq)

lemma emit_cases:
  obtains (ok) "allowed (state m) e" "emit m e = (m\<lparr>state := e\<rparr>, None)"
  | (blocked) "\<not> allowed (state m) e" "emit m e = (m, Some (illegal_transition (state m) e))"
  by (cases "allowed (state m) e") (auto simp: emit_eq)

section \<open>Accepted sequences of operations\<close>

text \<open>\<open>fsm_run s es t\<close>: starting in \<open>s\<close>, the operations \<open>es\<close> are all accepted and lead to \<open>t\<close>.\<close>

inductive fsm_run :: "fsm \<Rightarrow> fsmState list \<Rightarrow> fsm \<Rightarrow> bool" where
  fsm_run_Nil: "fsm_run m [] m"
| fsm_run_Cons: "emit m e = (m', None) \<Longrightarrow> fsm_run m' es m'' \<Longrightarrow> fsm_run m (e # es) m''"

code_pred fsm_run .

inductive_simps fsm_run_NilE [simp]: "fsm_run m [] m'"
inductive_simps fsm_run_ConsE: "fsm_run m (e # es) m'"

lemma fsm_run_Cons_iff:
  "fsm_run m (e # es) m'' \<longleftrightarrow> allowed (state m) e \<and> fsm_run \<lparr>state = e\<rparr> es m''"
  by (cases m) (auto simp: fsm_run_ConsE emit_eq split: if_splits)

lemma fsm_run_append:
  "fsm_run m (es @ fs) m'' \<longleftrightarrow> (\<exists>m'. fsm_run m es m' \<and> fsm_run m' fs m'')"
  by (induction es arbitrary: m) (auto simp: fsm_run_Cons_iff)

text \<open>The operations after which a transaction is over.\<close>

definition finishing :: "fsmState set" where
  "finishing = {sCommit, sRollback, sClose}"

text \<open>What follows each state until the transaction is over.\<close>

lemma allowed_iff:
  "allowed s e \<longleftrightarrow> e = sRollback \<or> e = sClose \<or>
    (case s of
       sBegin \<Rightarrow> e \<in> {sQueueLeaves, sDequeueLeaves, sStoreSignedLogRoot}
     | sQueueLeaves \<Rightarrow> e = sCommit
     | sDequeueLeaves \<Rightarrow> e \<in> {sUpdateSequencedLeaves, sCommit}
     | sUpdateSequencedLeaves \<Rightarrow> e = sSetMerkleNodes
     | sSetMerkleNodes \<Rightarrow> e = sStoreSignedLogRoot
     | sStoreSignedLogRoot \<Rightarrow> e = sCommit
     | _ \<Rightarrow> False)"
  by (cases s) (auto simp: allowed_def)

lemma allowed_finishing: "s \<in> finishing \<Longrightarrow> allowed s e \<Longrightarrow> e \<in> {sRollback, sClose}"
  by (auto simp: finishing_def allowed_iff)

lemma fsm_run_after_finish:
  "fsm_run m es m' \<Longrightarrow> state m \<in> finishing \<Longrightarrow> set es \<subseteq> {sRollback, sClose}"
proof (induction rule: fsm_run.induct)
  case (fsm_run_Nil m)
  then show ?case by simp
next
  case (fsm_run_Cons m e m' es m'')
  from fsm_run_Cons.hyps(1) have e: "allowed (state m) e" "state m' = e"
    by (auto simp: emit_eq split: if_splits)
  with fsm_run_Cons.prems have "e \<in> {sRollback, sClose}" by (auto dest: allowed_finishing)
  with e fsm_run_Cons.IH show ?case by (auto simp: finishing_def)
qed

text \<open>The continuations of a state that end in a commit and contain no other end of the transaction.\<close>

definition commits :: "fsmState \<Rightarrow> fsmState list \<Rightarrow> bool" where
  "commits s es \<longleftrightarrow> (\<exists>m. fsm_run \<lparr>state = s\<rparr> (es @ [sCommit]) m) \<and> set es \<inter> finishing = {}"

lemma commits_Nil: "commits s [] \<longleftrightarrow> allowed s sCommit"
  by (simp add: commits_def fsm_run_Cons_iff)

lemma commits_Cons: "commits s (e # es) \<longleftrightarrow> allowed s e \<and> e \<notin> finishing \<and> commits e es"
  by (auto simp: commits_def fsm_run_Cons_iff)

lemmas commits_simps = commits_Nil commits_Cons allowed_iff finishing_def

lemma commits_iff:
  "commits sStoreSignedLogRoot es \<longleftrightarrow> es = []"
  "commits sSetMerkleNodes es \<longleftrightarrow> es = [sStoreSignedLogRoot]"
  "commits sUpdateSequencedLeaves es \<longleftrightarrow> es = [sSetMerkleNodes, sStoreSignedLogRoot]"
  "commits sQueueLeaves es \<longleftrightarrow> es = []"
  "commits sDequeueLeaves es \<longleftrightarrow>
     es \<in> {[], [sUpdateSequencedLeaves, sSetMerkleNodes, sStoreSignedLogRoot]}"
  "commits sBegin es \<longleftrightarrow> es \<in> {[sQueueLeaves], [sDequeueLeaves], [sStoreSignedLogRoot],
     [sDequeueLeaves, sUpdateSequencedLeaves, sSetMerkleNodes, sStoreSignedLogRoot]}"
proof -
  show store: "commits sStoreSignedLogRoot es \<longleftrightarrow> es = []" for es
    by (cases es) (auto simp: commits_simps)
  show nodes: "commits sSetMerkleNodes es \<longleftrightarrow> es = [sStoreSignedLogRoot]" for es
    by (cases es) (auto simp: commits_simps store)
  show upd: "commits sUpdateSequencedLeaves es \<longleftrightarrow> es = [sSetMerkleNodes, sStoreSignedLogRoot]" for es
    by (cases es) (auto simp: commits_simps nodes)
  show queue: "commits sQueueLeaves es \<longleftrightarrow> es = []" for es
    by (cases es) (auto simp: commits_simps)
  show deq: "commits sDequeueLeaves es \<longleftrightarrow>
     es \<in> {[], [sUpdateSequencedLeaves, sSetMerkleNodes, sStoreSignedLogRoot]}" for es
    by (cases es) (auto simp: commits_simps upd)
  show "commits sBegin es \<longleftrightarrow> es \<in> {[sQueueLeaves], [sDequeueLeaves], [sStoreSignedLogRoot],
     [sDequeueLeaves, sUpdateSequencedLeaves, sSetMerkleNodes, sStoreSignedLogRoot]}"
    by (cases es) (auto simp: commits_simps store queue deq)
qed

section \<open>Properties\<close>

text \<open>
  C23. A transaction that commits without rolling back or closing first is one of exactly four
  sequences: queueing leaves, an empty sequencing run, a full sequencing run (dequeue, index, set
  nodes, store the root), or storing a first root. In particular a queueing transaction never touches
  the tree, and after leaves were indexed nothing commits without nodes and a root.
\<close>

theorem committed_transactions:
  "(\<exists>m. fsm_run \<lparr>state = sBegin\<rparr> (es @ [sCommit]) m) \<and> set es \<inter> finishing = {} \<longleftrightarrow>
   es \<in> {[sQueueLeaves], [sDequeueLeaves], [sStoreSignedLogRoot],
     [sDequeueLeaves, sUpdateSequencedLeaves, sSetMerkleNodes, sStoreSignedLogRoot]}"
  using commits_iff(6) [of es] by (simp add: commits_def)

text \<open>
  Once a transaction has committed, rolled back or closed, every later operation except Rollback
  and Close is refused, forever.
\<close>

theorem finished_transactions_stay_finished:
  assumes "fsm_run m (es @ [e] @ fs) m'" "e \<in> {sCommit, sRollback, sClose}"
  shows "set fs \<subseteq> {sRollback, sClose}"
proof -
  have "fsm_run \<lparr>state = e\<rparr> fs m'"
    using assms(1) by (auto simp: fsm_run_append fsm_run_Cons_iff)
  then show ?thesis
    using fsm_run_after_finish assms(2) by (force simp: finishing_def)
qed

theorem finished_transactions_stay_finished_witness:
  "fsm_run \<lparr>state = sBegin\<rparr> ([sQueueLeaves] @ [sCommit] @ [sClose]) \<lparr>state = sClose\<rparr>
   \<and> set [sClose] \<subseteq> {sRollback, sClose}"
proof -
  have "fsm_run \<lparr>state = sBegin\<rparr> ([sQueueLeaves] @ [sCommit] @ [sClose]) \<lparr>state = sClose\<rparr>"
    by (simp add: fsm_run_Cons_iff allowed_iff)
  then show ?thesis
    using finished_transactions_stay_finished [of _ "[sQueueLeaves]" sCommit "[sClose]"] by blast
qed

end
