(* ===== verification/TreeTx.thy ===== *)
theory TreeTx
  imports ReadTreeTx Fsm
begin

text \<open>
  Read-write tree transactions (\<open>ct/tree_tx.go\<close>): queueing leaves with duplicate suppression, and the sequencing
  operations, each guarded by the state machine. A transaction collects its writes to the local
  database in a batch; uploads to the remote database happen at once.
\<close>

section \<open>State\<close>

record 'sc logTreeTX = "'sc readOnlyLogTreeTX" +
  lt_fsm :: fsm
  localTx :: LocalTx
  queuedLeaves :: bool

definition WriteRevision :: "('sc, 'a) readOnlyLogTreeTX_scheme \<Rightarrow> int result" where
  "WriteRevision lt = Inr (wrap64 (TreeRevision (root lt) + 1))"

section \<open>Queueing\<close>

definition lt_getSequenceByIdentityHash :: "env \<Rightarrow> world \<Rightarrow> int \<Rightarrow> gobytes \<Rightarrow> int result" where
  "lt_getSequenceByIdentityHash env w tid h =
    (case GetSequenceByIdentityHash (e_io env) (w_db w) tid [contents h] of
       Inl e \<Rightarrow> Inl e
     | Inr seqs \<Rightarrow> Inr (seqs ! 0))"

text \<open>
  \<open>queueLeaf\<close>: a leaf in the cache or already in the log is returned as a duplicate; a new one is written to
  the queue and to the cache.
\<close>

definition queueLeaf ::
  "env \<Rightarrow> world \<Rightarrow> ('sc, 'a) readOnlyLogTreeTX_scheme \<Rightarrow> LogLeaf \<Rightarrow> int \<Rightarrow> world \<times> LogLeaf option result" where
  "queueLeaf env w lt leaf queueTimestamp =
    (case getLeafByIdentityHash (w_cache w) (treeID lt) (LeafIdentityHash leaf) (e_now env) of
       Some cachedLeaf \<Rightarrow> (w, Inr (Some cachedLeaf))
     | None \<Rightarrow>
    (case lt_getSequenceByIdentityHash env w (treeID lt) (LeafIdentityHash leaf) of Inl e \<Rightarrow> (w, Inl e) | Inr seq \<Rightarrow>
     if seq > 0 \<and> seq < TreeSize (root lt)
     then (case snd (Remote_GetLeaves (e_codec env) (e_http env) (remote lt) (treeID lt) [seq]) of
             Inl e \<Rightarrow> (w, Inl e)
           | Inr dup \<Rightarrow> (w, Inr (dup ! 0)))
     else let (d, res) = Local_QueueLeaves (e_codec env) (e_io env) (e_noise env) (w_db w) (treeID lt) queueTimestamp [leaf];
              w = w\<lparr>w_db := d\<rparr>
          in case res of Inl e \<Rightarrow> (w, Inl e) | Inr _ \<Rightarrow>
             (case addLeaf (w_cache w) (treeID lt) leaf (e_now env) (e_evict env) of
                Inl p \<Rightarrow> (w, Inl p)
              | Inr c \<Rightarrow> (w\<lparr>w_cache := c\<rparr>, Inr None))))"

text \<open>The loop of \<open>QueueLeaves\<close>; turn \<open>i\<close> meets the surroundings \<open>envs i\<close>.\<close>

fun lt_QueueLeaves_loop ::
  "(nat \<Rightarrow> env) \<Rightarrow> world \<Rightarrow> ('sc, 'a) readOnlyLogTreeTX_scheme \<Rightarrow> LogLeaf list \<Rightarrow> int \<Rightarrow> LogLeaf option list \<Rightarrow>
   world \<times> LogLeaf option list result" where
  "lt_QueueLeaves_loop envs w lt [] ts out = (w, Inr out)"
| "lt_QueueLeaves_loop envs w lt (leaf # leaves) ts out =
    (case queueLeaf (envs (length out)) w lt leaf ts of
       (w, Inl e) \<Rightarrow> (w, Inl e)
     | (w, Inr l) \<Rightarrow> lt_QueueLeaves_loop envs w lt leaves ts (out @ [l]))"

definition lt_emit :: "'sc logTreeTX \<Rightarrow> fsmState \<Rightarrow> 'sc logTreeTX \<times> error option" where
  "lt_emit lt st = (let (m, err) = emit (lt_fsm lt) st in (lt\<lparr>lt_fsm := m\<rparr>, err))"

definition lt_QueueLeaves ::
  "(nat \<Rightarrow> env) \<Rightarrow> world \<Rightarrow> 'sc logTreeTX \<Rightarrow> LogLeaf list \<Rightarrow> int \<Rightarrow> world \<times> 'sc logTreeTX \<times> LogLeaf option list result" where
  "lt_QueueLeaves envs w lt leaves queueTimestamp =
    (case lt_emit lt sQueueLeaves of
       (lt, Some e) \<Rightarrow> (w, lt, Inl e)
     | (lt, None) \<Rightarrow>
         let lt = lt\<lparr>queuedLeaves := True\<rparr>;
             (w, res) = lt_QueueLeaves_loop envs w lt leaves queueTimestamp []
         in (w, lt, res))"

section \<open>Sequencing\<close>

definition lt_DequeueLeaves ::
  "env \<Rightarrow> world \<Rightarrow> 'sc logTreeTX \<Rightarrow> int \<Rightarrow> int \<Rightarrow> world \<times> 'sc logTreeTX \<times> LogLeaf list result" where
  "lt_DequeueLeaves env w lt limit cutoffTime =
    (case lt_emit lt sDequeueLeaves of
       (lt, Some e) \<Rightarrow> (w, lt, Inl e)
     | (lt, None) \<Rightarrow>
         let (ltx, res) = LocalTx_DequeueLeaves (e_codec env) (e_io env) (w_db w) (localTx lt) (treeID lt)
                            (TreeSize (root lt)) cutoffTime limit
         in (w, lt\<lparr>localTx := ltx\<rparr>, res))"

definition lt_AddSequencedLeaves :: "'sc logTreeTX \<Rightarrow> LogLeaf list \<Rightarrow> int \<Rightarrow> unit result" where
  "lt_AddSequencedLeaves lt leaves ts = Inl (Errorf ''adding sequenced leaves is not implemented'' [])"

definition UpdateSequencedLeaves ::
  "env \<Rightarrow> world \<Rightarrow> 'sc logTreeTX \<Rightarrow> LogLeaf list \<Rightarrow> world \<times> 'sc logTreeTX \<times> unit result" where
  "UpdateSequencedLeaves env w lt leaves =
    (case lt_emit lt sUpdateSequencedLeaves of
       (lt, Some e) \<Rightarrow> (w, lt, Inl e)
     | (lt, None) \<Rightarrow>
         let (uploads, res) = Remote_PutLeaves (e_codec env) (e_http env) (e_b2 env) (e_ord env) (remote lt) (treeID lt) leaves;
             w = w\<lparr>w_uploads := w_uploads w @ uploads\<rparr>
         in case res of Inl e \<Rightarrow> (w, lt, Inl e) | Inr _ \<Rightarrow>
            let lt = lt\<lparr>front := foldl (\<lambda>f leaf. Append f (MerkleLeafHash leaf)) (front lt) leaves\<rparr>;
                (ltx, res) = LocalTx_PutLeaves (localTx lt) (treeID lt) (map LeafIndex leaves)
                               (map (contents \<circ> MerkleLeafHash) leaves) (map (contents \<circ> LeafIdentityHash) leaves)
            in (w, lt\<lparr>localTx := ltx\<rparr>, res))"

fun SetMerkleNodes_loop ::
  "'sc subtree_cache_ops \<Rightarrow> (NodeID \<Rightarrow> SubtreeProto option result) \<Rightarrow> Node list \<Rightarrow> 'sc \<Rightarrow> 'sc \<times> unit result" where
  "SetMerkleNodes_loop sc get [] c = (c, Inr ())"
| "SetMerkleNodes_loop sc get (n # nodes) c =
    (case scSetNodeHash sc c (Node_NodeID n) (Hash n) get of
       (c, Inl e) \<Rightarrow> (c, Inl e)
     | (c, Inr _) \<Rightarrow> SetMerkleNodes_loop sc get nodes c)"

definition SetMerkleNodes ::
  "'sc subtree_cache_ops \<Rightarrow> env \<Rightarrow> world \<Rightarrow> 'sc logTreeTX \<Rightarrow> Node list \<Rightarrow> world \<times> 'sc logTreeTX \<times> unit result" where
  "SetMerkleNodes sc env w lt nodes =
    (case lt_emit lt sSetMerkleNodes of
       (lt, Some e) \<Rightarrow> (w, lt, Inl e)
     | (lt, None) \<Rightarrow>
         let get = (\<lambda>nID. case WriteRevision lt of Inl e \<Rightarrow> Inl e | Inr revision \<Rightarrow> rolt_getSubtree env w lt revision nID);
             (c, res) = SetMerkleNodes_loop sc get nodes (subtreeCache lt)
         in (w, lt\<lparr>subtreeCache := c\<rparr>, res))"

definition StoreSignedLogRoot ::
  "env \<Rightarrow> world \<Rightarrow> 'sc logTreeTX \<Rightarrow> SignedLogRoot \<Rightarrow> world \<times> 'sc logTreeTX \<times> unit result" where
  "StoreSignedLogRoot env w lt sth =
    (case lt_emit lt sStoreSignedLogRoot of
       (lt, Some e) \<Rightarrow> (w, lt, Inl e)
     | (lt, None) \<Rightarrow>
         if \<not> bytes_Equal (RootHash sth) (Head (front lt))
         then (w, lt, Inl (Errorf ''root hash does not match what is expected'' []))
         else let (ltx, res) = LocalTx_StoreRoot (e_codec env) (localTx lt) (treeID lt) sth (front lt)
              in (w, lt\<lparr>localTx := ltx\<rparr>, res))"

fun subtree_ids :: "SubtreeProto list \<Rightarrow> NodeID list result" where
  "subtree_ids [] = Inr []"
| "subtree_ids (s # ss) =
    (if length (contents (Prefix s)) > 8
     then Inl (Errorf ''subtree prefix is too long: %v'' [ArgInt (int (length (contents (Prefix s))))])
     else case subtree_ids ss of
         Inl e \<Rightarrow> Inl e
       | Inr ids \<Rightarrow> Inr (\<lparr>Path = contents (Prefix s), PrefixLenBits = 8 * int (length (contents (Prefix s)))\<rparr> # ids))"

definition storeSubtrees :: "env \<Rightarrow> 'sc logTreeTX \<Rightarrow> SubtreeProto list \<Rightarrow> 'sc logTreeTX \<times> unit result" where
  "storeSubtrees env lt subtrees =
    (case subtree_ids subtrees of Inl e \<Rightarrow> (lt, Inl e) | Inr ids \<Rightarrow>
     (case WriteRevision lt of Inl e \<Rightarrow> (lt, Inl e) | Inr revision \<Rightarrow>
      let (ltx, res) = LocalTx_PutSubtrees (e_codec env) (localTx lt) (treeID lt) revision ids subtrees
      in (lt\<lparr>localTx := ltx\<rparr>, res)))"

text \<open>\<open>lt.subtreeCache.Flush(lt.storeSubtrees)\<close>.\<close>

definition lt_Flush :: "'sc subtree_cache_ops \<Rightarrow> env \<Rightarrow> 'sc logTreeTX \<Rightarrow> 'sc logTreeTX \<times> unit result" where
  "lt_Flush sc env lt =
    (case scFlush sc (subtreeCache lt) of
       (c, Inl e) \<Rightarrow> (lt\<lparr>subtreeCache := c\<rparr>, Inl e)
     | (c, Inr None) \<Rightarrow> (lt\<lparr>subtreeCache := c\<rparr>, Inr ())
     | (c, Inr (Some subtrees)) \<Rightarrow> storeSubtrees env (lt\<lparr>subtreeCache := c\<rparr>) subtrees)"

definition lt_Commit :: "'sc subtree_cache_ops \<Rightarrow> env \<Rightarrow> world \<Rightarrow> 'sc logTreeTX \<Rightarrow> world \<times> 'sc logTreeTX \<times> unit result" where
  "lt_Commit sc env w lt =
    (case lt_emit lt sCommit of
       (lt, Some e) \<Rightarrow> (w, lt, Inl e)
     | (lt, None) \<Rightarrow>
         if queuedLeaves lt then (w, lt\<lparr>closed := True\<rparr>, Inr ())
         else (case lt_Flush sc env lt of
                 (lt, Inl e) \<Rightarrow> (w, lt, Inl e)
               | (lt, Inr _) \<Rightarrow>
                   (case LocalTx_Commit (e_io env) (w_db w) (localTx lt) of
                      (d, ltx, Inl e) \<Rightarrow> (w\<lparr>w_db := d\<rparr>, lt\<lparr>localTx := ltx\<rparr>, Inl e)
                    | (d, ltx, Inr _) \<Rightarrow> (w\<lparr>w_db := d\<rparr>, lt\<lparr>localTx := ltx, closed := True\<rparr>, Inr ()))))"

definition lt_Rollback :: "'sc logTreeTX \<Rightarrow> 'sc logTreeTX \<times> unit result" where
  "lt_Rollback lt =
    (case lt_emit lt sRollback of (lt, Some e) \<Rightarrow> (lt, Inl e) | (lt, None) \<Rightarrow> (lt\<lparr>closed := True\<rparr>, Inr ()))"

definition lt_Close :: "'sc logTreeTX \<Rightarrow> 'sc logTreeTX \<times> unit result" where
  "lt_Close lt =
    (case lt_emit lt sClose of (lt, Some e) \<Rightarrow> (lt, Inl e) | (lt, None) \<Rightarrow> (lt\<lparr>closed := True\<rparr>, Inr ()))"

definition lt_IsOpen :: "'sc logTreeTX \<Rightarrow> bool" where
  "lt_IsOpen lt \<longleftrightarrow> \<not> closed lt"

end
