(* ===== verification/LogStorage.thy ===== *)
theory LogStorage
  imports TreeTx
begin

text \<open>
  The log storage (\<open>ct/log_storage.go\<close>): starting transactions from the most recent root, running a callback in a
  transaction, and the queueing entry point that bypasses transactions.
\<close>

section \<open>Operations\<close>

definition SnapshotForTree ::
  "'sc subtree_cache_ops \<Rightarrow> env \<Rightarrow> world \<Rightarrow> Remote \<Rightarrow> int \<Rightarrow> 'sc readOnlyLogTreeTX result" where
  "SnapshotForTree sc env w r tid =
    (case scHasher sc of Some e \<Rightarrow> Inl e | None \<Rightarrow>
     (case MostRecentRoot (e_codec env) (e_io env) (w_db w) tid of Inl e \<Rightarrow> Inl e | Inr (sth, f) \<Rightarrow>
      Inr \<lparr>remote = r, subtreeCache = scNew sc, treeID = tid, root = sth, front = f, closed = False\<rparr>))"

text \<open>A tree without a root starts from the zero root and the zero frontier.\<close>

definition beginForTree ::
  "'sc subtree_cache_ops \<Rightarrow> env \<Rightarrow> world \<Rightarrow> Remote \<Rightarrow> int \<Rightarrow> 'sc logTreeTX result" where
  "beginForTree sc env w r tid =
    (case scHasher sc of Some e \<Rightarrow> Inl e | None \<Rightarrow>
     let got = MostRecentRoot (e_codec env) (e_io env) (w_db w) tid;
         (sth, f) = (case got of Inl _ \<Rightarrow> (zero_SignedLogRoot, empty_frontier) | Inr sf \<Rightarrow> sf);
         lt = \<lparr>remote = r, subtreeCache = scNew sc, treeID = tid, root = sth, front = f, closed = False,
               lt_fsm = \<lparr>state = sBegin\<rparr>, localTx = Local_Begin, queuedLeaves = False\<rparr>
     in (case got of Inl e \<Rightarrow> if e \<noteq> ErrTreeNeedsInit then Inl e else Inr lt | Inr _ \<Rightarrow> Inr lt))"

text \<open>
  \<open>ReadWriteTransaction\<close>: the callback \<open>f\<close> works on the world and the transaction. A panic in it is not caught, so
  there is no rollback then; a failed rollback is ignored.
\<close>

definition ReadWriteTransaction ::
  "'sc subtree_cache_ops \<Rightarrow> env \<Rightarrow> env \<Rightarrow> world \<Rightarrow> Remote \<Rightarrow> int \<Rightarrow>
   (world \<Rightarrow> 'sc logTreeTX \<Rightarrow> world \<times> 'sc logTreeTX \<times> unit result) \<Rightarrow> world \<times> 'sc logTreeTX option \<times> unit result" where
  "ReadWriteTransaction sc env env' w r tid f =
    (case beginForTree sc env w r tid of Inl e \<Rightarrow> (w, None, Inl e) | Inr ltx \<Rightarrow>
     (case f w ltx of
        (w, ltx, Inl (Panic p)) \<Rightarrow> (w, Some ltx, Inl (Panic p))
      | (w, ltx, Inl e) \<Rightarrow> (w, Some (fst (lt_Rollback ltx)), Inl e)
      | (w, ltx, Inr _) \<Rightarrow> (let (w, ltx, res) = lt_Commit sc env' w ltx in (w, Some ltx, res))))"

record QueuedLogLeaf =
  Leaf :: LogLeaf
  QStatus :: "gobytes option"  \<comment> \<open>\<open>AlreadyExists\<close>, with the identity hash in its message\<close>

fun LogStorage_QueueLeaves_loop ::
  "(nat \<Rightarrow> env) \<Rightarrow> world \<Rightarrow> 'sc readOnlyLogTreeTX \<Rightarrow> LogLeaf list \<Rightarrow> int \<Rightarrow> QueuedLogLeaf list \<Rightarrow>
   world \<times> QueuedLogLeaf list result" where
  "LogStorage_QueueLeaves_loop envs w lt [] ts out = (w, Inr out)"
| "LogStorage_QueueLeaves_loop envs w lt (leaf # leaves) ts out =
    (case queueLeaf (envs (length out)) w lt leaf ts of
       (w, Inl e) \<Rightarrow> (w, Inl e)
     | (w, Inr None) \<Rightarrow> LogStorage_QueueLeaves_loop envs w lt leaves ts (out @ [\<lparr>Leaf = leaf, QStatus = None\<rparr>])
     | (w, Inr (Some dup)) \<Rightarrow>
         LogStorage_QueueLeaves_loop envs w lt leaves ts (out @ [\<lparr>Leaf = dup, QStatus = Some (LeafIdentityHash dup)\<rparr>]))"

text \<open>\<open>QueueLeaves\<close> makes a transaction with only the fields that \<open>queueLeaf\<close> reads; the others are zero values.\<close>

definition LogStorage_QueueLeaves ::
  "'sc \<Rightarrow> env \<Rightarrow> (nat \<Rightarrow> env) \<Rightarrow> world \<Rightarrow> Remote \<Rightarrow> int \<Rightarrow> LogLeaf list \<Rightarrow> int \<Rightarrow> world \<times> QueuedLogLeaf list result" where
  "LogStorage_QueueLeaves zero env envs w r tid leaves ts =
    (case MostRecentRoot (e_codec env) (e_io env) (w_db w) tid of Inl e \<Rightarrow> (w, Inl e) | Inr (sth, _) \<Rightarrow>
     LogStorage_QueueLeaves_loop envs w
       \<lparr>remote = r, subtreeCache = zero, treeID = tid, root = sth, front = empty_frontier, closed = False\<rparr> leaves ts [])"

definition LogStorage_AddSequencedLeaves :: "int \<Rightarrow> LogLeaf list \<Rightarrow> int \<Rightarrow> QueuedLogLeaf list result" where
  "LogStorage_AddSequencedLeaves tid leaves ts = Inl (Errorf ''adding sequenced leaves is not implemented'' [])"

definition CheckDatabaseAccessible :: "unit result" where
  "CheckDatabaseAccessible = Inr ()"

end
