(* ===== verification/PublishedRoots.thy ===== *)
theory PublishedRoots
  imports LogStorage
begin

text \<open>
  What the storage guarantees about roots: whatever transactions run, interleave and fail, a root that can be read
  back is the Merkle tree hash of the hashes its frontier stands for, and a complete sequencing transaction
  extends the log by exactly its leaves.
\<close>

section \<open>Root rows\<close>

text \<open>A stored log root agrees with a sequence of leaf hashes.\<close>

definition root_of :: "codec \<Rightarrow> bytes \<Rightarrow> bytes list \<Rightarrow> bool" where
  "root_of cd rootRaw hs \<longleftrightarrow> (\<forall>v1. unmarshalLogRoot cd rootRaw = Inr v1 \<longrightarrow> contents (V1_RootHash v1) = mth hs)"

text \<open>A pair of root row and frontier row is good when both stand for the same leaf hashes.\<close>

definition rows_agree :: "codec \<Rightarrow> bytes \<Rightarrow> bytes \<Rightarrow> bool" where
  "rows_agree cd rootRaw frontRaw \<longleftrightarrow> (\<exists>f hs. gobEncode cd f = Inr frontRaw \<and> frontier_rep f hs \<and> root_of cd rootRaw hs)"

definition batch_roots_ok :: "codec \<Rightarrow> batch_op list \<Rightarrow> bool" where
  "batch_roots_ok cd ops \<longleftrightarrow>
    (\<forall>t. valid_tree t \<longrightarrow>
      (batch_effect ops (keyS typ_r t ''root'') = None \<and> batch_effect ops (keyS typ_r t ''frontier'') = None) \<or>
      (\<exists>rootRaw frontRaw. batch_effect ops (keyS typ_r t ''root'') = Some (Some rootRaw) \<and>
         batch_effect ops (keyS typ_r t ''frontier'') = Some (Some frontRaw) \<and> rows_agree cd rootRaw frontRaw))"

definition db_roots_ok :: "codec \<Rightarrow> db \<Rightarrow> bool" where
  "db_roots_ok cd d \<longleftrightarrow> db_wf d \<and>
    (\<forall>t rootRaw frontRaw. valid_tree t \<and> db_get d (keyS typ_r t ''root'') = Some rootRaw \<and>
       db_get d (keyS typ_r t ''frontier'') = Some frontRaw \<longrightarrow> rows_agree cd rootRaw frontRaw)"

definition not_root_row :: "batch_op \<Rightarrow> bool" where
  "not_root_row op \<longleftrightarrow> (\<forall>t s. batch_key op \<noteq> keyS typ_r t s)"

lemma not_root_effect: "list_all not_root_row ops \<Longrightarrow> batch_effect ops (keyS typ_r t s) = None"
  unfolding batch_effect_None_iff list_all_iff not_root_row_def by (metis imageE)

lemma batch_roots_ok_append: "batch_roots_ok cd ops \<Longrightarrow> list_all not_root_row ops' \<Longrightarrow> batch_roots_ok cd (ops @ ops')"
  unfolding batch_roots_ok_def by (simp add: batch_effect_append not_root_effect)

lemma batch_roots_ok_Nil: "batch_roots_ok cd []"
  by (simp add: batch_roots_ok_def)

lemma not_root_row_keyB: "ty < 0x80 \<Longrightarrow> ty \<noteq> typ_r \<Longrightarrow> not_root_row (BatchPut (keyB ty t z) v)"
  "ty < 0x80 \<Longrightarrow> ty \<noteq> typ_r \<Longrightarrow> not_root_row (BatchDelete (keyB ty t z))"
  by (simp_all add: not_root_row_def keyS_eq_keyB)

text \<open>Writing a good batch to a good store.\<close>

lemma db_roots_ok_write:
  assumes "db_roots_ok cd d" "batch_roots_ok cd ops"
  shows "db_roots_ok cd (db_write d ops)"
  unfolding db_roots_ok_def
proof (intro conjI allI impI)
  have wf: "db_wf d" using assms(1) by (simp add: db_roots_ok_def)
  then show "db_wf (db_write d ops)" by (rule db_wf_write)
  fix t rootRaw frontRaw
  assume asm: "valid_tree t \<and> db_get (db_write d ops) (keyS typ_r t ''root'') = Some rootRaw \<and>
    db_get (db_write d ops) (keyS typ_r t ''frontier'') = Some frontRaw"
  then consider "batch_effect ops (keyS typ_r t ''root'') = None" "batch_effect ops (keyS typ_r t ''frontier'') = None"
    | r f where "batch_effect ops (keyS typ_r t ''root'') = Some (Some r)"
        "batch_effect ops (keyS typ_r t ''frontier'') = Some (Some f)" "rows_agree cd r f"
    using assms(2) [unfolded batch_roots_ok_def, rule_format, of t] by auto
  then show "rows_agree cd rootRaw frontRaw"
  proof cases
    case 1
    then show ?thesis using asm assms(1) wf by (simp add: db_roots_ok_def db_get_write)
  next
    case 2
    then show ?thesis using asm wf by (simp add: db_get_write)
  qed
qed

section \<open>Transactions\<close>

definition lt_ok :: "codec \<Rightarrow> 'sc logTreeTX \<Rightarrow> bool" where
  "lt_ok cd lt \<longleftrightarrow> valid_tree (treeID lt) \<and> (\<exists>hs. frontier_rep (front lt) hs) \<and>
    (case batch (localTx lt) of None \<Rightarrow> True | Some ops \<Rightarrow> batch_roots_ok cd ops)"

lemma lt_ok_adds:
  "lt_ok cd lt \<Longrightarrow> tx_adds not_root_row (localTx lt) ltx \<Longrightarrow> lt_ok cd (lt\<lparr>localTx := ltx\<rparr>)"
  by (auto simp: lt_ok_def tx_adds_def batch_roots_ok_append split: option.splits)

lemma lt_ok_updates [simp]:
  "lt_ok cd (lt\<lparr>lt_fsm := m\<rparr>) = lt_ok cd lt" "lt_ok cd (lt\<lparr>subtreeCache := c\<rparr>) = lt_ok cd lt"
  "lt_ok cd (lt\<lparr>closed := b\<rparr>) = lt_ok cd lt" "lt_ok cd (lt\<lparr>queuedLeaves := b\<rparr>) = lt_ok cd lt"
  by (simp_all add: lt_ok_def)

lemma lt_emit_ok [simp]: "lt_ok cd (fst (lt_emit lt st)) = lt_ok cd lt"
  by (simp add: lt_emit_def split_beta Let_def)

lemma dequeue_range_not_root:
  "e \<in> set (iter_pairs io (db_range d (keyB typ_l t x) (keyB typ_l t y))) \<Longrightarrow> not_root_row (BatchDelete (fst e))"
proof -
  assume "e \<in> set (iter_pairs io (db_range d (keyB typ_l t x) (keyB typ_l t y)))"
  then have range: "keyB typ_l t x \<le> fst e" "fst e < keyB typ_l t y"
    by (auto simp: iter_pairs_def db_range_def split: option.splits dest!: in_set_takeD)
  obtain p where "\<forall>z. keyB typ_l t z = p @ z" using keyB_prefix by blast
  then obtain z where "fst e = keyB typ_l t z" using between_prefix_right [of p x "fst e" y] range by auto
  then show ?thesis by (simp add: not_root_row_keyB)
qed

lemma DequeueLeaves_ok:
  assumes "lt_DequeueLeaves env w lt limit cutoff = (w', lt', res)" "lt_ok cd lt"
  shows "w' = w \<and> lt_ok cd lt'"
proof -
  have "tx_adds not_root_row ltx (fst (LocalTx_DequeueLeaves c io d ltx t s cut lim))" for ltx c io d t s cut lim
    by (auto simp: LocalTx_DequeueLeaves_def split: option.splits intro!: DequeueLeaves_loop_adds dequeue_range_not_root)
  then show ?thesis
    using assms by (auto simp: lt_DequeueLeaves_def split_beta Let_def split: prod.splits option.splits
        intro!: lt_ok_adds)
qed

lemma UpdateSequencedLeaves_ok:
  assumes "UpdateSequencedLeaves env w lt leaves = (w', lt', res)" "lt_ok cd lt"
    "\<forall>l \<in> set leaves. MerkleLeafHash l \<noteq> None"
  shows "w_db w' = w_db w \<and> lt_ok cd lt'"
proof -
  have rep: "\<exists>hs. frontier_rep (foldl (\<lambda>f l. Append f (MerkleLeafHash l)) f leaves) hs" if "\<exists>hs. frontier_rep f hs" for f
    using assms(3) that
  proof (induction leaves arbitrary: f)
    case Nil
    then show ?case by simp
  next
    case (Cons l leaves)
    obtain h where h: "MerkleLeafHash l = Some h" using Cons.prems(1) by auto
    then have "\<exists>hs. frontier_rep (Append f (MerkleLeafHash l)) hs" using Cons.prems(2) frontier_rep_Append by auto
    then show ?case using Cons.IH Cons.prems(1) by simp
  qed
  then have front: "lt_ok cd l \<Longrightarrow> lt_ok cd (l\<lparr>front := foldl (\<lambda>f l. Append f (MerkleLeafHash l)) (front l) leaves\<rparr>)"
    for l :: "'a logTreeTX"
    by (simp add: lt_ok_def)
  have "tx_adds not_root_row ltx (fst (LocalTx_PutLeaves ltx t seqs ms hs))" for ltx t seqs ms hs
    by (auto simp: LocalTx_PutLeaves_def not_root_row_keyB intro!: PutLeaves_loop_adds)
  then show ?thesis
    using assms(1,2) front [of "fst (lt_emit lt sUpdateSequencedLeaves)"]
    by (auto simp: UpdateSequencedLeaves_def split_beta Let_def split: prod.splits option.splits sum.splits
        intro!: lt_ok_adds [of cd "_\<lparr>front := _\<rparr>", simplified])
qed

lemma SetMerkleNodes_ok:
  "SetMerkleNodes sc env w lt nodes = (w', lt', res) \<Longrightarrow> lt_ok cd lt \<Longrightarrow> w' = w \<and> lt_ok cd lt'"
  by (auto simp: SetMerkleNodes_def split_beta Let_def split: prod.splits option.splits)

text \<open>Storing a root that passed the check of \<open>StoreSignedLogRoot\<close>.\<close>

definition root_puts :: "int \<Rightarrow> SignedLogRoot \<Rightarrow> bytes \<Rightarrow> batch_op list" where
  "root_puts t sth raw =
    [BatchPut (keyS typ_r t ''root'') (contents (LogRoot sth)), BatchPut (keyS typ_r t ''sig'') (contents (LogRootSignature sth)),
     BatchPut (keyS typ_r t ''frontier'') raw]"

lemma root_puts_effect:
  "batch_effect (root_puts t sth raw) (keyS typ_r t ''root'') = Some (Some (contents (LogRoot sth)))"
  "batch_effect (root_puts t sth raw) (keyS typ_r t ''sig'') = Some (Some (contents (LogRootSignature sth)))"
  "batch_effect (root_puts t sth raw) (keyS typ_r t ''frontier'') = Some (Some raw)"
  "valid_tree t \<Longrightarrow> valid_tree u \<Longrightarrow> u \<noteq> t \<Longrightarrow> batch_effect (root_puts t sth raw) (keyS typ_r u s) = None"
  by (simp_all add: root_puts_def keyS_eq_keyB ascii_def keyB_eq_iff)

lemma StoreRoot_effect:
  assumes "batch ltx = Some ops" "gobEncode cd f = Inr raw"
  shows "LocalTx_StoreRoot cd ltx t sth f = (ltx\<lparr>batch := Some (ops @ root_puts t sth raw)\<rparr>, Inr ())"
  using assms by (simp add: LocalTx_StoreRoot_def root_puts_def)

lemma batch_roots_ok_StoreRoot:
  assumes "batch_roots_ok cd ops" "valid_tree t" "gobEncode cd f = Inr raw" "frontier_rep f hs" "root_of cd (contents (LogRoot sth)) hs"
  shows "batch_roots_ok cd (ops @ root_puts t sth raw)"
  unfolding batch_roots_ok_def
proof (intro allI impI, goal_cases)
  case (1 u)
  show ?case
  proof (cases "u = t")
    case True
    then show ?thesis using assms(3-5) by (auto simp: batch_effect_append root_puts_effect rows_agree_def)
  next
    case False
    then show ?thesis
      using assms(1,2) 1 unfolding batch_roots_ok_def by (simp add: batch_effect_append root_puts_effect(4))
  qed
qed

text \<open>A caller's root is sound when its signed blob carries the same root hash as its field.\<close>

definition sth_sound :: "codec \<Rightarrow> SignedLogRoot \<Rightarrow> bool" where
  "sth_sound cd sth \<longleftrightarrow>
    (\<forall>v1. unmarshalLogRoot cd (contents (LogRoot sth)) = Inr v1 \<longrightarrow> contents (V1_RootHash v1) = contents (RootHash sth))"

lemma StoreSignedLogRoot_ok:
  assumes "StoreSignedLogRoot env w lt sth = (w', lt', res)" "lt_ok cd lt" "e_codec env = cd" "sth_sound cd sth"
  shows "w' = w \<and> lt_ok cd lt'"
proof (cases "snd (lt_emit lt sStoreSignedLogRoot) = None \<and> bytes_Equal (RootHash sth) (Head (front lt))")
  case False
  then show ?thesis
    using assms(1,2) by (auto simp: StoreSignedLogRoot_def lt_emit_def split_beta Let_def split: option.splits if_splits)
next
  case True
  let ?lt = "fst (lt_emit lt sStoreSignedLogRoot)"
  obtain hs where hs: "frontier_rep (front lt) hs" using assms(2) by (auto simp: lt_ok_def)
  then have root: "root_of cd (contents (LogRoot sth)) hs"
    using True assms(4) by (simp add: root_of_def sth_sound_def bytes_Equal_def Head_frontier_rep)
  have same: "front ?lt = front lt" "localTx ?lt = localTx lt" "treeID ?lt = treeID lt"
    by (simp_all add: lt_emit_def split_beta Let_def)
  have eq: "w' = w" "lt' = ?lt\<lparr>localTx := fst (LocalTx_StoreRoot cd (localTx lt) (treeID lt) sth (front lt))\<rparr>"
    using assms(1,3) True same by (auto simp: StoreSignedLogRoot_def split_beta Let_def split: option.splits)
  show ?thesis
  proof (cases "\<exists>ops raw. batch (localTx lt) = Some ops \<and> gobEncode cd (front lt) = Inr raw")
    case True
    then obtain ops raw where ops: "batch (localTx lt) = Some ops" "gobEncode cd (front lt) = Inr raw" by blast
    then have "batch_roots_ok cd (ops @ root_puts (treeID lt) sth raw)"
      using assms(2) hs root by (intro batch_roots_ok_StoreRoot) (auto simp: lt_ok_def)
    with eq ops assms(2) same show ?thesis by (simp add: StoreRoot_effect lt_ok_def)
  next
    case False
    then have "fst (LocalTx_StoreRoot cd (localTx lt) (treeID lt) sth (front lt)) = localTx lt"
      by (auto simp: LocalTx_StoreRoot_def batch_add_def split: sum.splits option.splits)
    with eq assms(2) same show ?thesis by (simp add: lt_ok_def)
  qed
qed

lemma storeSubtrees_adds: "\<exists>ltx. fst (storeSubtrees env lt subtrees) = lt\<lparr>localTx := ltx\<rparr> \<and> tx_adds not_root_row (localTx lt) ltx"
proof -
  have "tx_adds not_root_row ltx (fst (LocalTx_PutSubtrees c ltx t r ids ss))" for c ltx t r ids ss
    by (auto simp: LocalTx_PutSubtrees_def not_root_row_keyB intro!: PutSubtrees_loop_adds)
  moreover have "\<exists>ltx. lt = lt\<lparr>localTx := ltx\<rparr> \<and> tx_adds not_root_row (localTx lt) ltx"
    by (rule exI [of _ "localTx lt"]) simp
  ultimately show ?thesis
    unfolding storeSubtrees_def split_beta Let_def by (auto split: sum.splits)
qed

lemma LocalTx_Commit_roots:
  assumes "LocalTx_Commit io d ltx = (d', ltx', res)" "db_roots_ok cd d"
    "case batch ltx of None \<Rightarrow> True | Some ops \<Rightarrow> batch_roots_ok cd ops"
  shows "db_roots_ok cd d' \<and> (case batch ltx' of None \<Rightarrow> True | Some ops \<Rightarrow> batch_roots_ok cd ops)"
  using assms by (auto simp: LocalTx_Commit_def split: option.splits intro: db_roots_ok_write)

lemma lt_Flush_ok:
  assumes "lt_ok cd lt"
  shows "lt_ok cd (fst (lt_Flush sc env lt))"
proof -
  have "lt_ok cd (fst (storeSubtrees env l ss))" if l: "lt_ok cd l" for l :: "'a logTreeTX" and ss
  proof -
    obtain ltx where "fst (storeSubtrees env l ss) = l\<lparr>localTx := ltx\<rparr>" "tx_adds not_root_row (localTx l) ltx"
      using storeSubtrees_adds by blast
    then show ?thesis using lt_ok_adds [OF l] by simp
  qed
  then show ?thesis
    using assms by (simp add: lt_Flush_def split: prod.splits sum.splits option.splits)
qed

lemma lt_Commit_ok:
  assumes "lt_Commit sc env w lt = (w', lt', res)" "lt_ok cd lt" "db_roots_ok cd (w_db w)"
  shows "db_roots_ok cd (w_db w') \<and> lt_ok cd lt'"
proof -
  obtain lt1 e where em: "lt_emit lt sCommit = (lt1, e)" by (rule prod.exhaust)
  then have lt1: "lt_ok cd lt1" using assms(2) lt_emit_ok [of cd lt sCommit] by simp
  obtain lt2 r where fl: "lt_Flush sc env lt1 = (lt2, r)" by (rule prod.exhaust)
  then have lt2: "lt_ok cd lt2" using lt_Flush_ok [OF lt1, of sc env] by simp
  obtain d ltx rc where com: "LocalTx_Commit (e_io env) (w_db w) (localTx lt2) = (d, ltx, rc)" by (rule prod_cases3)
  have fin: "db_roots_ok cd d \<and> (case batch ltx of None \<Rightarrow> True | Some ops \<Rightarrow> batch_roots_ok cd ops)"
    using LocalTx_Commit_roots [OF com assms(3)] lt2 by (simp add: lt_ok_def)
  then have "lt_ok cd (lt2\<lparr>localTx := ltx\<rparr>)" "lt_ok cd (lt2\<lparr>localTx := ltx, closed := True\<rparr>)"
    using lt2 by (simp_all add: lt_ok_def)
  then show ?thesis
    using assms(1,3) em lt1 fl lt2 com fin by (auto simp: lt_Commit_def split: option.splits if_splits sum.splits)
qed

section \<open>Queueing\<close>

lemma QueueLeaves_loop_not_root:
  assumes "QueueLeaves_loop cd rnd t ts leaves ops = Inr ops'" "list_all not_root_row ops"
  shows "list_all not_root_row ops'"
  using assms
proof (induction leaves arbitrary: ops)
  case Nil
  then show ?case by simp
next
  case (Cons l leaves)
  then show ?case by (fastforce simp: not_root_row_keyB split: sum.splits)
qed

lemma queueLeaf_ok:
  assumes "queueLeaf env w lt leaf ts = (w', res)" "db_roots_ok cd (w_db w)"
  shows "db_roots_ok cd (w_db w')"
proof -
  have "db_roots_ok cd (fst (Local_QueueLeaves c io rnd d t ts [leaf]))" if "db_roots_ok cd d" for c io rnd d t
    using that batch_roots_ok_append [OF batch_roots_ok_Nil QueueLeaves_loop_not_root, of c rnd t ts "[leaf]" "[]"]
    by (auto simp: Local_QueueLeaves_def intro!: db_roots_ok_write split: sum.splits option.splits)
  then show ?thesis
    using assms by (auto simp: queueLeaf_def split_beta Let_def split: option.splits sum.splits if_splits)
qed

lemma lt_QueueLeaves_loop_ok:
  "lt_QueueLeaves_loop envs w lt leaves ts out = (w', res) \<Longrightarrow> db_roots_ok cd (w_db w) \<Longrightarrow> db_roots_ok cd (w_db w')"
proof (induction envs w lt leaves ts out rule: lt_QueueLeaves_loop.induct)
  case (1 envs w lt ts out)
  then show ?case by simp
next
  case (2 envs w lt leaf leaves ts out)
  then show ?case by (auto split: prod.splits sum.splits dest: queueLeaf_ok)
qed

lemma lt_QueueLeaves_ok:
  assumes "lt_QueueLeaves envs w lt ls ts = (w', lt', res)" "lt_ok cd lt" "db_roots_ok cd (w_db w)"
  shows "db_roots_ok cd (w_db w') \<and> lt_ok cd lt'"
  using assms lt_QueueLeaves_loop_ok [OF prod.collapse [symmetric], of cd w envs _ ls ts "[]"]
  by (auto simp: lt_QueueLeaves_def split_beta Let_def split: option.splits prod.splits)

lemma LogStorage_QueueLeaves_loop_ok:
  "LogStorage_QueueLeaves_loop envs w lt leaves ts out = (w', res) \<Longrightarrow> db_roots_ok cd (w_db w) \<Longrightarrow> db_roots_ok cd (w_db w')"
proof (induction envs w lt leaves ts out rule: LogStorage_QueueLeaves_loop.induct)
  case (1 envs w lt ts out)
  then show ?case by simp
next
  case (2 envs w lt leaf leaves ts out)
  then show ?case by (auto split: prod.splits sum.splits option.splits dest: queueLeaf_ok)
qed

section \<open>All histories\<close>

text \<open>The operations of the log storage, transactions named by numbers.\<close>

datatype ls_op =
    LBegin nat Remote int
  | LQueueLeaves nat "LogLeaf list" int
  | LDequeueLeaves nat int int
  | LUpdateSequencedLeaves nat "LogLeaf list"
  | LSetMerkleNodes nat "Node list"
  | LStoreSignedLogRoot nat SignedLogRoot
  | LCommit nat
  | LRollback nat
  | LClose nat
  | LStorageQueueLeaves Remote int "LogLeaf list" int

type_synonym 'sc ls_state = "world \<times> (nat \<Rightarrow> 'sc logTreeTX option)"

definition on_tx :: "'sc ls_state \<Rightarrow> nat \<Rightarrow> (world \<Rightarrow> 'sc logTreeTX \<Rightarrow> world \<times> 'sc logTreeTX) \<Rightarrow> 'sc ls_state" where
  "on_tx s i f = (case snd s i of None \<Rightarrow> s | Some lt \<Rightarrow> (let (w, lt') = f (fst s) lt in (w, (snd s)(i \<mapsto> lt'))))"

fun ls_step :: "'sc subtree_cache_ops \<Rightarrow> 'sc ls_state \<Rightarrow> (nat \<Rightarrow> env) \<times> ls_op \<Rightarrow> 'sc ls_state" where
  "ls_step sc s (envs, LBegin i r t) =
    (case beginForTree sc (envs 0) (fst s) r t of Inl _ \<Rightarrow> s | Inr lt \<Rightarrow> (fst s, (snd s)(i \<mapsto> lt)))"
| "ls_step sc s (envs, LQueueLeaves i ls ts) = on_tx s i (\<lambda>w lt. let (w, lt, _) = lt_QueueLeaves envs w lt ls ts in (w, lt))"
| "ls_step sc s (envs, LDequeueLeaves i n c) = on_tx s i (\<lambda>w lt. let (w, lt, _) = lt_DequeueLeaves (envs 0) w lt n c in (w, lt))"
| "ls_step sc s (envs, LUpdateSequencedLeaves i ls) =
    on_tx s i (\<lambda>w lt. let (w, lt, _) = UpdateSequencedLeaves (envs 0) w lt ls in (w, lt))"
| "ls_step sc s (envs, LSetMerkleNodes i ns) = on_tx s i (\<lambda>w lt. let (w, lt, _) = SetMerkleNodes sc (envs 0) w lt ns in (w, lt))"
| "ls_step sc s (envs, LStoreSignedLogRoot i sth) =
    on_tx s i (\<lambda>w lt. let (w, lt, _) = StoreSignedLogRoot (envs 0) w lt sth in (w, lt))"
| "ls_step sc s (envs, LCommit i) = on_tx s i (\<lambda>w lt. let (w, lt, _) = lt_Commit sc (envs 0) w lt in (w, lt))"
| "ls_step sc s (envs, LRollback i) = on_tx s i (\<lambda>w lt. (w, fst (lt_Rollback lt)))"
| "ls_step sc s (envs, LClose i) = on_tx s i (\<lambda>w lt. (w, fst (lt_Close lt)))"
| "ls_step sc s (envs, LStorageQueueLeaves r t ls ts) =
    (fst (LogStorage_QueueLeaves (scNew sc) (envs 0) envs (fst s) r t ls ts), snd s)"

definition ls_run :: "'sc subtree_cache_ops \<Rightarrow> 'sc ls_state \<Rightarrow> ((nat \<Rightarrow> env) \<times> ls_op) list \<Rightarrow> 'sc ls_state" where
  "ls_run sc = foldl (ls_step sc)"

fun ls_op_ok :: "codec \<Rightarrow> ls_op \<Rightarrow> bool" where
  "ls_op_ok cd (LBegin i r t) \<longleftrightarrow> valid_tree t"
| "ls_op_ok cd (LUpdateSequencedLeaves i ls) \<longleftrightarrow> (\<forall>l \<in> set ls. MerkleLeafHash l \<noteq> None)"
| "ls_op_ok cd (LStoreSignedLogRoot i sth) \<longleftrightarrow> sth_sound cd sth"
| "ls_op_ok cd _ \<longleftrightarrow> True"

definition ls_inv :: "codec \<Rightarrow> 'sc ls_state \<Rightarrow> bool" where
  "ls_inv cd s \<longleftrightarrow> db_roots_ok cd (w_db (fst s)) \<and> (\<forall>i lt. snd s i = Some lt \<longrightarrow> lt_ok cd lt)"

lemma ls_inv_on_tx:
  assumes "ls_inv cd s" "\<And>w lt w' lt'. f w lt = (w', lt') \<Longrightarrow> lt_ok cd lt \<Longrightarrow> db_roots_ok cd (w_db w) \<Longrightarrow> db_roots_ok cd (w_db w') \<and> lt_ok cd lt'"
  shows "ls_inv cd (on_tx s i f)"
  using assms(1) assms(2) [of "fst s"] unfolding ls_inv_def on_tx_def
  by (auto simp: split_beta Let_def split: option.splits if_splits) (metis prod.collapse)+

lemma ls_inv_on_tx3:
  assumes "ls_inv cd s" "\<And>w lt w' lt' res. f w lt = (w', lt', res) \<Longrightarrow> lt_ok cd lt \<Longrightarrow> db_roots_ok cd (w_db w) \<Longrightarrow>
    db_roots_ok cd (w_db w') \<and> lt_ok cd lt'"
  shows "ls_inv cd (on_tx s i (\<lambda>w lt. let (w, lt, _) = f w lt in (w, lt)))"
proof (rule ls_inv_on_tx [OF assms(1)])
  fix w lt w' lt'
  assume f: "(let (w, lt, _) = f w lt in (w, lt)) = (w', lt')" "lt_ok cd lt" "db_roots_ok cd (w_db w)"
  obtain a b c where "f w lt = (a, b, c)" by (rule prod_cases3)
  with f assms(2) [of w lt a b c] show "db_roots_ok cd (w_db w') \<and> lt_ok cd lt'" by simp
qed

lemma MostRecentRoot_good:
  assumes "MostRecentRoot cd io d t = Inr (sth, f)" "db_roots_ok cd d" "valid_tree t"
    "codec_pair (gobEncode cd) (gobDecode cd) (\<lambda>f. \<exists>hs. frontier_rep f hs)"
  shows "\<exists>hs. frontier_rep f hs \<and> contents (RootHash sth) = mth hs"
proof -
  obtain rootRaw frontRaw v1 where rows: "db_get d (keyS typ_r t ''root'') = Some rootRaw"
      "db_get d (keyS typ_r t ''frontier'') = Some frontRaw" "unmarshalLogRoot cd rootRaw = Inr v1"
      "RootHash sth = V1_RootHash v1" "gobDecode cd frontRaw = Inr f"
    using assms(1) by (auto simp: MostRecentRoot_def snap_Get_def Let_def split: option.splits sum.splits if_splits)
  then obtain f' hs where f': "gobEncode cd f' = Inr frontRaw" "frontier_rep f' hs" "root_of cd rootRaw hs"
    using assms(2,3) unfolding db_roots_ok_def rows_agree_def by blast
  then have "gobDecode cd frontRaw = Inr f'" using codec_pair.decode_encode [OF assms(4)] by blast
  with rows f' show ?thesis by (auto simp: root_of_def)
qed

lemma beginForTree_ok:
  assumes "beginForTree sc env w r t = Inr lt" "db_roots_ok cd (w_db w)" "valid_tree t" "e_codec env = cd"
    "codec_pair (gobEncode cd) (gobDecode cd) (\<lambda>f. \<exists>hs. frontier_rep f hs)"
  shows "lt_ok cd lt"
  using assms MostRecentRoot_good [OF _ assms(2,3,5)] frontier_rep_empty
  by (fastforce simp: beginForTree_def lt_ok_def Local_Begin_def batch_roots_ok_Nil split_beta Let_def
      split: option.splits sum.splits if_splits)

lemma ls_inv_step:
  assumes "ls_inv cd s" "ls_op_ok cd (snd op)" "\<And>j. e_codec (fst op j) = cd"
    "codec_pair (gobEncode cd) (gobDecode cd) (\<lambda>f. \<exists>hs. frontier_rep f hs)"
  shows "ls_inv cd (ls_step sc s op)"
proof -
  obtain envs o' where op: "op = (envs, o')" by (cases op)
  show ?thesis
  proof (cases o')
    case (LBegin i r t)
    then show ?thesis
      using assms beginForTree_ok [of sc "envs 0" "fst s" r t _ cd] op
      by (auto simp: ls_inv_def split: sum.splits if_splits)
  next
    case (LQueueLeaves i ls ts)
    have "ls_inv cd (ls_step sc s (envs, LQueueLeaves i ls ts))"
      unfolding ls_step.simps by (rule ls_inv_on_tx3 [OF assms(1)]) (auto dest: lt_QueueLeaves_ok)
    with op LQueueLeaves show ?thesis by simp
  next
    case (LDequeueLeaves i n c)
    have "ls_inv cd (ls_step sc s (envs, LDequeueLeaves i n c))"
      unfolding ls_step.simps by (rule ls_inv_on_tx3 [OF assms(1)]) (auto dest: DequeueLeaves_ok)
    with op LDequeueLeaves show ?thesis by simp
  next
    case (LUpdateSequencedLeaves i ls)
    have "ls_inv cd (ls_step sc s (envs, LUpdateSequencedLeaves i ls))"
      unfolding ls_step.simps by (rule ls_inv_on_tx3 [OF assms(1)]) (use assms(2) op LUpdateSequencedLeaves in \<open>auto dest: UpdateSequencedLeaves_ok\<close>)
    with op LUpdateSequencedLeaves show ?thesis by simp
  next
    case (LSetMerkleNodes i ns)
    have "ls_inv cd (ls_step sc s (envs, LSetMerkleNodes i ns))"
      unfolding ls_step.simps by (rule ls_inv_on_tx3 [OF assms(1)]) (auto dest: SetMerkleNodes_ok)
    with op LSetMerkleNodes show ?thesis by simp
  next
    case (LStoreSignedLogRoot i sth)
    have "ls_inv cd (ls_step sc s (envs, LStoreSignedLogRoot i sth))"
      unfolding ls_step.simps by (rule ls_inv_on_tx3 [OF assms(1)]) (use assms(2,3) op LStoreSignedLogRoot in \<open>auto dest: StoreSignedLogRoot_ok\<close>)
    with op LStoreSignedLogRoot show ?thesis by simp
  next
    case (LCommit i)
    have "ls_inv cd (ls_step sc s (envs, LCommit i))"
      unfolding ls_step.simps by (rule ls_inv_on_tx3 [OF assms(1)]) (auto dest: lt_Commit_ok)
    with op LCommit show ?thesis by simp
  next
    case (LRollback i)
    have "lt_ok cd (fst (lt_Rollback lt))" if "lt_ok cd lt" for lt :: "'a logTreeTX"
      using that by (simp add: lt_Rollback_def split_beta split: option.splits)
    with LRollback op assms(1) show ?thesis by (auto intro!: ls_inv_on_tx)
  next
    case (LClose i)
    have "lt_ok cd (fst (lt_Close lt))" if "lt_ok cd lt" for lt :: "'a logTreeTX"
      using that by (simp add: lt_Close_def split_beta split: option.splits)
    with LClose op assms(1) show ?thesis by (auto intro!: ls_inv_on_tx)
  next
    case (LStorageQueueLeaves r t ls ts)
    have "db_roots_ok cd (w_db (fst (LogStorage_QueueLeaves (scNew sc) (envs 0) envs (fst s) r t ls ts)))"
      using assms(1) LogStorage_QueueLeaves_loop_ok [OF prod.collapse [symmetric], of cd "fst s" envs _ ls ts "[]"]
      by (auto simp: LogStorage_QueueLeaves_def ls_inv_def split: sum.splits)
    with LStorageQueueLeaves op assms(1) show ?thesis by (simp add: ls_inv_def)
  qed
qed

text \<open>
  C1. In every history of storage operations on an initially empty database, with any interleaving of transactions, any
  number of trees, and any failures of the databases, a root that can be read back is the Merkle tree hash
  of the leaf hashes its stored frontier stands for.
\<close>

theorem every_published_root_is_merkle_root:
  assumes "codec_pair (gobEncode cd) (gobDecode cd) (\<lambda>f. \<exists>hs. frontier_rep f hs)"
    and "\<forall>op \<in> set ops. ls_op_ok cd (snd op) \<and> (\<forall>j. e_codec (fst op j) = cd)"
    and "ls_run sc (\<lparr>w_db = [], w_cache = c, w_uploads = []\<rparr>, \<lambda>_. None) ops = (w, txs)"
    and "valid_tree t" "MostRecentRoot cd io (w_db w) t = Inr (sth, f)"
  shows "\<exists>hs. frontier_rep f hs \<and> contents (RootHash sth) = mth hs"
proof -
  have "ls_inv cd (ls_run sc s ops)" if "ls_inv cd s" for s
    using assms(2) that unfolding ls_run_def
  proof (induction ops arbitrary: s)
    case Nil
    then show ?case by simp
  next
    case (Cons op ops)
    then show ?case using ls_inv_step [OF Cons.prems(2), of op sc] assms(1) by simp
  qed
  moreover have "ls_inv cd (\<lparr>w_db = [], w_cache = c, w_uploads = []\<rparr>, \<lambda>_. None)"
    by (simp add: ls_inv_def db_roots_ok_def db_get_def)
  ultimately have "db_roots_ok cd (w_db w)" using assms(3) by (metis fst_conv ls_inv_def)
  then show ?thesis using MostRecentRoot_good assms(1,4,5) by blast
qed

section \<open>One sequencing run\<close>

lemma foldl_Append_hashes:
  assumes "frontier_rep f hs" "\<forall>l \<in> set leaves. MerkleLeafHash l \<noteq> None"
  shows "frontier_rep (foldl (\<lambda>f l. Append f (MerkleLeafHash l)) f leaves) (hs @ map (contents \<circ> MerkleLeafHash) leaves)"
  using assms
proof (induction leaves arbitrary: f hs)
  case Nil
  then show ?case by simp
next
  case (Cons l leaves)
  then obtain h where h: "MerkleLeafHash l = Some h" by auto
  then have "frontier_rep (Append f (MerkleLeafHash l)) (hs @ [h])" using Cons.prems(1) frontier_rep_Append by simp
  then show ?case using Cons.IH [of _ "hs @ [h]"] Cons.prems(2) h by simp
qed

text \<open>The fields the operations leave alone.\<close>

lemma lt_emit_fields [simp]:
  "front (fst (lt_emit lt st)) = front lt" "treeID (fst (lt_emit lt st)) = treeID lt"
  "localTx (fst (lt_emit lt st)) = localTx lt" "queuedLeaves (fst (lt_emit lt st)) = queuedLeaves lt"
  by (simp_all add: lt_emit_def split_beta Let_def)

lemma DequeueLeaves_fields:
  assumes "lt_DequeueLeaves env w lt n c = (w', lt', res)"
  shows "w' = w" "front lt' = front lt" "treeID lt' = treeID lt" "queuedLeaves lt' = queuedLeaves lt"
  using assms by (auto simp: lt_DequeueLeaves_def split_beta Let_def split: option.splits)

lemma UpdateSequencedLeaves_fields:
  assumes "UpdateSequencedLeaves env w lt leaves = (w', lt', Inr ())"
  shows "w_db w' = w_db w" "front lt' = foldl (\<lambda>f l. Append f (MerkleLeafHash l)) (front lt) leaves"
    "treeID lt' = treeID lt" "queuedLeaves lt' = queuedLeaves lt"
  using assms by (auto simp: UpdateSequencedLeaves_def split_beta Let_def split: option.splits sum.splits)

lemma SetMerkleNodes_fields:
  assumes "SetMerkleNodes sc env w lt nodes = (w', lt', res)"
  shows "w' = w" "front lt' = front lt" "treeID lt' = treeID lt" "queuedLeaves lt' = queuedLeaves lt"
  using assms by (auto simp: SetMerkleNodes_def split_beta Let_def split: option.splits)

lemma StoreSignedLogRoot_fields:
  assumes "StoreSignedLogRoot env w lt sth = (w', lt', Inr ())"
  obtains ops raw where "w' = w" "treeID lt' = treeID lt" "queuedLeaves lt' = queuedLeaves lt"
    "bytes_Equal (RootHash sth) (Head (front lt))" "gobEncode (e_codec env) (front lt) = Inr raw"
    "batch (localTx lt') = Some (ops @ root_puts (treeID lt) sth raw)"
proof -
  have "bytes_Equal (RootHash sth) (Head (front lt))" "w' = w"
    "lt' = (fst (lt_emit lt sStoreSignedLogRoot))\<lparr>localTx := fst (LocalTx_StoreRoot (e_codec env) (localTx lt) (treeID lt) sth (front lt))\<rparr>"
    "snd (LocalTx_StoreRoot (e_codec env) (localTx lt) (treeID lt) sth (front lt)) = Inr ()"
    using assms by (auto simp: StoreSignedLogRoot_def split_beta Let_def split: option.splits if_splits)
  moreover from this(4) obtain ops raw where "batch (localTx lt) = Some ops" "gobEncode (e_codec env) (front lt) = Inr raw"
    by (auto simp: LocalTx_StoreRoot_def batch_add_def split: sum.splits option.splits)
  ultimately show thesis using that [of raw ops] by (simp add: StoreRoot_effect)
qed

lemma lt_Commit_effect:
  assumes "lt_Commit sc env w lt = (w', lt', Inr ())" "\<not> queuedLeaves lt" "batch (localTx lt) = Some ops"
  obtains ops' where "w_db w' = db_write (w_db w) (ops @ ops')" "list_all not_root_row ops'"
proof -
  let ?lt = "fst (lt_emit lt sCommit)"
  have fl: "snd (lt_Flush sc env ?lt) = Inr ()" "w_db w' = fst (LocalTx_Commit (e_io env) (w_db w) (localTx (fst (lt_Flush sc env ?lt))))"
    "snd (snd (LocalTx_Commit (e_io env) (w_db w) (localTx (fst (lt_Flush sc env ?lt))))) = Inr ()"
    using assms(1,2) by (auto simp: lt_Commit_def split_beta split: option.splits if_splits sum.splits prod.splits)
  have "\<exists>ops'. batch (localTx (fst (lt_Flush sc env ?lt))) = Some (ops @ ops') \<and> list_all not_root_row ops'"
  proof -
    have "\<exists>ltx. localTx (fst (lt_Flush sc env ?lt)) = ltx \<and> tx_adds not_root_row (localTx lt) ltx"
    proof -
      have "tx_adds not_root_row (localTx l) (localTx (fst (storeSubtrees env l ss)))" for l :: "'a logTreeTX" and ss
        using storeSubtrees_adds [of env l ss] by auto
      then have "tx_adds not_root_row (localTx l) (localTx (fst (lt_Flush sc env l)))" for l :: "'a logTreeTX"
        using \<open>\<And>ss l. tx_adds not_root_row (localTx l) (localTx (fst (storeSubtrees env l ss)))\<close> [of "l\<lparr>subtreeCache := fst (scFlush sc (subtreeCache l))\<rparr>"]
        by (auto simp: lt_Flush_def split: prod.splits sum.splits option.splits)
      from this [of ?lt] show ?thesis by simp
    qed
    with assms(3) show ?thesis by (auto simp: tx_adds_def intro: exI [of _ "[]"])
  qed
  then show thesis
    using that fl by (auto simp: LocalTx_Commit_def split: option.splits)
qed

text \<open>
  C2. A sequencing transaction that runs through and commits extends the log by exactly its leaves: the root it stored
  is the Merkle tree hash of the previous leaf hashes followed by those of the new leaves, and the next
  transaction reads back that root and a frontier over all of them.
\<close>

theorem sequencing_transaction_extends_log:
  assumes "codec_pair (gobEncode cd) (gobDecode cd) (\<lambda>f. \<exists>hs. frontier_rep f hs)"
    and "\<forall>env \<in> {env0, env1, env2, env3, env4, env5}. e_codec env = cd"
    and "db_wf (w_db w)" "valid_tree t" "frontier_rep f hs" "MostRecentRoot cd (e_io env0) (w_db w) t = Inr (sth0, f)"
    and "beginForTree sc env0 w r t = Inr lt"
    and "lt_DequeueLeaves env1 w lt limit cutoff = (w1, lt1, Inr queued)"
    and "UpdateSequencedLeaves env2 w1 lt1 leaves = (w2, lt2, Inr ())" "\<forall>l \<in> set leaves. MerkleLeafHash l \<noteq> None"
    and "SetMerkleNodes sc env3 w2 lt2 nodes = (w3, lt3, Inr ())"
    and "StoreSignedLogRoot env4 w3 lt3 sth = (w4, lt4, Inr ())" "unmarshalLogRoot cd (contents (LogRoot sth)) = Inr v"
    and "lt_Commit sc env5 w4 lt4 = (w5, lt5, Inr ())"
  shows "contents (RootHash sth) = mth (hs @ map (contents \<circ> MerkleLeafHash) leaves) \<and>
    (\<exists>sth' f'. MostRecentRoot cd no_faults (w_db w5) t = Inr (sth', f') \<and>
       LogRoot sth' = Some (contents (LogRoot sth)) \<and> RootHash sth' = V1_RootHash v \<and>
       TreeSize sth' = wrap64 (V1_TreeSize v) \<and> TreeRevision sth' = wrap64 (V1_Revision v) \<and>
       frontier_rep f' (hs @ map (contents \<circ> MerkleLeafHash) leaves))"
proof -
  let ?hs = "hs @ map (contents \<circ> MerkleLeafHash) leaves"
  have lt: "front lt = f" "treeID lt = t" "\<not> queuedLeaves lt"
    using assms(2,6,7) by (auto simp: beginForTree_def Let_def split: option.splits)
  have w2: "w_db w2 = w_db w" and lt2: "front lt2 = foldl (\<lambda>f l. Append f (MerkleLeafHash l)) f leaves" "treeID lt2 = t" "\<not> queuedLeaves lt2"
    using UpdateSequencedLeaves_fields [OF assms(9)] DequeueLeaves_fields [OF assms(8)] lt by auto
  have w3: "w_db w3 = w_db w" and lt3: "front lt3 = front lt2" "treeID lt3 = t" "\<not> queuedLeaves lt3"
    using SetMerkleNodes_fields [OF assms(11)] lt2 w2 by auto
  have rep: "frontier_rep (front lt3) ?hs" using foldl_Append_hashes [OF assms(5,10)] lt2 lt3 by simp
  obtain ops raw where st: "w4 = w3" "\<not> queuedLeaves lt4" "bytes_Equal (RootHash sth) (Head (front lt3))"
      "gobEncode cd (front lt3) = Inr raw" "batch (localTx lt4) = Some (ops @ root_puts t sth raw)"
    using StoreSignedLogRoot_fields [OF assms(12)] assms(2) lt3 by (metis insertCI)
  obtain ops' where wr: "w_db w5 = db_write (w_db w) ((ops @ root_puts t sth raw) @ ops')" "list_all not_root_row ops'"
    using lt_Commit_effect [OF assms(14) st(2,5)] st(1) w3 by metis
  have "contents (RootHash sth) = mth ?hs" using st(3) Head_frontier_rep [OF rep] by (simp add: bytes_Equal_def)
  moreover have "gobDecode cd raw = Inr (front lt3)" using codec_pair.decode_encode [OF assms(1) _ st(4)] rep by blast
  then have "\<exists>sth' f'. MostRecentRoot cd no_faults (w_db w5) t = Inr (sth', f') \<and>
       LogRoot sth' = Some (contents (LogRoot sth)) \<and> RootHash sth' = V1_RootHash v \<and>
       TreeSize sth' = wrap64 (V1_TreeSize v) \<and> TreeRevision sth' = wrap64 (V1_Revision v) \<and> frontier_rep f' ?hs"
    using assms(3,13) rep by (simp add: MostRecentRoot_def snap_Get_def wr(1) db_get_write batch_effect_append
        not_root_effect [OF wr(2)] root_puts_effect)
  ultimately show ?thesis by blast
qed

section \<open>Concrete runs\<close>

lemma sample_gob: "codec_pair (gobEncode sample_codec) (gobDecode sample_codec) valid"
proof
  fix f :: Frontier and raw
  assume "gobEncode sample_codec f = Inr raw"
  then have ok: "list_all (\<lambda>r. case r of None \<Rightarrow> True | Some h \<Rightarrow> length h = 1 \<and> h \<noteq> [0]) (Roots f)"
      "raw = map (\<lambda>r. case r of Some h \<Rightarrow> hd h | None \<Rightarrow> 0) (Roots f)"
    by (auto simp: sample_codec_def simp del: One_nat_def split: if_splits)
  have "map (\<lambda>x. if x = 0 then None else Some [x]) raw = Roots f"
    unfolding ok(2) map_map
  proof (rule map_idI)
    fix r assume "r \<in> set (Roots f)"
    then have "case r of None \<Rightarrow> True | Some h \<Rightarrow> length h = 1 \<and> h \<noteq> [0]" using ok(1) by (simp add: list_all_iff)
    then show "((\<lambda>x. if x = 0 then None else Some [x]) \<circ> (\<lambda>r. case r of Some h \<Rightarrow> hd h | None \<Rightarrow> 0)) r = r"
      by (auto simp: length_Suc_conv split: option.splits)
  qed
  then show "gobDecode sample_codec raw = Inr f" by (cases f) (simp add: sample_codec_def)
qed

definition sample_env :: env where
  "sample_env =
    \<lparr>e_codec = sample_codec, e_io = no_faults,
     e_http = \<lparr>newRequestErr = \<lambda>_. None, clientDo = \<lambda>_. Inr \<lparr>StatusCode = 404, Status = [], Body = []\<rparr>\<rparr>,
     e_b2 = \<lparr>bucketErr = \<lambda>_. None, uploadErr = \<lambda>_. None\<rparr>, e_ord = id, e_now = 0,
     e_noise = \<lambda>_. Some [0, 0, 0, 0], e_evict = Inr []\<rparr>"

definition sample_sc :: "unit subtree_cache_ops" where
  "sample_sc =
    \<lparr>scHasher = None, scNew = (), scSetNodeHash = \<lambda>_ _ _ _. ((), Inr ()), scGetNodes = \<lambda>_ _ _. ((), Inr []),
     scFlush = \<lambda>_. ((), Inr None)\<rparr>"

definition sample_world :: world where
  "sample_world =
    \<lparr>w_db = [(keyS typ_r 5 ''frontier'', []), (keyS typ_r 5 ''root'', Sum256 []), (keyS typ_r 5 ''sig'', [])],
     w_cache = leafCache, w_uploads = []\<rparr>"

definition sample_sequenced :: LogLeaf where
  "sample_sequenced = (sample_leaf [])\<lparr>MerkleLeafHash := Some [4], LeafIdentityHash := Some [9]\<rparr>"

lemma sample_world_wf: "db_wf (w_db sample_world)"
  by (simp add: sample_world_def db_wf_def keyS_eq_keyB ascii_def)

lemma sample_root:
  "MostRecentRoot sample_codec no_faults (w_db sample_world) 5 =
    Inr (\<lparr>TimestampNanos = 0, RootHash = Some (Sum256 []), TreeSize = 32, TreeRevision = 0, KeyHint = Some [5],
          LogRoot = Some (Sum256 []), LogRootSignature = Some []\<rparr>, \<lparr>Roots = []\<rparr>)"
  by (simp add: MostRecentRoot_def snap_Get_def sample_world_def db_get_def keyS_eq_keyB ascii_def sample_codec_def
      in_int64_def length_Sum256)

definition sample_lt :: "fsmState \<Rightarrow> batch_op list option \<Rightarrow> gobytes list \<Rightarrow> bool \<Rightarrow> unit logTreeTX" where
  "sample_lt st ops rs cl =
    \<lparr>remote = \<lparr>bucket = [], url = []\<rparr>, subtreeCache = (), treeID = 5,
     root = \<lparr>TimestampNanos = 0, RootHash = Some (Sum256 []), TreeSize = 32, TreeRevision = 0, KeyHint = Some [5],
             LogRoot = Some (Sum256 []), LogRootSignature = Some []\<rparr>,
     front = \<lparr>Roots = rs\<rparr>, closed = cl, lt_fsm = \<lparr>state = st\<rparr>, localTx = \<lparr>batch = ops\<rparr>, queuedLeaves = False\<rparr>"

lemma sample_begin: "beginForTree sample_sc sample_env sample_world \<lparr>bucket = [], url = []\<rparr> 5 = Inr (sample_lt sBegin (Some []) [] False)"
  using sample_root by (simp add: beginForTree_def sample_sc_def sample_env_def sample_lt_def Local_Begin_def)

lemma sample_emit: "allowed s st \<Longrightarrow> lt_emit (sample_lt s ops rs cl) st = (sample_lt st ops rs cl, None)"
  by (simp add: lt_emit_def sample_lt_def emit_eq)

lemma sample_dequeue:
  "lt_DequeueLeaves sample_env sample_world (sample_lt sBegin (Some []) [] False) 10 100 =
    (sample_world, sample_lt sDequeueLeaves (Some []) [] False, Inr [])"
proof -
  have "db_range (w_db sample_world) (keyB typ_l 5 x) (keyB typ_l 5 y) = []" for x y
    by (simp add: db_range_def sample_world_def keyS_eq_keyB keyB_less_iff valid_tree_def not_less le_less)
  then show ?thesis
    by (simp add: lt_DequeueLeaves_def sample_emit allowed_iff LocalTx_DequeueLeaves_def sample_env_def) (simp add: sample_lt_def)
qed

lemma sample_update:
  obtains w ops where "UpdateSequencedLeaves sample_env sample_world (sample_lt sDequeueLeaves (Some []) [] False) [sample_sequenced] =
    (w, sample_lt sUpdateSequencedLeaves (Some ops) [Some [4]] False, Inr ())" "w_db w = w_db sample_world"
proof -
  have "merge_batch [sample_sequenced] [] = Inr [sample_sequenced]"
    using merge_batch_ok [of "[sample_sequenced]" 1 "[]" "\<lambda>_. sample_sequenced"]
    by (simp add: sample_sequenced_def sample_leaf_def smod_nonneg split: if_splits)
  then have "\<exists>ups. Remote_PutLeaves sample_codec (e_http sample_env) (e_b2 sample_env) id r 5 [sample_sequenced] = (ups, Inr ())" for r
    by (simp add: Remote_PutLeaves_def group_batches_def put_batch_def getBatch_def store_batch_def sample_env_def sample_codec_def Let_def)
  then obtain ups where ups: "Remote_PutLeaves sample_codec (e_http sample_env) (e_b2 sample_env) id \<lparr>bucket = [], url = []\<rparr> 5 [sample_sequenced] = (ups, Inr ())"
    by blast
  have "Append \<lparr>Roots = []\<rparr> (Some [4]) = \<lparr>Roots = [Some [4]]\<rparr>" by (simp add: Append_def Append_loop.simps)
  moreover obtain raw where "PutVarint 8 0 = Inr raw" using PutVarint_8 [of 0] by (auto simp: in_int64_def)
  ultimately have "UpdateSequencedLeaves sample_env sample_world (sample_lt sDequeueLeaves (Some []) [] False) [sample_sequenced] =
      (sample_world\<lparr>w_uploads := ups\<rparr>, sample_lt sUpdateSequencedLeaves
        (Some [BatchPut (keyB typ_m 5 [4]) raw, BatchPut (keyB typ_i 5 [9]) raw]) [Some [4]] False, Inr ())"
    using ups by (simp add: UpdateSequencedLeaves_def sample_emit allowed_iff)
      (simp add: sample_lt_def sample_env_def sample_world_def LocalTx_PutLeaves_def sample_sequenced_def sample_leaf_def)
  with that show thesis by (simp add: sample_world_def)
qed

lemma sample_nodes:
  "SetMerkleNodes sample_sc sample_env w (sample_lt sUpdateSequencedLeaves ops rs False) [] = (w, sample_lt sSetMerkleNodes ops rs False, Inr ())"
  by (simp add: SetMerkleNodes_def sample_emit allowed_iff)

definition sample_sth :: SignedLogRoot where
  "sample_sth = zero_SignedLogRoot\<lparr>RootHash := Some [4], LogRoot := Some [4]\<rparr>"

lemma sample_store:
  "StoreSignedLogRoot sample_env w (sample_lt sSetMerkleNodes (Some ops) [Some [4]] False) sample_sth =
    (w, sample_lt sStoreSignedLogRoot (Some (ops @ root_puts 5 sample_sth [4])) [Some [4]] False, Inr ())"
proof -
  have "LocalTx_StoreRoot sample_codec \<lparr>batch = Some ops\<rparr> 5 sample_sth \<lparr>Roots = [Some [4]]\<rparr> =
      (\<lparr>batch = Some ops\<rparr>\<lparr>batch := Some (ops @ root_puts 5 sample_sth [4])\<rparr>, Inr ())"
    by (rule StoreRoot_effect) (simp_all add: sample_codec_def)
  then show ?thesis
    by (simp add: StoreSignedLogRoot_def sample_emit allowed_iff)
       (simp add: sample_lt_def sample_sth_def bytes_Equal_def Head_def sample_env_def)
qed

lemma sample_commit:
  "lt_Commit sample_sc sample_env w (sample_lt sStoreSignedLogRoot (Some ops) rs False) =
    (w\<lparr>w_db := db_write (w_db w) ops\<rparr>, sample_lt sCommit None rs True, Inr ())"
  by (simp add: lt_Commit_def sample_emit allowed_iff)
     (simp add: sample_lt_def lt_Flush_def sample_sc_def sample_env_def LocalTx_Commit_def)

theorem sequencing_transaction_extends_log_witness:
  "\<exists>w2 ops sth' f'.
     UpdateSequencedLeaves sample_env sample_world (sample_lt sDequeueLeaves (Some []) [] False) [sample_sequenced] =
       (w2, sample_lt sUpdateSequencedLeaves (Some ops) [Some [4]] False, Inr ()) \<and>
     MostRecentRoot sample_codec no_faults (db_write (w_db w2) (ops @ root_puts 5 sample_sth [4])) 5 = Inr (sth', f') \<and>
     frontier_rep f' [[4]] \<and> contents (RootHash sample_sth) = mth [[4]]"
proof -
  obtain w2 ops where upd: "UpdateSequencedLeaves sample_env sample_world (sample_lt sDequeueLeaves (Some []) [] False) [sample_sequenced] =
    (w2, sample_lt sUpdateSequencedLeaves (Some ops) [Some [4]] False, Inr ())" "w_db w2 = w_db sample_world"
    by (rule sample_update)
  let ?v = "\<lparr>V1_TreeSize = 1, V1_RootHash = Some [4], V1_TimestampNanos = 0, V1_Revision = 0, V1_Metadata = None\<rparr>"
  let ?w5 = "w2\<lparr>w_db := db_write (w_db w2) (ops @ root_puts 5 sample_sth [4])\<rparr>"
  have "contents (RootHash sample_sth) = mth ([] @ map (contents \<circ> MerkleLeafHash) [sample_sequenced]) \<and>
    (\<exists>sth' f'. MostRecentRoot sample_codec no_faults (w_db ?w5) 5 = Inr (sth', f') \<and>
       LogRoot sth' = Some (contents (LogRoot sample_sth)) \<and> RootHash sth' = V1_RootHash ?v \<and>
       TreeSize sth' = wrap64 (V1_TreeSize ?v) \<and> TreeRevision sth' = wrap64 (V1_Revision ?v) \<and>
       frontier_rep f' ([] @ map (contents \<circ> MerkleLeafHash) [sample_sequenced]))"
  proof (rule sequencing_transaction_extends_log
      [OF sample_gob _ sample_world_wf _ frontier_rep_empty _ sample_begin sample_dequeue upd(1) _ sample_nodes sample_store _ sample_commit])
    show "MostRecentRoot sample_codec (e_io sample_env) (w_db sample_world) 5 =
        Inr (\<lparr>TimestampNanos = 0, RootHash = Some (Sum256 []), TreeSize = 32, TreeRevision = 0, KeyHint = Some [5],
          LogRoot = Some (Sum256 []), LogRootSignature = Some []\<rparr>, empty_frontier)"
      using sample_root by (simp add: sample_env_def empty_frontier_def)
  qed (simp_all add: sample_env_def valid_tree_def sample_sequenced_def sample_codec_def sample_sth_def)
  then show ?thesis using upd(1) by (auto simp: sample_sequenced_def sample_leaf_def)
qed

text \<open>A first root: the history that initialises a log.\<close>

definition sample_init_sth :: SignedLogRoot where
  "sample_init_sth = zero_SignedLogRoot\<lparr>RootHash := Some (Sum256 []), LogRoot := Some (Sum256 [])\<rparr>"

definition sample_history :: "((nat \<Rightarrow> env) \<times> ls_op) list" where
  "sample_history =
    [(\<lambda>_. sample_env, LBegin 0 \<lparr>bucket = [], url = []\<rparr> 5), (\<lambda>_. sample_env, LStoreSignedLogRoot 0 sample_init_sth),
     (\<lambda>_. sample_env, LCommit 0)]"

definition sample_start :: "unit ls_state" where
  "sample_start = (\<lparr>w_db = [], w_cache = leafCache, w_uploads = []\<rparr>, \<lambda>_. None)"

lemma sample_history_run:
  "\<exists>txs. ls_run sample_sc sample_start sample_history =
    (\<lparr>w_db = db_write [] (root_puts 5 sample_init_sth []), w_cache = leafCache, w_uploads = []\<rparr>, txs)"
proof -
  let ?w = "\<lparr>w_db = [], w_cache = leafCache, w_uploads = []\<rparr>"
  let ?lt = "\<lambda>st ops cl. \<lparr>remote = \<lparr>bucket = [], url = []\<rparr>, subtreeCache = (), treeID = 5, root = zero_SignedLogRoot,
     front = empty_frontier, closed = cl, lt_fsm = \<lparr>state = st\<rparr>, localTx = \<lparr>batch = ops\<rparr>, queuedLeaves = False\<rparr> :: unit logTreeTX"
  have em: "lt_emit (?lt a ops cl) st = (?lt st ops cl, None)" if "allowed a st" for a ops cl st
    using that by (simp add: lt_emit_def emit_eq)
  have bg: "beginForTree sample_sc sample_env ?w \<lparr>bucket = [], url = []\<rparr> 5 = Inr (?lt sBegin (Some []) False)"
    by (simp add: beginForTree_def sample_sc_def sample_env_def MostRecentRoot_def snap_Get_def db_get_def Local_Begin_def)
  have "LocalTx_StoreRoot sample_codec \<lparr>batch = Some []\<rparr> 5 sample_init_sth empty_frontier =
      (\<lparr>batch = Some []\<rparr>\<lparr>batch := Some ([] @ root_puts 5 sample_init_sth [])\<rparr>, Inr ())"
    by (rule StoreRoot_effect) (simp_all add: sample_codec_def empty_frontier_def)
  then have store: "StoreSignedLogRoot sample_env ?w (?lt sBegin (Some []) False) sample_init_sth =
      (?w, ?lt sStoreSignedLogRoot (Some (root_puts 5 sample_init_sth [])) False, Inr ())"
    unfolding StoreSignedLogRoot_def em [of sBegin sStoreSignedLogRoot, simplified allowed_iff, simplified]
    by (simp add: sample_init_sth_def bytes_Equal_def Head_def empty_frontier_def sample_env_def)
  have "lt_Commit sample_sc sample_env ?w (?lt sStoreSignedLogRoot (Some (root_puts 5 sample_init_sth [])) False) =
      (?w\<lparr>w_db := db_write [] (root_puts 5 sample_init_sth [])\<rparr>, ?lt sCommit None True, Inr ())"
    unfolding lt_Commit_def em [of sStoreSignedLogRoot sCommit, simplified allowed_iff, simplified]
    by (simp add: lt_Flush_def sample_sc_def sample_env_def LocalTx_Commit_def)
  with bg store show ?thesis
    by (simp add: ls_run_def sample_history_def sample_start_def on_tx_def)
qed

theorem every_published_root_is_merkle_root_witness:
  "\<exists>w txs sth f hs. ls_run sample_sc sample_start sample_history = (w, txs) \<and>
     MostRecentRoot sample_codec no_faults (w_db w) 5 = Inr (sth, f) \<and> frontier_rep f hs \<and> contents (RootHash sth) = mth hs"
proof -
  obtain txs where run: "ls_run sample_sc sample_start sample_history =
      (\<lparr>w_db = db_write [] (root_puts 5 sample_init_sth []), w_cache = leafCache, w_uploads = []\<rparr>, txs)"
    using sample_history_run by blast
  obtain sth f where read: "MostRecentRoot sample_codec no_faults (db_write [] (root_puts 5 sample_init_sth [])) 5 = Inr (sth, f)"
    by (simp add: MostRecentRoot_def snap_Get_def db_get_write root_puts_effect) (simp add: sample_codec_def)
  have "\<exists>hs. frontier_rep f hs \<and> contents (RootHash sth) = mth hs"
  proof (rule every_published_root_is_merkle_root [OF sample_gob _ run [unfolded sample_start_def]])
    show "\<forall>op \<in> set sample_history. ls_op_ok sample_codec (snd op) \<and> (\<forall>j. e_codec (fst op j) = sample_codec)"
      by (simp add: sample_history_def sample_env_def valid_tree_def sth_sound_def sample_init_sth_def) (simp add: sample_codec_def)
  qed (use read in \<open>simp_all add: valid_tree_def\<close>)
  with run read show ?thesis by auto
qed

end
