(* ===== verification/MerkleProofs.thy ===== *)
theory MerkleProofs
  imports Frontier
begin

text \<open>
  Proof verification as the tester uses it: \<open>LogVerifier\<close> of Trillian's \<open>merkle\<close> package with its hash chainer, over the
  RFC 6962 hasher. The verifier works bottom-up on the bits of the leaf index; the reference recursion descends
  the tree. The theory proves that they compute the same root, that a genuine audit path is accepted, and that an
  accepted proof names the leaf of the log or exhibits a SHA-256 collision.
\<close>

section \<open>The verifier\<close>

fun Len64 :: "nat \<Rightarrow> nat" where
  "Len64 n = (if n = 0 then 0 else Suc (Len64 (n div 2)))"

fun OnesCount64 :: "nat \<Rightarrow> nat" where
  "OnesCount64 n = (if n = 0 then 0 else n mod 2 + OnesCount64 (n div 2))"

declare Len64.simps [simp del] OnesCount64.simps [simp del]

definition innerProofSize :: "nat \<Rightarrow> nat \<Rightarrow> nat" where
  "innerProofSize index sz = Len64 (index XOR (sz - 1))"

definition decompInclProof :: "nat \<Rightarrow> nat \<Rightarrow> nat \<times> nat" where
  "decompInclProof index sz =
    (let inner = innerProofSize index sz; border = OnesCount64 (drop_bit inner index) in (inner, border))"

text \<open>The loop of \<open>chainInner\<close>, at its \<open>i\<close>-th round.\<close>

fun chainInner_loop :: "nat \<Rightarrow> bytes \<Rightarrow> bytes list \<Rightarrow> nat \<Rightarrow> bytes" where
  "chainInner_loop i seed [] index = seed"
| "chainInner_loop i seed (h # proof) index =
    chainInner_loop (Suc i) (if drop_bit i index AND 1 = 0 then node_hash seed h else node_hash h seed) proof index"

definition chainInner :: "bytes \<Rightarrow> bytes list \<Rightarrow> nat \<Rightarrow> bytes" where
  "chainInner seed proof index = chainInner_loop 0 seed proof index"

fun chainInnerRight_loop :: "nat \<Rightarrow> bytes \<Rightarrow> bytes list \<Rightarrow> nat \<Rightarrow> bytes" where
  "chainInnerRight_loop i seed [] index = seed"
| "chainInnerRight_loop i seed (h # proof) index =
    chainInnerRight_loop (Suc i) (if drop_bit i index AND 1 = 1 then node_hash h seed else seed) proof index"

definition chainInnerRight :: "bytes \<Rightarrow> bytes list \<Rightarrow> nat \<Rightarrow> bytes" where
  "chainInnerRight seed proof index = chainInnerRight_loop 0 seed proof index"

fun chainBorderRight :: "bytes \<Rightarrow> bytes list \<Rightarrow> bytes" where
  "chainBorderRight seed [] = seed"
| "chainBorderRight seed (h # proof) = chainBorderRight (node_hash h seed) proof"

definition RootFromInclusionProof :: "int \<Rightarrow> int \<Rightarrow> bytes list \<Rightarrow> bytes \<Rightarrow> bytes result" where
  "RootFromInclusionProof leafIndex treeSize proof leafHash =
    (if leafIndex < 0 then Inl (Errorf ''leafIndex %d < 0'' [ArgInt leafIndex])
     else if treeSize < 0 then Inl (Errorf ''treeSize %d < 0'' [ArgInt treeSize])
     else if leafIndex \<ge> treeSize
     then Inl (Errorf ''leafIndex is beyond treeSize: %d >= %d'' [ArgInt leafIndex, ArgInt treeSize])
     else if length leafHash \<noteq> 32
     then Inl (Errorf ''leafHash has unexpected size %d, want %d'' [ArgInt (int (length leafHash)), ArgInt 32])
     else let (inner, border) = decompInclProof (nat leafIndex) (nat treeSize) in
       if length proof \<noteq> inner + border
       then Inl (Errorf ''wrong proof size %d, want %d'' [ArgInt (int (length proof)), ArgInt (int (inner + border))])
       else Inr (chainBorderRight (chainInner leafHash (take inner proof) (nat leafIndex)) (drop inner proof)))"

definition VerifyInclusionProof :: "int \<Rightarrow> int \<Rightarrow> bytes list \<Rightarrow> bytes \<Rightarrow> bytes \<Rightarrow> unit result" where
  "VerifyInclusionProof leafIndex treeSize proof root leafHash =
    (case RootFromInclusionProof leafIndex treeSize proof leafHash of
       Inl e \<Rightarrow> Inl e
     | Inr calcRoot \<Rightarrow>
         if calcRoot \<noteq> root then Inl (External ''RootMismatchError'') else Inr ())"

fun TrailingZeros64 :: "nat \<Rightarrow> nat" where
  "TrailingZeros64 n = (if n = 0 then 64 else if odd n then 0 else Suc (TrailingZeros64 (n div 2)))"

declare TrailingZeros64.simps [simp del]

definition VerifyConsistencyProof :: "int \<Rightarrow> int \<Rightarrow> bytes \<Rightarrow> bytes \<Rightarrow> bytes list \<Rightarrow> unit result" where
  "VerifyConsistencyProof snapshot1 snapshot2 root1 root2 proof =
    (if snapshot1 < 0 then Inl (Errorf ''snapshot1 (%d) < 0 '' [ArgInt snapshot1])
     else if snapshot2 < snapshot1
     then Inl (Errorf ''snapshot2 (%d) < snapshot1 (%d)'' [ArgInt snapshot1, ArgInt snapshot2])
     else if snapshot1 = snapshot2
     then if root1 \<noteq> root2 then Inl (External ''RootMismatchError'')
          else if length proof > 0 then Inl (External ''root1 and root2 match, but proof is non-empty'')
          else Inr ()
     else if snapshot1 = 0
     then if length proof > 0
          then Inl (Errorf ''expected empty proof, but got %d components'' [ArgInt (int (length proof))])
          else Inr ()
     else if length proof = 0 then Inl (External ''empty proof'')
     else
       let (inner, border) = decompInclProof (nat (snapshot1 - 1)) (nat snapshot2);
           shift = TrailingZeros64 (nat snapshot1);
           inner = inner - shift;
           (seed, start) = (if nat snapshot1 = push_bit shift 1 then (root1, 0) else (hd proof, 1))
       in if length proof \<noteq> start + inner + border
          then Inl (Errorf ''wrong proof size %d, want %d''
            [ArgInt (int (length proof)), ArgInt (int (start + inner + border))])
          else
            let proof = drop start proof;
                blk = drop_bit shift (nat (snapshot1 - 1));
                hash1 = chainBorderRight (chainInnerRight seed (take inner proof) blk) (drop inner proof);
                hash2 = chainBorderRight (chainInner seed (take inner proof) blk) (drop inner proof)
            in if hash1 \<noteq> root1 then Inl (External ''RootMismatchError'')
               else if hash2 \<noteq> root2 then Inl (External ''RootMismatchError'')
               else Inr ())"

section \<open>Bits\<close>

lemma Len64_0 [simp]: "Len64 0 = 0"
  by (simp add: Len64.simps)

lemma Len64_pos: "0 < n \<Longrightarrow> Len64 n = Suc (Len64 (n div 2))"
  by (simp add: Len64.simps)

lemma Len64_le_iff: "Len64 n \<le> i \<longleftrightarrow> n < 2 ^ i"
proof (induction i arbitrary: n)
  case 0
  then show ?case by (cases "n = 0") (simp_all add: Len64_pos)
next
  case (Suc i)
  have "n div 2 < 2 ^ i \<longleftrightarrow> n < 2 ^ Suc i" by auto
  then show ?case using Suc [of "n div 2"] by (cases "n = 0") (simp_all add: Len64_pos)
qed

lemma Len64_eq: "2 ^ i \<le> n \<Longrightarrow> n < 2 ^ Suc i \<Longrightarrow> Len64 n = Suc i"
  by (metis Len64_le_iff linorder_not_le le_SucE)

lemma OnesCount64_0 [simp]: "OnesCount64 0 = 0"
  by (simp add: OnesCount64.simps)

lemma OnesCount64_top: "m < 2 ^ i \<Longrightarrow> OnesCount64 (2 ^ i + m) = Suc (OnesCount64 m)"
proof (induction i arbitrary: m)
  case 0
  then show ?case by (simp add: OnesCount64.simps [of "Suc 0"])
next
  case (Suc i)
  have "OnesCount64 (2 ^ Suc i + m) = m mod 2 + OnesCount64 (2 ^ i + m div 2)"
    by (subst OnesCount64.simps) (simp add: add.commute)
  also have "\<dots> = Suc (m mod 2 + OnesCount64 (m div 2))" using Suc by (simp add: less_mult_imp_div_less)
  also have "m mod 2 + OnesCount64 (m div 2) = OnesCount64 m" by (subst (2) OnesCount64.simps) simp
  finally show ?case .
qed

lemma not_bit_above: "m < 2 ^ i \<Longrightarrow> i \<le> j \<Longrightarrow> \<not> bit (m :: nat) j"
  by (metis bit_take_bit_iff linorder_not_le take_bit_nat_eq_self)

lemma bit_top_add:
  assumes "m < 2 ^ i"
  shows "bit (2 ^ i + m :: nat) j \<longleftrightarrow> j = i \<or> bit m j"
proof -
  have "2 ^ i + m = 2 ^ i OR m"
    using not_bit_above [OF assms] by (intro disjunctive_add) (auto simp: bit_exp_iff)
  then show ?thesis by (auto simp: bit_or_iff bit_exp_iff)
qed

lemma xor_tops: "m < 2 ^ i \<Longrightarrow> n < 2 ^ i \<Longrightarrow> (2 ^ i + m) XOR (2 ^ i + n) = m XOR (n :: nat)"
  using not_bit_above [of m i i] not_bit_above [of n i i]
  by (intro bit_eqI) (auto simp: bit_xor_iff bit_top_add)

lemma xor_less: "m < 2 ^ i \<Longrightarrow> n < 2 ^ i \<Longrightarrow> m XOR n < (2 :: nat) ^ i"
  by (metis take_bit_nat_eq_self_iff take_bit_xor)

lemma xor_top_only:
  assumes "m < 2 ^ i" "n < 2 ^ i"
  shows "m XOR (2 ^ i + n) = 2 ^ i + (m XOR (n :: nat))"
  using not_bit_above [OF assms(1), of i] not_bit_above [OF assms(2), of i]
  by (intro bit_eqI) (auto simp: bit_xor_iff bit_top_add assms xor_less)

section \<open>Which part of a proof is inner\<close>

text \<open>Left of the split every sibling is a right sibling at the top; right of it the top sibling is a border node.\<close>

lemma decomp_left:
  assumes "m < 2 ^ i" "2 ^ i < n" "n \<le> 2 ^ Suc i"
  shows "decompInclProof m n = (Suc i, 0)"
proof -
  obtain n' where n': "n - 1 = 2 ^ i + n'" "n' < 2 ^ i"
    using assms by (intro that [of "n - 1 - 2 ^ i"]) auto
  have "innerProofSize m n = Suc i"
    unfolding innerProofSize_def n'(1) xor_top_only [OF assms(1) n'(2)]
    using xor_less [OF assms(1) n'(2)] by (intro Len64_eq) auto
  moreover have "drop_bit (Suc i) m = 0" using assms(1) by (simp add: drop_bit_eq_div)
  ultimately show ?thesis by (simp add: decompInclProof_def Let_def)
qed

lemma decomp_right:
  assumes "m < n" "n \<le> 2 ^ i"
  shows "decompInclProof (2 ^ i + m) (2 ^ i + n) =
    (fst (decompInclProof m n), Suc (snd (decompInclProof m n)))" "fst (decompInclProof m n) \<le> i"
proof -
  have lt: "m < 2 ^ i" "n - 1 < 2 ^ i" using assms by auto
  have "2 ^ i + n - 1 = 2 ^ i + (n - 1)" using assms(1) by simp
  then have inner: "innerProofSize (2 ^ i + m) (2 ^ i + n) = innerProofSize m n"
    unfolding innerProofSize_def by (simp only: xor_tops [OF lt])
  have le: "innerProofSize m n \<le> i"
    unfolding innerProofSize_def Len64_le_iff by (rule xor_less [OF lt])
  then obtain k where k: "i = innerProofSize m n + k" using le_Suc_ex by blast
  have "drop_bit (innerProofSize m n) (2 ^ i + m) = 2 ^ k + drop_bit (innerProofSize m n) m"
    by (simp add: drop_bit_eq_div k power_add)
  moreover have "drop_bit (innerProofSize m n) m < 2 ^ k"
    using lt(1) by (simp add: drop_bit_eq_div k power_add less_mult_imp_div_less mult.commute)
  ultimately show "decompInclProof (2 ^ i + m) (2 ^ i + n) =
      (fst (decompInclProof m n), Suc (snd (decompInclProof m n)))"
    by (simp add: decompInclProof_def Let_def inner OnesCount64_top)
  show "fst (decompInclProof m n) \<le> i" using le by (simp add: decompInclProof_def Let_def)
qed


lemma decomp_perfect: "m < 2 ^ i \<Longrightarrow> fst (decompInclProof m (2 ^ i)) + snd (decompInclProof m (2 ^ i)) = i"
proof (induction i arbitrary: m)
  case 0
  then show ?case by (simp add: decompInclProof_def innerProofSize_def)
next
  case (Suc i)
  show ?case
  proof (cases "m < 2 ^ i")
    case True
    then show ?thesis using decomp_left [of m i "2 ^ Suc i"] by simp
  next
    case False
    then obtain m' where m': "m = 2 ^ i + m'" "m' < 2 ^ i"
      using Suc.prems by (intro that [of "m - 2 ^ i"]) auto
    have two: "(2 :: nat) ^ Suc i = 2 ^ i + 2 ^ i" by simp
    show ?thesis using decomp_right(1) [OF m'(2) order_refl] Suc.IH [OF m'(2)] unfolding m'(1) two by simp
  qed
qed

section \<open>The verifier follows the recursion of the tree\<close>

text \<open>
  The value that a leaf hash and a path (leaf end first) lead to, by the recursion of RFC 6962. What is done with a
  right sibling is a parameter: hashing it in gives the root of the whole tree, leaving it out gives the root of the
  tree that ends at the leaf.
\<close>

function path_fold :: "(bytes \<Rightarrow> bytes \<Rightarrow> bytes) \<Rightarrow> nat \<Rightarrow> nat \<Rightarrow> bytes \<Rightarrow> bytes list \<Rightarrow> bytes" where
  "path_fold rt m n seed p =
    (if n \<le> 1 then seed
     else let k = split_point n
          in if m < k then rt (path_fold rt m k seed (butlast p)) (last p)
             else node_hash (last p) (path_fold rt (m - k) (n - k) seed (butlast p)))"
  by pat_completeness auto
termination
  by (relation "measure (\<lambda>(rt, m, n, seed, p). n)") (auto simp: split_point_bounds intro: diff_less)

declare path_fold.simps [simp del]

abbreviation path_root :: "nat \<Rightarrow> nat \<Rightarrow> bytes \<Rightarrow> bytes list \<Rightarrow> bytes" where
  "path_root \<equiv> path_fold node_hash"

abbreviation prefix_root :: "nat \<Rightarrow> nat \<Rightarrow> bytes \<Rightarrow> bytes list \<Rightarrow> bytes" where
  "prefix_root \<equiv> path_fold (\<lambda>s h. s)"

lemma path_fold_1 [simp]: "path_fold rt m (Suc 0) seed p = seed"
  by (simp add: path_fold.simps)

lemma path_fold_split:
  assumes "2 ^ i < n" "n \<le> 2 ^ Suc i"
  shows "path_fold rt m n seed (p @ [h]) =
    (if m < 2 ^ i then rt (path_fold rt m (2 ^ i) seed p) h else node_hash h (path_fold rt (m - 2 ^ i) (n - 2 ^ i) seed p))"
proof -
  have "1 < n" using assms(1) by (metis le_less_trans one_le_numeral one_le_power)
  then show ?thesis using split_point_eq [OF assms] by (subst path_fold.simps) (simp add: Let_def)
qed

text \<open>The two loops of the chainer are one, up to the treatment of right siblings.\<close>

fun chain_loop :: "(bytes \<Rightarrow> bytes \<Rightarrow> bytes) \<Rightarrow> nat \<Rightarrow> bytes \<Rightarrow> bytes list \<Rightarrow> nat \<Rightarrow> bytes" where
  "chain_loop rt i seed [] m = seed"
| "chain_loop rt i seed (h # p) m = chain_loop rt (Suc i) (if bit m i then node_hash h seed else rt seed h) p m"

lemma low_bit: "drop_bit i m mod 2 = (0 :: nat) \<longleftrightarrow> \<not> bit m i" "drop_bit i m mod 2 = Suc 0 \<longleftrightarrow> bit m i"
  by (simp_all add: bit_iff_odd_drop_bit odd_iff_mod_2_eq_one even_iff_mod_2_eq_zero)

lemma chainInner_chain: "chainInner seed p m = chain_loop node_hash 0 seed p m"
proof -
  have "chainInner_loop i seed p m = chain_loop node_hash i seed p m" for i
    by (induction p arbitrary: i seed) (simp_all add: low_bit)
  then show ?thesis by (simp add: chainInner_def)
qed

lemma chainInnerRight_chain: "chainInnerRight seed p m = chain_loop (\<lambda>s h. s) 0 seed p m"
proof -
  have "chainInnerRight_loop i seed p m = chain_loop (\<lambda>s h. s) i seed p m" for i
    by (induction p arbitrary: i seed) (simp_all add: low_bit)
  then show ?thesis by (simp add: chainInnerRight_def)
qed

lemma chain_loop_snoc:
  "chain_loop rt i seed (q @ [h]) m =
    (if bit m (i + length q) then node_hash h (chain_loop rt i seed q m) else rt (chain_loop rt i seed q m) h)"
  by (induction q arbitrary: i seed) simp_all

lemma chain_loop_top:
  "m < 2 ^ i \<Longrightarrow> length q \<le> i \<Longrightarrow> chain_loop rt 0 seed q (2 ^ i + m) = chain_loop rt 0 seed q m"
proof (induction q rule: rev_induct)
  case Nil
  then show ?case by simp
next
  case (snoc h q)
  then show ?case by (simp add: chain_loop_snoc bit_top_add)
qed

lemma chainBorderRight_snoc [simp]: "chainBorderRight seed (q @ [h]) = node_hash h (chainBorderRight seed q)"
  by (induction q arbitrary: seed) auto

lemma path_fold_perfect: "m < 2 ^ i \<Longrightarrow> length p = i \<Longrightarrow> path_fold rt m (2 ^ i) seed p = chain_loop rt 0 seed p m"
proof (induction i arbitrary: m p)
  case 0
  then show ?case by simp
next
  case (Suc i)
  from Suc.prems(2) obtain q h where p: "p = q @ [h]" "length q = i"
    by (metis length_Suc_conv_rev)
  have split: "path_fold rt m (2 ^ Suc i) seed p =
      (if m < 2 ^ i then rt (path_fold rt m (2 ^ i) seed q) h else node_hash h (path_fold rt (m - 2 ^ i) (2 ^ i) seed q))"
    unfolding p(1) using path_fold_split [of i "2 ^ Suc i" rt m seed q h] by simp
  show ?case
  proof (cases "m < 2 ^ i")
    case True
    then have "\<not> bit m i" by (simp add: not_bit_above)
    with True Suc.IH p split show ?thesis by (simp add: chain_loop_snoc)
  next
    case False
    then obtain m' where m': "m = 2 ^ i + m'" "m' < 2 ^ i"
      using Suc.prems(1) by (intro that [of "m - 2 ^ i"]) auto
    then have "bit m i" by (simp add: bit_top_add)
    then show ?thesis using split Suc.IH [OF m'(2) p(2)] p(2) m' by (simp add: p(1) chain_loop_snoc chain_loop_top)
  qed
qed

lemma chain_is_path_fold:
  assumes "m < n" "decompInclProof m n = (a, b)" "length p = a + b"
  shows "chainBorderRight (chain_loop rt 0 seed (take a p) m) (drop a p) = path_fold rt m n seed p"
  using assms
proof (induction n arbitrary: m p a b rule: less_induct)
  case (less n)
  show ?case
  proof (cases "n = 1")
    case True
    then have "a = 0" "b = 0" using less.prems(1,2) by (auto simp: decompInclProof_def innerProofSize_def)
    then show ?thesis using less.prems True by simp
  next
    case False
    then obtain i where i: "2 ^ i < n" "n \<le> 2 ^ Suc i" using pow2_interval [of n] less.prems(1) by auto
    show ?thesis
    proof (cases "m < 2 ^ i")
      case True
      have d: "a = Suc i" "b = 0" using decomp_left [OF True i] less.prems(2) by auto
      then obtain q h where p: "p = q @ [h]" "length q = i" using less.prems(3) by (metis add.right_neutral length_Suc_conv_rev)
      have "\<not> bit m i" using True by (simp add: not_bit_above)
      then show ?thesis
        using True by (simp add: d p path_fold_split [OF i] chain_loop_snoc path_fold_perfect)
    next
      case False
      define m' n' where mn: "m' = m - 2 ^ i" "n' = n - 2 ^ i"
      have m: "m = 2 ^ i + m'" "n = 2 ^ i + n'" "m' < n'" "n' \<le> 2 ^ i" using False i less.prems(1) by (auto simp: mn)
      obtain b' where ab: "decompInclProof m' n' = (a, b')" "b = Suc b'" "a \<le> i"
        using decomp_right [OF m(3,4)] less.prems(2) m(1,2) by (cases "decompInclProof m' n'") auto
      then obtain q h where p: "p = q @ [h]" "length q = a + b'" using less.prems(3) by (metis add_Suc_right length_Suc_conv_rev)
      have "n' < n" using m(2) by simp
      then have IH: "chainBorderRight (chain_loop rt 0 seed (take a q) m') (drop a q) = path_fold rt m' n' seed q"
        using less.IH m(3) ab(1) p(2) by blast
      have "chain_loop rt 0 seed (take a q) m = chain_loop rt 0 seed (take a q) m'"
        unfolding m(1) using m(3,4) ab(3) by (intro chain_loop_top) auto
      with IH show ?thesis
        using False p by (simp add: path_fold_split [OF i] mn)
    qed
  qed
qed

section \<open>Accepted proofs\<close>

lemma length_node_hash [simp]: "length (node_hash l r) = 32"
  by (simp add: node_hash_def)

lemma length_path_root: "length seed = 32 \<Longrightarrow> length (path_root m n seed p) = 32"
  by (subst path_fold.simps) (simp add: Let_def)

lemma length_mth: "list_all (\<lambda>h. length h = 32) hs \<Longrightarrow> length (mth hs) = 32"
  by (subst mth.simps) (auto simp: neq_Nil_conv)

lemma mth_split:
  "1 < length hs \<Longrightarrow>
    mth hs = node_hash (mth (take (split_point (length hs)) hs)) (mth (drop (split_point (length hs)) hs))"
  by (subst mth.simps) auto

lemma VerifyInclusionProof_iff:
  "VerifyInclusionProof index sz p root seed = Inr () \<longleftrightarrow>
    0 \<le> index \<and> index < sz \<and> length seed = 32 \<and>
    length p = fst (decompInclProof (nat index) (nat sz)) + snd (decompInclProof (nat index) (nat sz)) \<and>
    path_root (nat index) (nat sz) seed p = root"
proof -
  obtain a b where d: "decompInclProof (nat index) (nat sz) = (a, b)" by (rule prod.exhaust)
  show ?thesis
    using chain_is_path_fold [OF _ d, of p node_hash seed]
    by (auto simp: VerifyInclusionProof_def RootFromInclusionProof_def chainInner_chain d)
qed

text \<open>The audit path of RFC 6962, section 2.1.1, leaf end first.\<close>

function audit_path :: "nat \<Rightarrow> bytes list \<Rightarrow> bytes list" where
  "audit_path m hs =
    (if length hs \<le> 1 then []
     else let k = split_point (length hs)
          in if m < k then audit_path m (take k hs) @ [mth (drop k hs)]
             else audit_path (m - k) (drop k hs) @ [mth (take k hs)])"
  by pat_completeness auto
termination
  by (relation "measure (\<lambda>(m, hs). length hs)") (auto simp: split_point_bounds min_def not_le intro: diff_less)

declare audit_path.simps [simp del]

lemma path_root_audit_path: "m < length hs \<Longrightarrow> path_root m (length hs) (hs ! m) (audit_path m hs) = mth hs"
proof (induction m hs rule: audit_path.induct)
  case (1 m hs)
  let ?k = "split_point (length hs)"
  show ?case
  proof (cases "length hs \<le> 1")
    case True
    with "1.prems" obtain h where "hs = [h]" "m = 0" by (cases hs) auto
    then show ?thesis by simp
  next
    case False
    then have len: "1 < length hs" by simp
    note k = split_point_bounds [OF len]
    show ?thesis
    proof (cases "m < ?k")
      case True
      then have "path_root m ?k (hs ! m) (audit_path m (take ?k hs)) = mth (take ?k hs)"
        using "1.IH"(1) [OF False refl True] k by (simp add: min_def)
      then show ?thesis
        using True False len by (simp add: audit_path.simps [of m hs] path_fold.simps [of node_hash m "length hs"] Let_def mth_split [OF len])
    next
      case ge: False
      then have "path_root (m - ?k) (length hs - ?k) (hs ! m) (audit_path (m - ?k) (drop ?k hs)) = mth (drop ?k hs)"
        using "1.IH"(2) [OF False refl ge] "1.prems" by simp
      then show ?thesis
        using ge False len by (simp add: audit_path.simps [of m hs] path_fold.simps [of node_hash m "length hs"] Let_def mth_split [OF len])
    qed
  qed
qed

lemma length_audit_path:
  "m < length hs \<Longrightarrow>
    length (audit_path m hs) = fst (decompInclProof m (length hs)) + snd (decompInclProof m (length hs))"
proof (induction m hs rule: audit_path.induct)
  case (1 m hs)
  let ?n = "length hs" and ?k = "split_point (length hs)"
  show ?case
  proof (cases "?n \<le> 1")
    case True
    with "1.prems" have "?n = Suc 0" "m = 0" by auto
    then show ?thesis by (simp add: audit_path.simps decompInclProof_def innerProofSize_def)
  next
    case False
    then obtain i where i: "2 ^ i < ?n" "?n \<le> 2 ^ Suc i" using pow2_interval [of ?n] by auto
    have k: "?k = 2 ^ i" by (rule split_point_eq [OF i])
    show ?thesis
    proof (cases "m < ?k")
      case True
      have "length (audit_path m (take ?k hs)) = fst (decompInclProof m (2 ^ i)) + snd (decompInclProof m (2 ^ i))"
        using "1.IH"(1) [OF False refl True] True i(1) by (simp add: k)
      then show ?thesis
        using True False decomp_left [OF True [unfolded k] i] decomp_perfect [OF True [unfolded k]]
        by (simp add: audit_path.simps [of m hs] Let_def k)
    next
      case ge: False
      define m' n' where mn: "m' = m - 2 ^ i" "n' = ?n - 2 ^ i"
      have m: "m = 2 ^ i + m'" "?n = 2 ^ i + n'" "m' < n'" "n' \<le> 2 ^ i" using ge i "1.prems" by (auto simp: mn k)
      have "length (audit_path m' (drop ?k hs)) = fst (decompInclProof m' n') + snd (decompInclProof m' n')"
        using "1.IH"(2) [OF False refl ge] m(3) by (simp add: mn k)
      moreover have "audit_path m hs = audit_path m' (drop ?k hs) @ [mth (take ?k hs)]"
        using False ge unfolding mn k by (subst audit_path.simps) (simp add: k Let_def)
      moreover have "decompInclProof m ?n = (fst (decompInclProof m' n'), Suc (snd (decompInclProof m' n')))"
        using decomp_right(1) [OF m(3,4)] by (simp only: m(1,2))
      ultimately show ?thesis by simp
    qed
  qed
qed


text \<open>
  What is fed to SHA-256 at the root of a claimed path, and the search, from the root down, for the first place where
  a claimed path differs from the tree of the log. The search computes the two inputs of the hash there.
\<close>

definition claimed_preimage :: "nat \<Rightarrow> nat \<Rightarrow> bytes \<Rightarrow> bytes list \<Rightarrow> bytes" where
  "claimed_preimage m n seed p =
    (let k = split_point n
     in if m < k then 1 # path_root m k seed (butlast p) @ last p
        else 1 # last p @ path_root (m - k) (n - k) seed (butlast p))"

definition tree_preimage :: "bytes list \<Rightarrow> bytes" where
  "tree_preimage hs =
    (let k = split_point (length hs) in 1 # mth (take k hs) @ mth (drop k hs))"

function path_collision :: "nat \<Rightarrow> bytes list \<Rightarrow> bytes \<Rightarrow> bytes list \<Rightarrow> (bytes \<times> bytes) option" where
  "path_collision m hs seed p =
    (if length hs \<le> 1 then None
     else if claimed_preimage m (length hs) seed p \<noteq> tree_preimage hs
     then Some (claimed_preimage m (length hs) seed p, tree_preimage hs)
     else let k = split_point (length hs)
          in if m < k then path_collision m (take k hs) seed (butlast p)
             else path_collision (m - k) (drop k hs) seed (butlast p))"
  by pat_completeness auto
termination
  by (relation "measure (\<lambda>(m, hs, seed, p). length hs)") (auto simp: split_point_bounds min_def not_le intro: diff_less)

declare path_collision.simps [simp del]

lemma Sum256_claimed_preimage: "1 < n \<Longrightarrow> Sum256 (claimed_preimage m n seed p) = path_root m n seed p"
  by (subst path_fold.simps) (simp add: claimed_preimage_def Let_def node_hash_def)

lemma Sum256_tree_preimage: "1 < length hs \<Longrightarrow> Sum256 (tree_preimage hs) = mth hs"
  by (simp add: mth_split tree_preimage_def Let_def node_hash_def)

lemma mth_take_split:
  assumes "1 < length hs" "split_point (length hs) \<le> m" "m < length hs"
  shows "node_hash (mth (take (split_point (length hs)) hs))
      (mth (take (Suc (m - split_point (length hs))) (drop (split_point (length hs)) hs))) = mth (take (Suc m) hs)"
proof -
  let ?k = "split_point (length hs)"
  obtain i where i: "2 ^ i < length hs" "length hs \<le> 2 ^ Suc i" using pow2_interval [OF assms(1)] by blast
  have k: "?k = 2 ^ i" by (rule split_point_eq [OF i])
  have "take (Suc m) hs = take ?k hs @ take (Suc (m - ?k)) (drop ?k hs)"
    using assms(2) by (simp add: Suc_diff_le flip: take_add)
  moreover have "length (take ?k hs) = 2 ^ i" using i k by simp
  moreover have "take (Suc (m - ?k)) (drop ?k hs) \<noteq> []" using assms(2,3) by simp
  moreover have "length (take (Suc (m - ?k)) (drop ?k hs)) \<le> 2 ^ i" using i k by simp
  ultimately show ?thesis by (metis mth_append_pow2)
qed

lemma path_root_binding:
  assumes "m < length hs" "list_all (\<lambda>h. length h = 32) hs" "length seed = 32" "path_root m (length hs) seed p = mth hs"
  shows "case path_collision m hs seed p of
      None \<Rightarrow> seed = hs ! m \<and> prefix_root m (length hs) seed p = mth (take (Suc m) hs)
    | Some c \<Rightarrow> collision c"
  using assms
proof (induction m hs seed p rule: path_collision.induct)
  case (1 m hs seed p)
  let ?n = "length hs" and ?k = "split_point (length hs)"
  show ?case
  proof (cases "?n \<le> 1")
    case True
    with "1.prems"(1) obtain h where "hs = [h]" "m = 0" by (cases hs) auto
    then show ?thesis using "1.prems"(4) by (simp add: path_collision.simps)
  next
    case False
    then have n: "1 < ?n" by simp
    note k = split_point_bounds [OF n]
    have len: "list_all (\<lambda>h. length h = 32) (take ?k hs)" "list_all (\<lambda>h. length h = 32) (drop ?k hs)"
      using "1.prems"(2) by (metis append_take_drop_id list_all_append)+
    show ?thesis
    proof (cases "claimed_preimage m ?n seed p = tree_preimage hs")
      case differ: False
      then have "collision (claimed_preimage m ?n seed p, tree_preimage hs)"
        using "1.prems"(4) n by (simp add: collision_def Sum256_claimed_preimage Sum256_tree_preimage)
      then show ?thesis using differ n by (simp add: path_collision.simps [of m hs])
    next
      case same: True
      show ?thesis
      proof (cases "m < ?k")
        case True
        have "path_root m ?k seed (butlast p) = mth (take ?k hs)"
          using same True length_path_root [OF "1.prems"(3)] length_mth [OF len(1)]
          by (simp add: claimed_preimage_def tree_preimage_def Let_def)
        moreover have "path_collision m hs seed p = path_collision m (take ?k hs) seed (butlast p)"
          using False same True by (subst path_collision.simps) (simp add: Let_def)
        moreover have "prefix_root m ?n seed p = prefix_root m ?k seed (butlast p)"
          using True n by (subst path_fold.simps) (simp add: Let_def)
        ultimately show ?thesis
          using "1.IH"(1) [OF False _ refl True] True len(1) same "1.prems"(3) k
          by (auto simp: min_absorb1 min_absorb2 split: option.splits)
      next
        case ge: False
        have sub: "path_root (m - ?k) (?n - ?k) seed (butlast p) = mth (drop ?k hs)" "last p = mth (take ?k hs)"
          using same ge length_path_root [OF "1.prems"(3)] length_mth [OF len(2)]
          by (simp_all add: claimed_preimage_def tree_preimage_def Let_def)
        have "m - ?k < ?n - ?k" using ge "1.prems"(1) by (simp add: diff_less_mono)
        with sub have IH: "case path_collision (m - ?k) (drop ?k hs) seed (butlast p) of
            None \<Rightarrow> seed = hs ! m \<and> prefix_root (m - ?k) (?n - ?k) seed (butlast p) = mth (take (Suc (m - ?k)) (drop ?k hs))
          | Some c \<Rightarrow> collision c"
          using "1.IH"(2) [OF False _ refl ge] ge len(2) same "1.prems"(1,3) by (auto split: option.splits)
        have "path_collision m hs seed p = path_collision (m - ?k) (drop ?k hs) seed (butlast p)"
          using False same ge by (subst path_collision.simps) (simp add: Let_def)
        moreover have "prefix_root m ?n seed p = node_hash (mth (take ?k hs)) (prefix_root (m - ?k) (?n - ?k) seed (butlast p))"
          using ge n sub(2) by (subst path_fold.simps) (simp add: Let_def)
        moreover have "node_hash (mth (take ?k hs)) (mth (take (Suc (m - ?k)) (drop ?k hs))) = mth (take (Suc m) hs)"
          using "1.prems"(1) ge by (intro mth_take_split [OF n]) auto
        ultimately show ?thesis
          using IH by (cases "path_collision (m - ?k) (drop ?k hs) seed (butlast p)") auto
      qed
    qed
  qed
qed

text \<open>
  The verifier accepts the audit path of RFC 6962 for a leaf of the log against the log's head, and whatever it accepts
  against that head is a hash of the log at that index, unless the search exhibits a collision.
\<close>

theorem VerifyInclusionProof_complete:
  assumes "m < length hs" "list_all (\<lambda>h. length h = 32) hs"
  shows "VerifyInclusionProof (int m) (int (length hs)) (audit_path m hs) (mth hs) (hs ! m) = Inr ()"
  using assms by (simp add: VerifyInclusionProof_iff path_root_audit_path length_audit_path list_all_length)

theorem VerifyInclusionProof_sound:
  assumes "list_all (\<lambda>h. length h = 32) hs" "VerifyInclusionProof index (int (length hs)) p (mth hs) seed = Inr ()"
  shows "0 \<le> index \<and> nat index < length hs \<and>
    (case path_collision (nat index) hs seed p of None \<Rightarrow> seed = hs ! nat index | Some c \<Rightarrow> collision c)"
  using assms path_root_binding [of "nat index" hs seed p] by (auto simp: VerifyInclusionProof_iff split: option.splits)


section \<open>Trees of blocks\<close>

text \<open>
  A tree can be read as a tree over the heads of blocks of \<open>2 ^ s\<close> leaves, the last block possibly shorter. A consistency
  proof is, from the level of its seed upwards, an inclusion proof in such a tree.
\<close>

function chunks :: "nat \<Rightarrow> 'a list \<Rightarrow> 'a list list" where
  "chunks b hs = (if hs = [] \<or> b = 0 then [] else take b hs # chunks b (drop b hs))"
  by pat_completeness auto
termination
  by (relation "measure (\<lambda>(b, hs). length hs)") auto

declare chunks.simps [simp del]

lemma chunks_Nil [simp]: "chunks b [] = []"
  by (simp add: chunks.simps)

lemma chunks_append: "0 < b \<Longrightarrow> length xs = c * b \<Longrightarrow> chunks b (xs @ ys) = chunks b xs @ chunks b ys"
proof (induction c arbitrary: xs)
  case 0
  then show ?case by simp
next
  case (Suc c)
  then have xs: "xs \<noteq> []" "b \<le> length xs" "length (drop b xs) = c * b" by auto
  then show ?case using Suc.IH [OF Suc.prems(1) xs(3)] Suc.prems(1) by (simp add: chunks.simps [of b "xs @ ys"] chunks.simps [of b xs])
qed

lemma length_chunks_mult: "0 < b \<Longrightarrow> length xs = c * b \<Longrightarrow> length (chunks b xs) = c"
proof (induction c arbitrary: xs)
  case 0
  then show ?case by simp
next
  case (Suc c)
  then have xs: "xs \<noteq> []" "length (drop b xs) = c * b" by auto
  then show ?case using Suc.IH [OF Suc.prems(1) xs(2)] Suc.prems(1) by (simp add: chunks.simps [of b xs])
qed

lemma chunks_short: "0 < b \<Longrightarrow> hs \<noteq> [] \<Longrightarrow> length hs \<le> b \<Longrightarrow> chunks b hs = [hs]"
  by (subst chunks.simps) simp

lemma length_chunks: "0 < b \<Longrightarrow> hs \<noteq> [] \<Longrightarrow> length (chunks b hs) = Suc ((length hs - 1) div b)"
proof (induction "length hs" arbitrary: hs rule: less_induct)
  case less
  show ?case
  proof (cases "length hs \<le> b")
    case True
    then show ?thesis using less.prems by (simp add: chunks_short)
  next
    case False
    then have ne: "drop b hs \<noteq> []" by simp
    have "length (chunks b (drop b hs)) = Suc ((length hs - b - 1) div b)"
      using less.hyps [of "drop b hs"] less.prems ne by simp
    moreover have "(length hs - 1) div b = Suc ((length hs - b - 1) div b)"
    proof -
      have eq: "length hs - 1 = b + (length hs - b - 1)" using False by simp
      show ?thesis unfolding eq using less.prems(1) by (subst div_add_self1) simp_all
    qed
    ultimately show ?thesis using less.prems by (simp add: chunks.simps [of b hs])
  qed
qed

lemma mth_chunks: "hs \<noteq> [] \<Longrightarrow> mth (map mth (chunks (2 ^ s) hs)) = mth hs"
proof (induction "length hs" arbitrary: hs rule: less_induct)
  case less
  show ?case
  proof (cases "length hs \<le> 2 ^ s")
    case True
    then show ?thesis using less.prems by (simp add: chunks_short)
  next
    case False
    then have "1 < length hs" by (metis le_less_trans not_le one_le_numeral one_le_power)
    then obtain i where i: "2 ^ i < length hs" "length hs \<le> 2 ^ Suc i" using pow2_interval by blast
    then have "s \<le> i" using False by (metis not_le not_less_eq_eq order.trans power_increasing one_le_numeral)
    then obtain k where k: "i = k + s" by (metis add.commute le_Suc_ex)
    define xs ys where xy: "xs = take (2 ^ i) hs" "ys = drop (2 ^ i) hs"
    have hs: "hs = xs @ ys" "length xs = 2 ^ i" "ys \<noteq> []" "length ys \<le> 2 ^ i" "xs \<noteq> []"
      using i by (auto simp: xy)
    have ch: "chunks (2 ^ s) hs = chunks (2 ^ s) xs @ chunks (2 ^ s) ys"
      unfolding hs(1) by (rule chunks_append [of _ _ "2 ^ k"]) (simp_all add: hs(2) k power_add)
    have len: "length (chunks (2 ^ s) xs) = 2 ^ k" "length (chunks (2 ^ s) ys) \<le> 2 ^ k"
    proof -
      show "length (chunks (2 ^ s) xs) = 2 ^ k" by (rule length_chunks_mult) (simp_all add: hs(2) k power_add)
      have "(length ys - 1) div 2 ^ s < 2 ^ k"
        using hs(3,4) k by (intro less_mult_imp_div_less) (cases ys, simp_all add: power_add)
      then show "length (chunks (2 ^ s) ys) \<le> 2 ^ k" by (simp add: length_chunks hs)
    qed
    have "map mth (chunks (2 ^ s) ys) \<noteq> []" using hs(3) by (subst chunks.simps) simp
    then have "mth (map mth (chunks (2 ^ s) hs)) = node_hash (mth (map mth (chunks (2 ^ s) xs))) (mth (map mth (chunks (2 ^ s) ys)))"
      unfolding ch map_append using len by (intro mth_append_pow2 [of _ k]) simp_all
    also have "\<dots> = node_hash (mth xs) (mth ys)"
      using less.hyps [of xs] less.hyps [of ys] hs(1,3,5) by simp
    also have "\<dots> = mth hs" unfolding hs(1) by (rule mth_append_pow2 [OF hs(2-4), symmetric])
    finally show ?thesis .
  qed
qed


lemma list_all_length_chunks:
  assumes "list_all (\<lambda>h. length h = 32) hs"
  shows "list_all (\<lambda>h. length h = 32) (map mth (chunks b hs))"
  using assms
proof (induction b hs rule: chunks.induct)
  case (1 b hs)
  have "list_all (\<lambda>h. length h = 32) (take b hs)" "list_all (\<lambda>h. length h = 32) (drop b hs)"
    using "1.prems" by (metis append_take_drop_id list_all_append)+
  then show ?case using "1.IH" by (subst chunks.simps) (simp add: length_mth)
qed

text \<open>Dropping low bits turns a proof for an index into one for its block.\<close>

lemma Len64_drop_bit: "Len64 (drop_bit z x) = Len64 x - z"
proof -
  have "Len64 (drop_bit z x) \<le> i \<longleftrightarrow> Len64 x - z \<le> i" for i
  proof -
    have "drop_bit z x < 2 ^ i \<longleftrightarrow> x < 2 ^ (i + z)"
      by (simp add: drop_bit_eq_div power_add div_less_iff_less_mult)
    then show ?thesis using Len64_le_iff [of x "i + z"] by (simp add: Len64_le_iff le_diff_conv)
  qed
  then show ?thesis by (metis order_refl order_antisym)
qed

lemma decomp_blocks:
  assumes "drop_bit z m < drop_bit z (n - 1)" "0 < n" "decompInclProof m n = (a, b)"
  shows "decompInclProof (drop_bit z m) (Suc (drop_bit z (n - 1))) = (a - z, b) \<and> z \<le> a"
proof -
  have a: "a = Len64 (m XOR (n - 1))" and b: "b = OnesCount64 (drop_bit a m)"
    using assms(3) by (auto simp: decompInclProof_def innerProofSize_def Let_def)
  have eq: "drop_bit z m XOR (Suc (drop_bit z (n - 1)) - 1) = drop_bit z (m XOR (n - 1))"
    by (simp add: drop_bit_xor)
  have "drop_bit z m XOR drop_bit z (n - 1) \<noteq> 0"
    using assms(1) by (metis less_irrefl xor_self_eq xor.assoc xor.right_neutral)
  then have "0 < Len64 (drop_bit z (m XOR (n - 1)))"
    by (simp add: drop_bit_xor Len64_pos)
  then have z: "z \<le> a" unfolding Len64_drop_bit a by simp
  moreover have "innerProofSize (drop_bit z m) (Suc (drop_bit z (n - 1))) = a - z"
    unfolding innerProofSize_def eq Len64_drop_bit a ..
  ultimately show ?thesis by (simp add: decompInclProof_def Let_def b)
qed

lemma TrailingZeros64_split: "0 < n \<Longrightarrow> \<exists>c. n = c * 2 ^ TrailingZeros64 n \<and> 0 < c"
proof (induction n rule: TrailingZeros64.induct)
  case (1 n)
  show ?case
  proof (cases "odd n")
    case True
    then show ?thesis using "1.prems" by (simp add: TrailingZeros64.simps)
  next
    case False
    then obtain c where "n div 2 = c * 2 ^ TrailingZeros64 (n div 2)" "0 < c"
      using "1.IH" "1.prems" by (metis dvd_div_eq_0_iff gr0I less_not_refl)
    then have "n = c * 2 ^ Suc (TrailingZeros64 (n div 2))"
      using False by (metis dvd_mult_div_cancel mult.assoc mult.commute power_Suc)
    moreover have "TrailingZeros64 n = Suc (TrailingZeros64 (n div 2))"
      using False "1.prems" by (subst TrailingZeros64.simps) simp
    ultimately show ?thesis using \<open>0 < c\<close> by auto
  qed
qed


section \<open>Consistency proofs\<close>

text \<open>
  The seed of a consistency proof, the block it stands for, and the proof above it; and the search for a place where
  the proof differs from the tree of the newer log.
\<close>

definition consistency_parts :: "nat \<Rightarrow> bytes \<Rightarrow> bytes list \<Rightarrow> nat \<times> nat \<times> bytes \<times> bytes list" where
  "consistency_parts s1 root1 p =
    (let z = TrailingZeros64 s1
     in (z, drop_bit z (s1 - 1), if s1 = push_bit z 1 then (root1, p) else (hd p, drop 1 p)))"

definition consistency_collision :: "nat \<Rightarrow> bytes list \<Rightarrow> bytes \<Rightarrow> bytes list \<Rightarrow> (bytes \<times> bytes) option" where
  "consistency_collision s1 hs root1 p =
    (if s1 = length hs then None
     else let (z, blk, seed, q) = consistency_parts s1 root1 p
          in path_collision blk (map mth (chunks (2 ^ z) hs)) seed q)"

lemma VerifyConsistencyProof_iff:
  assumes "0 < s1" "s1 < s2" "consistency_parts s1 root1 p = (z, blk, seed, q)"
  defines "N \<equiv> Suc (drop_bit z (s2 - 1))"
  shows "VerifyConsistencyProof (int s1) (int s2) root1 root2 p = Inr () \<longleftrightarrow>
    p \<noteq> [] \<and>
    length q = fst (decompInclProof blk N) + snd (decompInclProof blk N) \<and>
    prefix_root blk N seed q = root1 \<and>
    path_root blk N seed q = root2"
proof -
  have z: "z = TrailingZeros64 s1" "blk = drop_bit z (s1 - 1)"
    "(seed, q) = (if s1 = push_bit z 1 then (root1, p) else (hd p, drop 1 p))"
    using assms(3) by (auto simp: consistency_parts_def Let_def)
  obtain c where c: "s1 = c * 2 ^ z" "0 < c" using TrailingZeros64_split [OF assms(1)] z(1) by blast
  have lt: "blk < drop_bit z (s2 - 1)"
  proof -
    have "blk < c" using assms(1) unfolding z(2) drop_bit_eq_div by (intro less_mult_imp_div_less) (simp add: c(1))
    also have "c \<le> drop_bit z (s2 - 1)"
      using assms(2) unfolding drop_bit_eq_div by (simp add: less_eq_div_iff_mult_less_eq c(1) [symmetric])
    finally show ?thesis .
  qed
  obtain a b where d: "decompInclProof (s1 - 1) s2 = (a, b)" by (rule prod.exhaust)
  have d': "decompInclProof blk N = (a - z, b)"
    using decomp_blocks [of z "s1 - 1" s2 a b] lt d assms(2) unfolding N_def by (simp add: z(2))
  have nats: "nat (int s1 - 1) = s1 - 1" "nat (int s1) = s1" "nat (int s2) = s2" using assms(1) by auto
  have folds: "length q = a - z + b \<Longrightarrow>
      chainBorderRight (chain_loop rt 0 seed (take (a - z) q) blk) (drop (a - z) q) = path_fold rt blk N seed q"
    for rt using lt d' by (intro chain_is_path_fold) (auto simp: N_def)
  define start :: nat where "start = (if s1 = push_bit z 1 then 0 else 1)"
  have sq: "(if s1 = push_bit z 1 then (root1, 0) else (hd p, 1)) = (seed, start)" "q = drop start p"
    using z(3) by (auto simp: start_def split: if_splits)
  have len: "p \<noteq> [] \<Longrightarrow> length p = start + (a - z) + b \<longleftrightarrow> length q = a - z + b"
    unfolding sq(2) start_def by (cases p) auto
  have "VerifyConsistencyProof (int s1) (int s2) root1 root2 p = Inr () \<longleftrightarrow>
    p \<noteq> [] \<and> length p = start + (a - z) + b \<and>
    chainBorderRight (chainInnerRight seed (take (a - z) q) blk) (drop (a - z) q) = root1 \<and>
    chainBorderRight (chainInner seed (take (a - z) q) blk) (drop (a - z) q) = root2"
    using assms(1,2) unfolding VerifyConsistencyProof_def nats d z(1) [symmetric] prod.case Let_def sq z(2) [symmetric]
    by simp
  then show ?thesis
    using len folds by (auto simp: d' chainInner_chain chainInnerRight_chain)
qed


lemma chunks_of_prefix:
  assumes "0 < s1" "s1 < length hs" "z = TrailingZeros64 s1"
  shows "length (chunks (2 ^ z) hs) = Suc (drop_bit z (length hs - 1))"
    and "drop_bit z (s1 - 1) < length (chunks (2 ^ z) hs)"
    and "mth (take (Suc (drop_bit z (s1 - 1))) (map mth (chunks (2 ^ z) hs))) = mth (take s1 hs)"
proof -
  obtain c where c: "s1 = c * 2 ^ z" "0 < c" using TrailingZeros64_split [OF assms(1)] assms(3) by blast
  show len: "length (chunks (2 ^ z) hs) = Suc (drop_bit z (length hs - 1))"
    using assms(1,2) by (subst length_chunks) (auto simp: drop_bit_eq_div)
  have blk: "Suc (drop_bit z (s1 - 1)) = c"
  proof -
    obtain d where d: "c = Suc d" using c(2) by (cases c) auto
    have "s1 = 2 ^ z * d + 2 ^ z" "0 < (2 :: nat) ^ z" unfolding c(1) d by simp_all
    then have "2 ^ z * d \<le> s1 - 1" "s1 - 1 < 2 ^ z * Suc d" unfolding mult_Suc_right by linarith+
    then have "(s1 - 1) div 2 ^ z = d" by (rule div_nat_eqI)
    then show ?thesis by (simp add: drop_bit_eq_div d)
  qed
  have "drop_bit z (s1 - 1) \<le> drop_bit z (length hs - 1)"
    using assms(2) unfolding drop_bit_eq_div by (intro div_le_mono) simp
  then show "drop_bit z (s1 - 1) < length (chunks (2 ^ z) hs)" by (simp add: len)
  have "length (take s1 hs) = c * 2 ^ z" using assms(2) c(1) by simp
  then have "chunks (2 ^ z) hs = chunks (2 ^ z) (take s1 hs) @ chunks (2 ^ z) (drop s1 hs)"
      "length (chunks (2 ^ z) (take s1 hs)) = c"
    using chunks_append [of "2 ^ z" "take s1 hs" c "drop s1 hs"] length_chunks_mult [of "2 ^ z" "take s1 hs" c] by simp_all
  then have "take c (map mth (chunks (2 ^ z) hs)) = map mth (chunks (2 ^ z) (take s1 hs))"
    by (simp add: take_map)
  moreover have "take s1 hs \<noteq> []" using assms(1,2) by auto
  ultimately show "mth (take (Suc (drop_bit z (s1 - 1))) (map mth (chunks (2 ^ z) hs))) = mth (take s1 hs)"
    unfolding blk using mth_chunks [of "take s1 hs" z] by simp
qed

text \<open>
  An accepted consistency proof between a claimed older head and the head of a log says that the older head is the
  head of a prefix of that log, of the claimed length, unless the search exhibits a collision. The hashes of the
  proof have to have the size of a digest: the verifier does not check that.
\<close>

theorem VerifyConsistencyProof_sound:
  assumes "list_all (\<lambda>h. length h = 32) hs" "list_all (\<lambda>h. length h = 32) p" "length root1 = 32" "0 < s1"
    "VerifyConsistencyProof (int s1) (int (length hs)) root1 (mth hs) p = Inr ()"
  shows "s1 \<le> length hs \<and>
    (case consistency_collision s1 hs root1 p of None \<Rightarrow> root1 = mth (take s1 hs) | Some c \<Rightarrow> collision c)"
proof -
  have le: "s1 \<le> length hs" using assms(5) by (auto simp: VerifyConsistencyProof_def split: if_splits)
  show ?thesis
  proof (cases "s1 = length hs")
    case True
    then have "root1 = mth hs" using assms(4,5) by (auto simp: VerifyConsistencyProof_def split: if_splits)
    with True show ?thesis by (simp add: consistency_collision_def)
  next
    case False
    then have lt: "s1 < length hs" using le by simp
    obtain z blk seed q where parts: "consistency_parts s1 root1 p = (z, blk, seed, q)" by (metis prod_cases4)
    then have z: "z = TrailingZeros64 s1" "blk = drop_bit z (s1 - 1)"
      "seed = root1 \<or> seed = hd p" by (auto simp: consistency_parts_def Let_def split: if_splits)
    let ?C = "map mth (chunks (2 ^ z) hs)"
    note blocks = chunks_of_prefix [OF assms(4) lt z(1)]
    have acc: "p \<noteq> []" "prefix_root blk (length ?C) seed q = root1" "path_root blk (length ?C) seed q = mth hs"
      using assms(5) VerifyConsistencyProof_iff [OF assms(4) lt parts] by (simp_all add: blocks(1))
    have "length seed = 32" using z(3) acc(1) assms(2,3) by (cases p) auto
    moreover have "mth ?C = mth hs" using lt by (intro mth_chunks) auto
    ultimately have "case path_collision blk ?C seed q of
        None \<Rightarrow> seed = ?C ! blk \<and> prefix_root blk (length ?C) seed q = mth (take (Suc blk) ?C) | Some c \<Rightarrow> collision c"
      using acc(3) blocks(2) z(2) by (intro path_root_binding list_all_length_chunks assms(1)) simp_all
    then show ?thesis
      using acc(2) blocks(3) le False by (auto simp: consistency_collision_def parts z(2) split: option.splits)
  qed
qed

lemma prefix_root_audit_path: "m < length hs \<Longrightarrow> prefix_root m (length hs) (hs ! m) (audit_path m hs) = mth (take (Suc m) hs)"
proof (induction m hs rule: audit_path.induct)
  case (1 m hs)
  let ?k = "split_point (length hs)"
  show ?case
  proof (cases "length hs \<le> 1")
    case True
    with "1.prems" obtain h where "hs = [h]" "m = 0" by (cases hs) auto
    then show ?thesis by simp
  next
    case False
    then have len: "1 < length hs" by simp
    note k = split_point_bounds [OF len]
    show ?thesis
    proof (cases "m < ?k")
      case True
      then have "prefix_root m ?k (hs ! m) (audit_path m (take ?k hs)) = mth (take (Suc m) hs)"
        using "1.IH"(1) [OF False refl True] k by (simp add: min_absorb1 min_absorb2)
      then show ?thesis
        using True False len by (simp add: audit_path.simps [of m hs] path_fold.simps [of _ m "length hs"] Let_def)
    next
      case ge: False
      then have "prefix_root (m - ?k) (length hs - ?k) (hs ! m) (audit_path (m - ?k) (drop ?k hs)) = mth (take (Suc (m - ?k)) (drop ?k hs))"
        using "1.IH"(2) [OF False refl ge] "1.prems" by simp
      moreover have "node_hash (mth (take ?k hs)) (mth (take (Suc (m - ?k)) (drop ?k hs))) = mth (take (Suc m) hs)"
        using "1.prems" ge by (intro mth_take_split [OF len]) auto
      ultimately show ?thesis
        using ge False len by (simp add: audit_path.simps [of m hs] path_fold.simps [of _ m "length hs"] Let_def)
    qed
  qed
qed

text \<open>The consistency proof of RFC 6962, section 2.1.2, between a proper prefix and the log.\<close>

definition consistency_proof :: "nat \<Rightarrow> bytes list \<Rightarrow> bytes list" where
  "consistency_proof s1 hs =
    (let z = TrailingZeros64 s1; blk = drop_bit z (s1 - 1); bs = map mth (chunks (2 ^ z) hs)
     in (if s1 = push_bit z 1 then [] else [bs ! blk]) @ audit_path blk bs)"

theorem VerifyConsistencyProof_complete:
  assumes "0 < s1" "s1 < length hs"
  shows "VerifyConsistencyProof (int s1) (int (length hs)) (mth (take s1 hs)) (mth hs) (consistency_proof s1 hs) = Inr ()"
proof -
  define z where "z = TrailingZeros64 s1"
  define blk where "blk = drop_bit z (s1 - 1)"
  define C where "C = map mth (chunks (2 ^ z) hs)"
  note blocks = chunks_of_prefix [OF assms z_def]
  have C: "length C = Suc (drop_bit z (length hs - 1))" "blk < length C" "mth C = mth hs" "mth (take (Suc blk) C) = mth (take s1 hs)"
    using blocks assms(2) by (auto simp: C_def blk_def intro!: mth_chunks)
  have "C ! blk = mth (take s1 hs)" if "s1 = push_bit z 1"
  proof -
    have "blk = 0" using that by (simp add: blk_def drop_bit_eq_div push_bit_eq_mult)
    then show ?thesis using C(2,4) by (cases C) simp_all
  qed
  then have parts: "consistency_parts s1 (mth (take s1 hs)) (consistency_proof s1 hs) = (z, blk, C ! blk, audit_path blk C)"
    by (simp add: consistency_parts_def consistency_proof_def Let_def z_def blk_def C_def)
  have len: "length (audit_path blk C) = fst (decompInclProof blk (length C)) + snd (decompInclProof blk (length C))"
    by (rule length_audit_path [OF C(2)])
  have ne: "audit_path blk C \<noteq> []"
  proof -
    obtain c where c: "s1 = c * 2 ^ z" using TrailingZeros64_split [OF assms(1)] z_def by blast
    then have "1 * 2 ^ z \<le> length hs - 1" using assms by (cases c) auto
    then have "1 \<le> drop_bit z (length hs - 1)" unfolding drop_bit_eq_div by (simp add: less_eq_div_iff_mult_less_eq)
    then have "1 < length C" by (simp add: C(1))
    then show ?thesis by (subst audit_path.simps) (simp add: Let_def)
  qed
  show ?thesis
    unfolding VerifyConsistencyProof_iff [OF assms parts] C(1) [symmetric]
    using len ne path_root_audit_path [OF C(2)] prefix_root_audit_path [OF C(2)] C(3,4)
    by (auto simp: consistency_proof_def Let_def z_def blk_def C_def)
qed

end
