(* ===== verification/AppendOnly.thy ===== *)
theory AppendOnly
  imports PublishedRoots MerkleProofs "HOL-Library.Sublist"
begin

text \<open>
  The log only grows. A read-write transaction takes no lock and its commit compares nothing, so the append-only
  property rests on the caller: as long as the transactions of a tree do not overlap, the logs behind two roots
  that are read one after the other are prefix and extension, and the consistency proof of RFC 6962 between them
  is accepted. Overlapping transactions fork the log.
\<close>

section \<open>Transactions that are over\<close>

text \<open>A transaction that was committed (successfully or not), rolled back or closed.\<close>

definition tx_over :: "'sc logTreeTX \<Rightarrow> bool" where
  "tx_over lt \<longleftrightarrow> state (lt_fsm lt) \<in> finishing"

text \<open>A transaction that may still get leaves to sequence: it has begun and at most dequeued.\<close>

definition early :: "'sc logTreeTX \<Rightarrow> bool" where
  "early lt \<longleftrightarrow> state (lt_fsm lt) \<in> {sBegin, sDequeueLeaves}"

lemmas phase_defs = tx_over_def early_def finishing_def allowed_iff

lemma lt_emit_cases:
  obtains (ok) "allowed (state (lt_fsm lt)) st" "lt_emit lt st = (lt\<lparr>lt_fsm := (lt_fsm lt)\<lparr>state := st\<rparr>\<rparr>, None)"
  | (blocked) e where "\<not> allowed (state (lt_fsm lt)) st" "lt_emit lt st = (lt, Some e)"
  by (cases "allowed (state (lt_fsm lt)) st") (auto simp: lt_emit_def emit_eq)

lemma over_blocks:
  assumes "tx_over lt" "st \<notin> {sRollback, sClose}"
  obtains e where "lt_emit lt st = (lt, Some e)"
  using assms by (cases rule: lt_emit_cases [of lt st]) (auto simp: tx_over_def finishing_def allowed_iff)

section \<open>Extending a log\<close>

text \<open>
  The logs a transaction may make of the one it found are given by a predicate \<open>P\<close> on lists of leaf hashes. The root rows
  that a batch writes: none, or for its own tree a pair that stands for such a log.
\<close>

definition rows_of :: "codec \<Rightarrow> bytes \<Rightarrow> bytes \<Rightarrow> bytes list \<Rightarrow> bool" where
  "rows_of cd rootRaw frontRaw hs \<longleftrightarrow> (\<exists>f. gobEncode cd f = Inr frontRaw \<and> frontier_rep f hs \<and> root_of cd rootRaw hs)"

definition batch_extends :: "codec \<Rightarrow> int \<Rightarrow> (bytes list \<Rightarrow> bool) \<Rightarrow> batch_op list \<Rightarrow> bool" where
  "batch_extends cd t P ops \<longleftrightarrow>
    (\<forall>u s. valid_tree u \<and> u \<noteq> t \<longrightarrow> batch_effect ops (keyS typ_r u s) = None) \<and>
    (batch_effect ops (keyS typ_r t ''root'') = None \<and> batch_effect ops (keyS typ_r t ''frontier'') = None \<or>
     (\<exists>rootRaw frontRaw hs. batch_effect ops (keyS typ_r t ''root'') = Some (Some rootRaw) \<and>
        batch_effect ops (keyS typ_r t ''frontier'') = Some (Some frontRaw) \<and> rows_of cd rootRaw frontRaw hs \<and> P hs))"

definition lt_extends :: "codec \<Rightarrow> (bytes list \<Rightarrow> bool) \<Rightarrow> 'sc logTreeTX \<Rightarrow> bool" where
  "lt_extends cd P lt \<longleftrightarrow> valid_tree (treeID lt) \<and> (\<exists>hs. frontier_rep (front lt) hs \<and> P hs) \<and>
    (case batch (localTx lt) of None \<Rightarrow> True | Some ops \<Rightarrow> batch_extends cd (treeID lt) P ops)"

lemma batch_extends_mono: "batch_extends cd t P ops \<Longrightarrow> \<forall>hs. P hs \<longrightarrow> Q hs \<Longrightarrow> batch_extends cd t Q ops"
  unfolding batch_extends_def by blast

lemma lt_extends_mono: "lt_extends cd P lt \<Longrightarrow> \<forall>hs. P hs \<longrightarrow> Q hs \<Longrightarrow> lt_extends cd Q lt"
  unfolding lt_extends_def by (auto split: option.splits intro: batch_extends_mono)

lemma batch_extends_append: "batch_extends cd t P ops \<Longrightarrow> list_all not_root_row ops' \<Longrightarrow> batch_extends cd t P (ops @ ops')"
  unfolding batch_extends_def by (simp add: batch_effect_append not_root_effect)

lemma batch_extends_Nil [simp]: "batch_extends cd t P []"
  by (simp add: batch_extends_def)

lemma lt_extends_adds:
  "lt_extends cd P lt \<Longrightarrow> tx_adds not_root_row (localTx lt) ltx \<Longrightarrow> lt_extends cd P (lt\<lparr>localTx := ltx\<rparr>)"
  by (auto simp: lt_extends_def tx_adds_def batch_extends_append split: option.splits)

lemma lt_extends_updates [simp]:
  "lt_extends cd P (lt\<lparr>lt_fsm := m\<rparr>) = lt_extends cd P lt" "lt_extends cd P (lt\<lparr>subtreeCache := c\<rparr>) = lt_extends cd P lt"
  "lt_extends cd P (lt\<lparr>closed := b\<rparr>) = lt_extends cd P lt" "lt_extends cd P (lt\<lparr>queuedLeaves := b\<rparr>) = lt_extends cd P lt"
  by (simp_all add: lt_extends_def cong: option.case_cong)

lemma lt_emit_extends [simp]: "lt_extends cd P (fst (lt_emit lt st)) = lt_extends cd P lt"
  by (simp add: lt_emit_def split_beta Let_def)

text \<open>
  What an operation does to a transaction: one that is over stays over, any other one stays on its tree and keeps
  within whatever it was allowed, or is over.
\<close>

definition keeps_extending :: "codec \<Rightarrow> 'sc logTreeTX \<Rightarrow> 'sc logTreeTX \<Rightarrow> bool" where
  "keeps_extending cd lt lt' \<longleftrightarrow> treeID lt' = treeID lt \<and> (tx_over lt \<longrightarrow> tx_over lt') \<and> (early lt' \<longrightarrow> early lt) \<and>
    (\<forall>P. lt_extends cd P lt \<longrightarrow> lt_extends cd P lt')"

lemma keeps_extending_blocked [simp]: "keeps_extending cd lt lt"
  by (simp add: keeps_extending_def)

lemma DequeueLeaves_extends:
  assumes "lt_DequeueLeaves env w lt limit cutoff = (w', lt', res)"
  shows "keeps_extending cd lt lt'"
proof -
  have adds: "tx_adds not_root_row ltx (fst (LocalTx_DequeueLeaves c io d ltx t s cut lim))" for ltx c io d t s cut lim
    by (auto simp: LocalTx_DequeueLeaves_def split: option.splits intro!: DequeueLeaves_loop_adds dequeue_range_not_root)
  show ?thesis
  proof (cases rule: lt_emit_cases [of lt sDequeueLeaves])
    case ok
    then have "\<not> tx_over lt" "early lt" by (auto simp: phase_defs split: fsmState.splits)
    then show ?thesis
      using assms adds ok
      by (auto simp: lt_DequeueLeaves_def keeps_extending_def split_beta Let_def intro!: lt_extends_adds)
  next
    case (blocked e)
    then show ?thesis using assms by (simp add: lt_DequeueLeaves_def)
  qed
qed

text \<open>
  \<open>UpdateSequencedLeaves\<close> appends to the frontier only when all leaves have been uploaded.
\<close>

definition uploads_of :: "env \<Rightarrow> 'sc logTreeTX \<Rightarrow> LogLeaf list \<Rightarrow> (string \<times> bytes) list \<times> unit result" where
  "uploads_of env lt leaves = Remote_PutLeaves (e_codec env) (e_http env) (e_b2 env) (e_ord env) (remote lt) (treeID lt) leaves"

abbreviation leaf_hashes :: "LogLeaf list \<Rightarrow> bytes list" where
  "leaf_hashes \<equiv> map (contents \<circ> MerkleLeafHash)"

lemma UpdateSequencedLeaves_outcome:
  assumes "UpdateSequencedLeaves env w lt leaves = (w', lt', res)" "\<forall>l \<in> set leaves. MerkleLeafHash l \<noteq> None"
  obtains (blocked) "w' = w" "lt' = lt"
  | (performed) "\<not> tx_over lt" "early lt" "\<not> early lt'" "treeID lt' = treeID lt" "w' = w\<lparr>w_uploads := w_uploads w @ fst (uploads_of env lt leaves)\<rparr>"
      "\<And>cd P Q. lt_extends cd P lt \<Longrightarrow> \<forall>hs. P hs \<longrightarrow> Q hs \<Longrightarrow>
         snd (uploads_of env lt leaves) = Inr () \<longrightarrow> (\<forall>hs. P hs \<longrightarrow> Q (hs @ leaf_hashes leaves)) \<Longrightarrow> lt_extends cd Q lt'"
proof (cases rule: lt_emit_cases [of lt sUpdateSequencedLeaves])
  case (blocked e)
  then show ?thesis using assms that(1) by (simp add: UpdateSequencedLeaves_def)
next
  case ok
  let ?lt = "lt\<lparr>lt_fsm := (lt_fsm lt)\<lparr>state := sUpdateSequencedLeaves\<rparr>\<rparr>"
  let ?front = "foldl (\<lambda>f l. Append f (MerkleLeafHash l)) (front lt) leaves"
  have over: "\<not> tx_over lt" "early lt" using ok by (auto simp: phase_defs split: fsmState.splits)
  have adds: "tx_adds not_root_row ltx (fst (LocalTx_PutLeaves ltx t seqs ms hs))" for ltx t seqs ms hs
    by (auto simp: LocalTx_PutLeaves_def not_root_row_keyB intro!: PutLeaves_loop_adds)
  obtain us r where up: "uploads_of env lt leaves = (us, r)" by (rule prod.exhaust)
  then have up': "Remote_PutLeaves (e_codec env) (e_http env) (e_b2 env) (e_ord env) (remote lt) (treeID lt) leaves = (us, r)"
    by (simp add: uploads_of_def)
  have w': "w' = w\<lparr>w_uploads := w_uploads w @ us\<rparr>" "treeID lt' = treeID lt" "\<not> early lt'"
    using assms(1) ok(2) up' by (auto simp: UpdateSequencedLeaves_def early_def split_beta Let_def split: sum.splits)
  have "lt_extends cd Q lt'"
    if ext: "lt_extends cd P lt" "\<forall>hs. P hs \<longrightarrow> Q hs" "r = Inr () \<longrightarrow> (\<forall>hs. P hs \<longrightarrow> Q (hs @ leaf_hashes leaves))" for cd P Q
  proof (cases r)
    case (Inl e)
    then have "lt' = ?lt" using assms(1) ok(2) up' by (simp add: UpdateSequencedLeaves_def)
    then show ?thesis using lt_extends_mono [OF ext(1,2)] by simp
  next
    case (Inr u)
    obtain hs where hs: "frontier_rep (front lt) hs" "P hs" using ext(1) by (auto simp: lt_extends_def)
    have "frontier_rep ?front (hs @ leaf_hashes leaves)" by (rule foldl_Append_hashes [OF hs(1) assms(2)])
    then have front: "lt_extends cd Q (?lt\<lparr>front := ?front\<rparr>)"
      using lt_extends_mono [OF ext(1,2)] ext(3) hs(2) Inr unfolding lt_extends_def by (auto split: option.splits)
    have "lt' = ?lt\<lparr>front := ?front, localTx := fst (LocalTx_PutLeaves (localTx lt) (treeID lt) (map LeafIndex leaves)
        (map (contents \<circ> MerkleLeafHash) leaves) (map (contents \<circ> LeafIdentityHash) leaves))\<rparr>"
      using assms(1) ok(2) up' Inr by (auto simp: UpdateSequencedLeaves_def split_beta Let_def)
    then show ?thesis using lt_extends_adds [OF front] adds by simp
  qed
  then show ?thesis using over w' up by (intro that(2)) simp_all
qed

lemma SetMerkleNodes_extends:
  assumes "SetMerkleNodes sc env w lt nodes = (w', lt', res)"
  shows "keeps_extending cd lt lt'"
proof (cases rule: lt_emit_cases [of lt sSetMerkleNodes])
  case ok
  then have "\<not> tx_over lt" by (auto simp: phase_defs)
  then show ?thesis
    using assms ok by (auto simp: SetMerkleNodes_def keeps_extending_def split_beta Let_def early_def)
next
  case (blocked e)
  then show ?thesis using assms by (simp add: SetMerkleNodes_def)
qed

lemma batch_extends_StoreRoot:
  assumes "batch_extends cd t P ops" "valid_tree t" "gobEncode cd f = Inr raw" "frontier_rep f hs" "P hs"
    "root_of cd (contents (LogRoot sth)) hs"
  shows "batch_extends cd t P (ops @ root_puts t sth raw)"
proof -
  have "rows_of cd (contents (LogRoot sth)) raw hs" using assms(3,4,6) by (auto simp: rows_of_def)
  then show ?thesis
    using assms(1,2,5) unfolding batch_extends_def by (auto simp: batch_effect_append root_puts_effect)
qed

lemma StoreSignedLogRoot_extends:
  assumes "StoreSignedLogRoot env w lt sth = (w', lt', res)" "e_codec env = cd" "sth_sound cd sth"
  shows "keeps_extending cd lt lt'"
proof (cases rule: lt_emit_cases [of lt sStoreSignedLogRoot])
  case (blocked e)
  then show ?thesis using assms by (simp add: StoreSignedLogRoot_def)
next
  case ok
  let ?lt = "lt\<lparr>lt_fsm := (lt_fsm lt)\<lparr>state := sStoreSignedLogRoot\<rparr>\<rparr>"
  have over: "\<not> tx_over lt" using ok by (auto simp: phase_defs)
  show ?thesis
  proof (cases "bytes_Equal (RootHash sth) (Head (front lt)) \<and>
      (\<exists>ops raw. batch (localTx lt) = Some ops \<and> gobEncode cd (front lt) = Inr raw)")
    case True
    then obtain ops raw where ops: "batch (localTx lt) = Some ops" "gobEncode cd (front lt) = Inr raw"
        "bytes_Equal (RootHash sth) (Head (front lt))" by blast
    have lt': "lt' = ?lt\<lparr>localTx := (localTx lt)\<lparr>batch := Some (ops @ root_puts (treeID lt) sth raw)\<rparr>\<rparr>"
      using assms(1,2) ok(2) ops by (simp add: StoreSignedLogRoot_def StoreRoot_effect)
    have "lt_extends cd P lt'" if ext: "lt_extends cd P lt" for P
    proof -
      obtain hs where ks: "frontier_rep (front lt) hs" "P hs" using ext by (auto simp: lt_extends_def)
      then have "root_of cd (contents (LogRoot sth)) hs"
        using ops(3) assms(3) by (simp add: root_of_def sth_sound_def bytes_Equal_def Head_frontier_rep)
      then show ?thesis
        using ext ks ops unfolding lt' lt_extends_def by (auto intro!: batch_extends_StoreRoot)
    qed
    then show ?thesis using over by (simp add: keeps_extending_def lt' early_def)
  next
    case False
    then have "bytes_Equal (RootHash sth) (Head (front lt)) \<Longrightarrow> fst (LocalTx_StoreRoot cd (localTx lt) (treeID lt) sth (front lt)) = localTx lt"
      by (auto simp: LocalTx_StoreRoot_def batch_add_def split: sum.splits option.splits)
    then have "lt' = ?lt"
      using assms(1,2) ok(2) by (auto simp: StoreSignedLogRoot_def split_beta Let_def split: if_splits)
    then show ?thesis using over by (simp add: keeps_extending_def early_def)
  qed
qed


lemma StoreSignedLogRoot_world: "StoreSignedLogRoot env w lt sth = (w', lt', res) \<Longrightarrow> w' = w"
  by (auto simp: StoreSignedLogRoot_def split_beta Let_def split: option.splits if_splits)

lemma finish_extends [simp]:
  "keeps_extending cd lt (fst (lt_Rollback lt))" "keeps_extending cd lt (fst (lt_Close lt))"
  by (auto simp: keeps_extending_def lt_Rollback_def lt_Close_def lt_emit_def emit_eq phase_defs)

section \<open>The store\<close>

text \<open>The rows of a tree hold the log \<open>hs\<close>: a tree without rows has the empty log.\<close>

definition db_holds_log :: "codec \<Rightarrow> db \<Rightarrow> int \<Rightarrow> bytes list \<Rightarrow> bool" where
  "db_holds_log cd d t hs \<longleftrightarrow>
    (case (db_get d (keyS typ_r t ''root''), db_get d (keyS typ_r t ''frontier'')) of
       (None, None) \<Rightarrow> hs = []
     | (Some rootRaw, Some frontRaw) \<Rightarrow> rows_of cd rootRaw frontRaw hs
     | _ \<Rightarrow> False)"

definition db_holds_logs :: "codec \<Rightarrow> (int \<Rightarrow> bytes list) \<Rightarrow> db \<Rightarrow> bool" where
  "db_holds_logs cd L d \<longleftrightarrow> db_wf d \<and> (\<forall>t. valid_tree t \<longrightarrow> db_holds_log cd d t (L t))"

lemma db_holds_log_write_other:
  "db_wf d \<Longrightarrow> \<forall>s. batch_effect ops (keyS typ_r u s) = None \<Longrightarrow> db_holds_log cd (db_write d ops) u hs = db_holds_log cd d u hs"
  by (simp add: db_holds_log_def db_get_write)

lemma db_holds_logs_write:
  assumes "db_holds_logs cd L d" "valid_tree t" "batch_extends cd t P ops"
  obtains hs where "hs = L t \<or> P hs" "db_holds_logs cd (L(t := hs)) (db_write d ops)"
proof -
  have wf: "db_wf d" using assms(1) by (simp add: db_holds_logs_def)
  obtain hs where hs: "hs = L t \<or> P hs" "db_holds_log cd (db_write d ops) t hs"
    using assms(3) [unfolded batch_extends_def, THEN conjunct2]
  proof (elim disjE exE conjE, goal_cases)
    case 1
    then show ?case using assms(1,2) by (intro 1(1) [of "L t"]) (simp_all add: db_holds_logs_def db_holds_log_def db_get_write wf)
  next
    case (2 r f hs)
    then show ?case by (intro 2(1) [of hs]) (simp_all add: db_holds_log_def db_get_write wf)
  qed
  moreover have "db_holds_log cd (db_write d ops) u (L u)" if "valid_tree u" "u \<noteq> t" for u
    using assms(1,3) that wf by (simp add: db_holds_logs_def db_holds_log_write_other batch_extends_def)
  ultimately show thesis
    using wf by (intro that [of hs]) (auto simp: db_holds_logs_def db_wf_write)
qed

text \<open>A write that touches no root row keeps the logs.\<close>

lemma db_holds_logs_write_other:
  assumes "db_holds_logs cd L d" "list_all not_root_row ops"
  shows "db_holds_logs cd L (db_write d ops)"
  using assms by (simp add: db_holds_logs_def db_holds_log_write_other not_root_effect db_wf_write)

lemma queueLeaf_keeps_logs:
  assumes "queueLeaf env w lt leaf ts = (w', res)" "db_holds_logs cd L (w_db w)"
  shows "db_holds_logs cd L (w_db w')"
proof -
  have "db_holds_logs cd L (fst (Local_QueueLeaves c io rnd d t ts [leaf]))" if "db_holds_logs cd L d" for c io rnd d t
    using that QueueLeaves_loop_not_root [of c rnd t ts "[leaf]" "[]"]
    by (auto simp: Local_QueueLeaves_def intro!: db_holds_logs_write_other split: sum.splits option.splits)
  then show ?thesis
    using assms by (auto simp: queueLeaf_def split_beta Let_def split: option.splits sum.splits if_splits)
qed

lemma lt_QueueLeaves_loop_keeps_logs:
  "lt_QueueLeaves_loop envs w lt leaves ts out = (w', res) \<Longrightarrow> db_holds_logs cd L (w_db w) \<Longrightarrow> db_holds_logs cd L (w_db w')"
proof (induction envs w lt leaves ts out rule: lt_QueueLeaves_loop.induct)
  case (1 envs w lt ts out)
  then show ?case by simp
next
  case (2 envs w lt leaf leaves ts out)
  then show ?case by (auto split: prod.splits sum.splits dest: queueLeaf_keeps_logs)
qed

lemma LogStorage_QueueLeaves_loop_keeps_logs:
  "LogStorage_QueueLeaves_loop envs w lt leaves ts out = (w', res) \<Longrightarrow> db_holds_logs cd L (w_db w) \<Longrightarrow> db_holds_logs cd L (w_db w')"
proof (induction envs w lt leaves ts out rule: LogStorage_QueueLeaves_loop.induct)
  case (1 envs w lt ts out)
  then show ?case by simp
next
  case (2 envs w lt leaf leaves ts out)
  then show ?case by (auto split: prod.splits sum.splits option.splits dest: queueLeaf_keeps_logs)
qed

lemma lt_QueueLeaves_extends:
  assumes "lt_QueueLeaves envs w lt ls ts = (w', lt', res)" "db_holds_logs cd L (w_db w)"
  shows "db_holds_logs cd L (w_db w') \<and> keeps_extending cd lt lt'"
proof (cases rule: lt_emit_cases [of lt sQueueLeaves])
  case ok
  then have "\<not> tx_over lt" by (auto simp: phase_defs)
  then show ?thesis
    using assms ok lt_QueueLeaves_loop_keeps_logs [OF prod.collapse [symmetric], of cd L w envs _ ls ts "[]"]
    by (auto simp: lt_QueueLeaves_def keeps_extending_def early_def split_beta Let_def)
next
  case (blocked e)
  then show ?thesis using assms by (simp add: lt_QueueLeaves_def)
qed


section \<open>Committing\<close>

lemma lt_Flush_result:
  assumes "lt_Flush sc env lt = (lt', r)"
  shows "treeID lt' = treeID lt" "lt_fsm lt' = lt_fsm lt" "tx_adds not_root_row (localTx lt) (localTx lt')"
proof -
  obtain ltx where "fst (storeSubtrees env (lt\<lparr>subtreeCache := fst (scFlush sc (subtreeCache lt))\<rparr>) ss) =
      lt\<lparr>subtreeCache := fst (scFlush sc (subtreeCache lt)), localTx := ltx ss\<rparr> \<and> tx_adds not_root_row (localTx lt) (ltx ss)" for ss
    using storeSubtrees_adds [of env "lt\<lparr>subtreeCache := fst (scFlush sc (subtreeCache lt))\<rparr>"] by simp metis
  then show "treeID lt' = treeID lt" "lt_fsm lt' = lt_fsm lt" "tx_adds not_root_row (localTx lt) (localTx lt')"
    using assms by (auto simp: lt_Flush_def split: prod.splits sum.splits option.splits dest!: arg_cong [where f = fst])
qed

text \<open>A commit is blocked, or the transaction is over and at most one batch was written.\<close>

lemma lt_Commit_outcome:
  assumes "lt_Commit sc env w lt = (w', lt', res)"
  obtains (blocked) "w' = w" "lt' = lt"
  | (quiet) "\<not> tx_over lt" "tx_over lt'" "treeID lt' = treeID lt" "w_db w' = w_db w"
  | (written) ltx ops where "\<not> tx_over lt" "tx_over lt'" "treeID lt' = treeID lt"
      "tx_adds not_root_row (localTx lt) ltx" "batch ltx = Some ops" "w_db w' = db_write (w_db w) ops"
proof (cases rule: lt_emit_cases [of lt sCommit])
  case (blocked e)
  then show ?thesis using assms that(1) by (simp add: lt_Commit_def)
next
  case ok
  let ?lt = "lt\<lparr>lt_fsm := (lt_fsm lt)\<lparr>state := sCommit\<rparr>\<rparr>"
  have before: "\<not> tx_over lt" using ok by (auto simp: tx_over_def finishing_def allowed_iff)
  obtain lt2 r where fl: "lt_Flush sc env ?lt = (lt2, r)" by (rule prod.exhaust)
  note lt2 = lt_Flush_result [OF fl]
  have after: "tx_over lt'" "treeID lt' = treeID lt"
    using assms ok(2) fl lt2(1,2)
    by (auto simp: lt_Commit_def tx_over_def finishing_def split: if_splits sum.splits prod.splits)
  show ?thesis
  proof (cases "w_db w' = w_db w")
    case True
    then show ?thesis using before after that(2) by blast
  next
    case False
    then obtain ops where "batch (localTx lt2) = Some ops" "w_db w' = db_write (w_db w) ops"
      using assms ok(2) fl
      by (auto simp: lt_Commit_def LocalTx_Commit_def split: if_splits sum.splits prod.splits option.splits)
    then show ?thesis using before after lt2(3) by (intro that(3) [of "localTx lt2" ops]) simp_all
  qed
qed

section \<open>Histories\<close>

text \<open>
  The state of the storage over the logs \<open>L\<close>: the store holds them, every transaction that is not over makes of the log of
  its tree one that \<open>P\<close> allows (to early ones it may allow less), and no two of those are on the same tree.
\<close>

type_synonym allowance = "bool \<Rightarrow> int \<Rightarrow> bytes list \<Rightarrow> bool"

definition txs_inv :: "codec \<Rightarrow> (int \<Rightarrow> bytes list) \<Rightarrow> allowance \<Rightarrow> 'sc ls_state \<Rightarrow> bool" where
  "txs_inv cd L P s \<longleftrightarrow> db_holds_logs cd L (w_db (fst s)) \<and> (\<forall>t hs. P True t hs \<longrightarrow> P False t hs) \<and>
    (\<forall>i lt. snd s i = Some lt \<and> \<not> tx_over lt \<longrightarrow> lt_extends cd (P (early lt) (treeID lt)) lt) \<and>
    (\<forall>i j lt lt'. snd s i = Some lt \<and> snd s j = Some lt' \<and> \<not> tx_over lt \<and> \<not> tx_over lt' \<and> i \<noteq> j \<longrightarrow> treeID lt \<noteq> treeID lt')"

text \<open>For the append-only property: transactions extend the log.\<close>

abbreviation log_inv :: "codec \<Rightarrow> (int \<Rightarrow> bytes list) \<Rightarrow> 'sc ls_state \<Rightarrow> bool" where
  "log_inv cd L \<equiv> txs_inv cd L (\<lambda>_ t. prefix (L t))"

lemma txs_invD:
  assumes "txs_inv cd L P s"
  shows "db_holds_logs cd L (w_db (fst s))" "P b t hs \<Longrightarrow> P False t hs"
    "snd s i = Some lt \<Longrightarrow> \<not> tx_over lt \<Longrightarrow> lt_extends cd (P (early lt) (treeID lt)) lt"
    "snd s i = Some lt \<Longrightarrow> \<not> tx_over lt \<Longrightarrow> snd s j = Some l \<Longrightarrow> \<not> tx_over l \<Longrightarrow> j \<noteq> i \<Longrightarrow> treeID l \<noteq> treeID lt"
proof -
  note inv = assms [unfolded txs_inv_def]
  show "db_holds_logs cd L (w_db (fst s))" using inv by blast
  show "P False t hs" if "P b t hs" using inv [THEN conjunct2, THEN conjunct1] that by (cases b) simp_all
  show "lt_extends cd (P (early lt) (treeID lt)) lt" if "snd s i = Some lt" "\<not> tx_over lt" using inv that by blast
  show "treeID l \<noteq> treeID lt" if "snd s i = Some lt" "\<not> tx_over lt" "snd s j = Some l" "\<not> tx_over l" "j \<noteq> i" using inv that by blast
qed

text \<open>A transaction takes the place \<open>i\<close>; what is allowed on its tree may change when no other transaction is open on it.\<close>

lemma txs_inv_place:
  assumes "txs_inv cd L P s" "\<And>j l. snd s j = Some l \<Longrightarrow> \<not> tx_over l \<Longrightarrow> j \<noteq> i \<Longrightarrow> treeID l \<noteq> treeID lt"
    and "db_holds_logs cd L' (w_db w)" "\<not> tx_over lt \<Longrightarrow> lt_extends cd (Q (early lt) (treeID lt)) lt"
    and "\<forall>b u. u \<noteq> treeID lt \<longrightarrow> Q b u = P b u" "\<forall>t hs. Q True t hs \<longrightarrow> Q False t hs"
  shows "txs_inv cd L' Q (w, (snd s)(i \<mapsto> lt))"
proof -
  have "lt_extends cd (Q (early l) (treeID l)) l" if "((snd s)(i \<mapsto> lt)) j = Some l" "\<not> tx_over l" for j l
  proof (cases "j = i")
    case True
    then show ?thesis using assms(4) that by simp
  next
    case False
    then show ?thesis using txs_invD(3) [OF assms(1), of j l] assms(2) [of j l] assms(5) that by simp
  qed
  moreover have "treeID l \<noteq> treeID l'"
    if "((snd s)(i \<mapsto> lt)) j = Some l" "((snd s)(i \<mapsto> lt)) k = Some l'" "\<not> tx_over l" "\<not> tx_over l'" "j \<noteq> k" for j k l l'
    using that assms(2) [of j l] assms(2) [of k l'] txs_invD(4) [OF assms(1), of k l' j l] by (auto split: if_splits)
  ultimately show ?thesis using assms(3,6) unfolding txs_inv_def fst_conv snd_conv by blast
qed

lemma txs_inv_change:
  assumes "txs_inv cd L P s" "snd s i = Some lt" "db_holds_logs cd L (w_db w)" "keeps_extending cd lt lt'"
  shows "txs_inv cd L P (w, (snd s)(i \<mapsto> lt'))"
proof (cases "tx_over lt")
  case True
  then have "tx_over lt'" using assms(4) by (simp add: keeps_extending_def)
  then show ?thesis using assms(1,3) unfolding txs_inv_def by (auto split: if_splits)
next
  case False
  note inv = txs_invD [OF assms(1)]
  have tree: "treeID lt' = treeID lt" and late: "early lt' \<longrightarrow> early lt" using assms(4) by (simp_all add: keeps_extending_def)
  have ext: "lt_extends cd (P (early lt) (treeID lt)) lt'" using inv(3) [OF assms(2) False] assms(4) by (simp add: keeps_extending_def)
  have "\<forall>hs. P (early lt) (treeID lt) hs \<longrightarrow> P (early lt') (treeID lt) hs"
    using inv(2) late by (cases "early lt'") auto
  then have "lt_extends cd (P (early lt') (treeID lt')) lt'" unfolding tree by (rule lt_extends_mono [OF ext])
  then show ?thesis
    using inv(2) inv(4) [OF assms(2) False] assms(3) tree by (intro txs_inv_place [OF assms(1)]) auto
qed

lemma txs_inv_on_tx:
  assumes "txs_inv cd L P s"
    "\<And>w lt w' lt' res. f w lt = (w', lt', res) \<Longrightarrow> db_holds_logs cd L (w_db w) \<Longrightarrow>
       db_holds_logs cd L (w_db w') \<and> keeps_extending cd lt lt'"
  shows "txs_inv cd L P (on_tx s i (\<lambda>w lt. let (w, lt, _) = f w lt in (w, lt)))"
proof (cases "snd s i")
  case None
  then show ?thesis using assms(1) by (simp add: on_tx_def)
next
  case (Some lt)
  obtain w' lt' res where f: "f (fst s) lt = (w', lt', res)" by (rule prod_cases3)
  then show ?thesis
    using txs_inv_change [OF assms(1) Some, of w' lt'] assms(2) [OF f] assms(1) Some by (simp add: on_tx_def txs_inv_def)
qed

lemma txs_inv_on_tx_only:
  assumes "txs_inv cd L P s" "\<And>lt. keeps_extending cd lt (g lt)"
  shows "txs_inv cd L P (on_tx s i (\<lambda>w lt. (w, g lt)))"
  using txs_inv_on_tx [OF assms(1), of "\<lambda>w lt. (w, g lt, ())" i] assms(2) by simp

text \<open>A commit leaves the logs as they are or makes the log of its tree one that was allowed; nothing is open on it then.\<close>

lemma txs_inv_commit:
  assumes "txs_inv cd L P s" "snd s i = Some lt" "lt_Commit sc env (fst s) lt = (w', lt', res)"
  obtains (same) "txs_inv cd L P (w', (snd s)(i \<mapsto> lt'))"
  | (changed) hs where "P False (treeID lt) hs" "valid_tree (treeID lt)"
      "\<And>Q. \<forall>b u. u \<noteq> treeID lt \<longrightarrow> Q b u = P b u \<Longrightarrow> \<forall>t hs. Q True t hs \<longrightarrow> Q False t hs \<Longrightarrow>
         txs_inv cd (L(treeID lt := hs)) Q (w', (snd s)(i \<mapsto> lt'))"
  using assms(3)
proof (cases rule: lt_Commit_outcome)
  case blocked
  then show ?thesis using assms(1,2) by (intro that(1)) (simp add: fun_upd_idem)
next
  case quiet
  then show ?thesis
    using txs_invD(1,2) [OF assms(1)] by (intro that(1) txs_inv_place [OF assms(1)]) (auto dest: txs_invD(4) [OF assms(1,2)])
next
  case (written ltx ops)
  let ?t = "treeID lt"
  note inv = txs_invD [OF assms(1)]
  have "\<forall>hs. P (early lt) ?t hs \<longrightarrow> P False ?t hs" using inv(2) by blast
  then have "lt_extends cd (P False ?t) lt" by (rule lt_extends_mono [OF inv(3) [OF assms(2) written(1)]])
  then have ops: "valid_tree ?t" "batch_extends cd ?t (P False ?t) ops"
    using lt_extends_adds [OF _ written(4)] written(5) by (auto simp: lt_extends_def)
  obtain hs where hs: "hs = L ?t \<or> P False ?t hs" "db_holds_logs cd (L(?t := hs)) (w_db w')"
    using db_holds_logs_write [OF inv(1) ops] unfolding written(6) by blast
  have new: "txs_inv cd (L(?t := hs)) Q (w', (snd s)(i \<mapsto> lt'))"
    if "\<forall>b u. u \<noteq> ?t \<longrightarrow> Q b u = P b u" "\<forall>t hs. Q True t hs \<longrightarrow> Q False t hs" for Q
    using inv(4) [OF assms(2) written(1)] hs(2) that written(2,3) by (intro txs_inv_place [OF assms(1)]) auto
  show ?thesis
  proof (cases "hs = L ?t")
    case True
    then show ?thesis using new [of P] inv(2) by (intro that(1)) auto
  next
    case False
    then show ?thesis using hs(1) ops(1) new by (intro that(2) [of hs]) auto
  qed
qed

text \<open>
  The error values the database and the codecs can return. \<open>ErrTreeNeedsInit\<close> is this program's own, and
  \<open>getErr\<close> stands for the failures of \<open>Get\<close> other than a missing key.
\<close>

definition foreign_errors :: "codec \<Rightarrow> ldb_io \<Rightarrow> bool" where
  "foreign_errors cd io \<longleftrightarrow> snapErr io \<noteq> Some ErrTreeNeedsInit \<and>
    (\<forall>k. getErr io k \<notin> {Some ErrNotFound, Some ErrTreeNeedsInit}) \<and>
    (\<forall>raw. unmarshalLogRoot cd raw \<noteq> Inl ErrTreeNeedsInit \<and> gobDecode cd raw \<noteq> Inl ErrTreeNeedsInit)"

lemma MostRecentRoot_of_log:
  assumes "MostRecentRoot cd io d t = Inr (sth, f)" "db_holds_log cd d t hs"
    "codec_pair (gobEncode cd) (gobDecode cd) (\<lambda>f. \<exists>hs. frontier_rep f hs)"
  shows "frontier_rep f hs \<and> contents (RootHash sth) = mth hs"
proof -
  obtain rootRaw frontRaw v1 where rows: "db_get d (keyS typ_r t ''root'') = Some rootRaw"
      "db_get d (keyS typ_r t ''frontier'') = Some frontRaw" "unmarshalLogRoot cd rootRaw = Inr v1"
      "RootHash sth = V1_RootHash v1" "gobDecode cd frontRaw = Inr f"
    using assms(1) by (auto simp: MostRecentRoot_def snap_Get_def Let_def split: option.splits sum.splits if_splits)
  then obtain f' where f': "gobEncode cd f' = Inr frontRaw" "frontier_rep f' hs" "root_of cd rootRaw hs"
    using assms(2) by (auto simp: db_holds_log_def rows_of_def)
  then have "gobDecode cd frontRaw = Inr f'" using codec_pair.decode_encode [OF assms(3)] by blast
  with rows f' show ?thesis by (auto simp: root_of_def)
qed

lemma MostRecentRoot_needs_init:
  assumes "MostRecentRoot cd io d t = Inl ErrTreeNeedsInit" "foreign_errors cd io" "db_holds_log cd d t hs"
  shows "hs = []"
proof -
  have "db_get d (keyS typ_r t ''root'') = None"
    using assms(1,2) unfolding foreign_errors_def
    by (auto simp: MostRecentRoot_def snap_Get_def Let_def split: option.splits sum.splits if_splits)
  then show ?thesis using assms(3) by (auto simp: db_holds_log_def split: option.splits)
qed

lemma beginForTree_extends:
  assumes "beginForTree sc env w r t = Inr lt" "db_holds_log cd (w_db w) t hs" "valid_tree t" "e_codec env = cd"
    "foreign_errors cd (e_io env)" "codec_pair (gobEncode cd) (gobDecode cd) (\<lambda>f. \<exists>hs. frontier_rep f hs)"
  shows "treeID lt = t \<and> early lt \<and> (\<forall>P. P hs \<longrightarrow> lt_extends cd P lt)"
proof -
  have lt: "treeID lt = t" "early lt" "localTx lt = Local_Begin" using assms(1) by (auto simp: beginForTree_def early_def Let_def split_beta split: option.splits sum.splits if_splits)
  have "frontier_rep (front lt) hs"
  proof (cases "MostRecentRoot cd (e_io env) (w_db w) t")
    case (Inl e)
    then have "e = ErrTreeNeedsInit" "front lt = empty_frontier"
      using assms(1,4) by (auto simp: beginForTree_def split: option.splits if_splits)
    then show ?thesis using MostRecentRoot_needs_init [OF _ assms(5,2)] Inl frontier_rep_empty by simp
  next
    case (Inr sf)
    then have "MostRecentRoot cd (e_io env) (w_db w) t = Inr (root lt, front lt)"
      using assms(1,4) by (auto simp: beginForTree_def Let_def split_beta split: option.splits)
    then show ?thesis using MostRecentRoot_of_log [OF _ assms(2,6)] by blast
  qed
  then show ?thesis using lt assms(3) by (auto simp: lt_extends_def Local_Begin_def)
qed


text \<open>A transaction begins only when every other one on its tree is over, as with a single sequencer per tree.\<close>

fun begins_alone :: "'sc ls_state \<Rightarrow> ls_op \<Rightarrow> bool" where
  "begins_alone s (LBegin i r t) \<longleftrightarrow> (\<forall>j lt. j \<noteq> i \<and> snd s j = Some lt \<and> \<not> tx_over lt \<longrightarrow> treeID lt \<noteq> t)"
| "begins_alone s _ \<longleftrightarrow> True"

fun serial :: "'sc subtree_cache_ops \<Rightarrow> 'sc ls_state \<Rightarrow> ((nat \<Rightarrow> env) \<times> ls_op) list \<Rightarrow> bool" where
  "serial sc s [] \<longleftrightarrow> True"
| "serial sc s (op # ops) \<longleftrightarrow> begins_alone s (snd op) \<and> serial sc (ls_step sc s op) ops"

lemma serial_append: "serial sc s (ops1 @ ops2) \<longleftrightarrow> serial sc s ops1 \<and> serial sc (ls_run sc s ops1) ops2"
  by (induction ops1 arbitrary: s) (auto simp: ls_run_def)

definition op_good :: "codec \<Rightarrow> (nat \<Rightarrow> env) \<times> ls_op \<Rightarrow> bool" where
  "op_good cd op \<longleftrightarrow> ls_op_ok cd (snd op) \<and> (\<forall>j. e_codec (fst op j) = cd \<and> foreign_errors cd (e_io (fst op j)))"

lemma txs_inv_begin:
  assumes "txs_inv cd L P s" "begins_alone s (LBegin i r t)" "op_good cd (envs, LBegin i r t)"
    "codec_pair (gobEncode cd) (gobDecode cd) (\<lambda>f. \<exists>hs. frontier_rep f hs)" "P True t (L t)"
  shows "txs_inv cd L P (ls_step sc s (envs, LBegin i r t))"
proof (cases "beginForTree sc (envs 0) (fst s) r t")
  case (Inl e)
  then show ?thesis using assms(1) by simp
next
  case (Inr lt)
  then have "treeID lt = t \<and> early lt \<and> (\<forall>P. P (L t) \<longrightarrow> lt_extends cd P lt)"
    using assms(1,3,4) by (intro beginForTree_extends) (auto simp: op_good_def txs_inv_def db_holds_logs_def)
  then show ?thesis
    using assms(2,5) Inr txs_invD(1,2) [OF assms(1)] by (auto intro!: txs_inv_place [OF assms(1)])
qed

text \<open>All operations but two keep the logs, whatever the transactions may make of them.\<close>

fun keeps_logs :: "ls_op \<Rightarrow> bool" where
  "keeps_logs (LUpdateSequencedLeaves i ls) = False"
| "keeps_logs (LCommit i) = False"
| "keeps_logs _ = True"

lemma txs_inv_step:
  assumes "txs_inv cd L P s" "begins_alone s o'" "op_good cd (envs, o')"
    "codec_pair (gobEncode cd) (gobDecode cd) (\<lambda>f. \<exists>hs. frontier_rep f hs)" "\<forall>t. valid_tree t \<longrightarrow> P True t (L t)" "keeps_logs o'"
  shows "txs_inv cd L P (ls_step sc s (envs, o'))"
proof (cases o')
  case (LBegin i r t)
  then show ?thesis using txs_inv_begin [OF assms(1), of i r t envs sc] assms by (simp add: op_good_def)
next
  case (LQueueLeaves i ls ts)
  show ?thesis
    unfolding LQueueLeaves ls_step.simps by (rule txs_inv_on_tx [OF assms(1)]) (auto dest: lt_QueueLeaves_extends)
next
  case (LDequeueLeaves i n c)
  show ?thesis
    unfolding LDequeueLeaves ls_step.simps
    by (rule txs_inv_on_tx [OF assms(1)]) (auto dest: DequeueLeaves_extends DequeueLeaves_fields)
next
  case (LSetMerkleNodes i ns)
  show ?thesis
    unfolding LSetMerkleNodes ls_step.simps
    by (rule txs_inv_on_tx [OF assms(1)]) (auto dest: SetMerkleNodes_extends SetMerkleNodes_fields)
next
  case (LStoreSignedLogRoot i sth)
  show ?thesis
    unfolding LStoreSignedLogRoot ls_step.simps
    by (rule txs_inv_on_tx [OF assms(1)])
       (use assms(3) LStoreSignedLogRoot in \<open>auto simp: op_good_def dest: StoreSignedLogRoot_extends StoreSignedLogRoot_world\<close>)
next
  case (LRollback i)
  then show ?thesis using assms(1) by (simp add: txs_inv_on_tx_only)
next
  case (LClose i)
  then show ?thesis using assms(1) by (simp add: txs_inv_on_tx_only)
next
  case (LStorageQueueLeaves r t ls ts)
  have "db_holds_logs cd L (w_db (fst (LogStorage_QueueLeaves (scNew sc) (envs 0) envs (fst s) r t ls ts)))"
    using assms(1) LogStorage_QueueLeaves_loop_keeps_logs [OF prod.collapse [symmetric], of cd L "fst s" envs _ ls ts "[]"]
    by (auto simp: LogStorage_QueueLeaves_def txs_inv_def split: sum.splits)
  then show ?thesis using assms(1) unfolding LStorageQueueLeaves ls_step.simps txs_inv_def fst_conv snd_conv by blast
qed (use assms(6) in simp_all)

text \<open>One step of a serial history appends to the logs.\<close>

lemma log_update:
  assumes "log_inv cd L s" "\<forall>l \<in> set ls. MerkleLeafHash l \<noteq> None"
  shows "log_inv cd L (ls_step sc s (envs, LUpdateSequencedLeaves i ls))"
proof (cases "snd s i")
  case None
  then show ?thesis using assms(1) by (simp add: on_tx_def)
next
  case (Some lt)
  obtain w' lt' res where upd: "UpdateSequencedLeaves (envs 0) (fst s) lt ls = (w', lt', res)" by (rule prod_cases3)
  have "log_inv cd L (w', (snd s)(i \<mapsto> lt'))" using upd assms(2)
  proof (cases rule: UpdateSequencedLeaves_outcome)
    case blocked
    then show ?thesis using assms(1) Some by (simp add: fun_upd_idem)
  next
    case performed
    have "lt_extends cd (prefix (L (treeID lt))) lt'"
      by (rule performed(6) [OF txs_invD(3) [OF assms(1) Some performed(1)]]) simp_all
    then show ?thesis
      using performed(4,5) txs_invD(1) [OF assms(1)] txs_invD(4) [OF assms(1) Some performed(1)]
      by (intro txs_inv_place [OF assms(1)]) auto
  qed
  then show ?thesis using Some upd by (simp add: on_tx_def)
qed

lemma log_commit:
  assumes "log_inv cd L s"
  shows "\<exists>L'. log_inv cd L' (ls_step sc s (envs, LCommit i)) \<and> (\<forall>t. prefix (L t) (L' t))"
proof (cases "snd s i")
  case None
  then show ?thesis using assms by (intro exI [of _ L]) (simp add: on_tx_def)
next
  case (Some lt)
  obtain w' lt' res where com: "lt_Commit sc (envs 0) (fst s) lt = (w', lt', res)" by (rule prod_cases3)
  then have "ls_step sc s (envs, LCommit i) = (w', (snd s)(i \<mapsto> lt'))" using Some by (simp add: on_tx_def)
  moreover have "\<exists>L'. log_inv cd L' (w', (snd s)(i \<mapsto> lt')) \<and> (\<forall>t. prefix (L t) (L' t))"
    using assms Some com
  proof (cases rule: txs_inv_commit)
    case same
    then show ?thesis by (intro exI [of _ L]) simp
  next
    case (changed hs)
    then show ?thesis by (intro exI [of _ "L(treeID lt := hs)"]) simp
  qed
  ultimately show ?thesis by simp
qed

lemma log_step:
  assumes "log_inv cd L s" "begins_alone s o'" "op_good cd (envs, o')"
    "codec_pair (gobEncode cd) (gobDecode cd) (\<lambda>f. \<exists>hs. frontier_rep f hs)"
  shows "\<exists>L'. log_inv cd L' (ls_step sc s (envs, o')) \<and> (\<forall>t. prefix (L t) (L' t))"
proof -
  consider i ls where "o' = LUpdateSequencedLeaves i ls" | i where "o' = LCommit i" | "keeps_logs o'" by (cases o') auto
  then show ?thesis
  proof cases
    case 1
    then have "log_inv cd L (ls_step sc s (envs, o'))" using log_update [OF assms(1)] assms(3) by (simp add: op_good_def)
    then show ?thesis by (intro exI [of _ L]) simp
  next
    case 2
    then show ?thesis using log_commit [OF assms(1)] by simp
  next
    case 3
    then show ?thesis using txs_inv_step [OF assms, of sc] by (intro exI [of _ L]) simp
  qed
qed

lemma log_run:
  assumes "log_inv cd L s" "serial sc s ops" "list_all (op_good cd) ops"
    "codec_pair (gobEncode cd) (gobDecode cd) (\<lambda>f. \<exists>hs. frontier_rep f hs)"
  shows "\<exists>L'. log_inv cd L' (ls_run sc s ops) \<and> (\<forall>t. prefix (L t) (L' t))"
  using assms(1-3)
proof (induction ops arbitrary: L s)
  case Nil
  then show ?case by (auto simp: ls_run_def)
next
  case (Cons op ops)
  obtain envs o' where op: "op = (envs, o')" by (cases op)
  then obtain L1 where L1: "log_inv cd L1 (ls_step sc s op)" "\<forall>t. prefix (L t) (L1 t)"
    using log_step [OF Cons.prems(1), of o' envs sc] Cons.prems assms(4) by auto
  then obtain L2 where "log_inv cd L2 (ls_run sc (ls_step sc s op) ops)" "\<forall>t. prefix (L1 t) (L2 t)"
    using Cons.IH [OF L1(1)] Cons.prems by auto
  then show ?case using L1(2) by (intro exI [of _ L2]) (auto simp: ls_run_def intro: prefix_order.order_trans)
qed

text \<open>
  C3. The log is append-only. In every history of storage operations in which the transactions of a tree do not overlap,
  with any failures of the databases and any number of trees, two heads of a tree that are read one after the other
  are the Merkle tree hashes of a log and of an extension of it; the RFC 6962 consistency proof between them is
  accepted.
\<close>

theorem append_only_log:
  assumes "codec_pair (gobEncode cd) (gobDecode cd) (\<lambda>f. \<exists>hs. frontier_rep f hs)"
    and "list_all (op_good cd) (ops1 @ ops2)"
    and "serial sc (\<lparr>w_db = [], w_cache = c, w_uploads = []\<rparr>, \<lambda>_. None) (ops1 @ ops2)"
    and "ls_run sc (\<lparr>w_db = [], w_cache = c, w_uploads = []\<rparr>, \<lambda>_. None) ops1 = (w1, txs1)"
    and "ls_run sc (w1, txs1) ops2 = (w2, txs2)"
    and "valid_tree t" "MostRecentRoot cd io1 (w_db w1) t = Inr (sth1, f1)" "MostRecentRoot cd io2 (w_db w2) t = Inr (sth2, f2)"
  shows "\<exists>hs ks. frontier_rep f1 hs \<and> contents (RootHash sth1) = mth hs \<and>
    frontier_rep f2 (hs @ ks) \<and> contents (RootHash sth2) = mth (hs @ ks) \<and>
    (hs \<noteq> [] \<and> ks \<noteq> [] \<longrightarrow> VerifyConsistencyProof (int (length hs)) (int (length (hs @ ks)))
       (contents (RootHash sth1)) (contents (RootHash sth2)) (consistency_proof (length hs) (hs @ ks)) = Inr ())"
proof -
  let ?s = "(\<lparr>w_db = [], w_cache = c, w_uploads = []\<rparr>, \<lambda>_. None) :: 'a ls_state"
  have "log_inv cd (\<lambda>_. []) ?s"
    by (simp add: txs_inv_def db_holds_logs_def db_holds_log_def db_get_def)
  then obtain L1 where L1: "log_inv cd L1 (w1, txs1)"
    using log_run [of cd "\<lambda>_. []" ?s sc ops1] assms(1-4) by (auto simp: serial_append)
  then obtain L2 where L2: "log_inv cd L2 (w2, txs2)" "prefix (L1 t) (L2 t)"
    using log_run [of cd L1 "(w1, txs1)" sc ops2] assms(1-5) by (auto simp: serial_append)
  obtain ks where ks: "L2 t = L1 t @ ks" using L2(2) by (auto simp: prefix_def)
  have "frontier_rep f1 (L1 t) \<and> contents (RootHash sth1) = mth (L1 t)"
    using L1 assms(6) by (intro MostRecentRoot_of_log [OF assms(7) _ assms(1)]) (simp add: txs_inv_def db_holds_logs_def)
  moreover have "frontier_rep f2 (L2 t) \<and> contents (RootHash sth2) = mth (L2 t)"
    using L2(1) assms(6) by (intro MostRecentRoot_of_log [OF assms(8) _ assms(1)]) (simp add: txs_inv_def db_holds_logs_def)
  ultimately show ?thesis
    using VerifyConsistencyProof_complete [of "length (L1 t)" "L1 t @ ks"] ks by (intro exI [of _ "L1 t"] exI [of _ ks]) simp
qed


text \<open>
  One sequencer per tree, as the server runs it: a tree has one place for its current transaction, and a new one
  takes the place of the last. Such histories are serial.
\<close>

lemma same_tree:
  "lt_QueueLeaves envs w lt ls ts = (w1, lt1, r1) \<Longrightarrow> treeID lt1 = treeID lt"
  "lt_DequeueLeaves env w lt n c = (w2, lt2, r2) \<Longrightarrow> treeID lt2 = treeID lt"
  "UpdateSequencedLeaves env w lt ls = (w3, lt3, r3) \<Longrightarrow> treeID lt3 = treeID lt"
  "SetMerkleNodes sc env w lt ns = (w4, lt4, r4) \<Longrightarrow> treeID lt4 = treeID lt"
  "StoreSignedLogRoot env w lt sth = (w5, lt5, r5) \<Longrightarrow> treeID lt5 = treeID lt"
  "lt_Commit sc env w lt = (w6, lt6, r6) \<Longrightarrow> treeID lt6 = treeID lt"
  "treeID (fst (lt_Rollback lt)) = treeID lt" "treeID (fst (lt_Close lt)) = treeID lt"
        apply (auto simp: lt_QueueLeaves_def split_beta Let_def split: option.splits)[1]
       apply (auto simp: lt_DequeueLeaves_def split_beta Let_def split: option.splits)[1]
      apply (auto simp: UpdateSequencedLeaves_def split_beta Let_def split: option.splits sum.splits)[1]
     apply (auto simp: SetMerkleNodes_def split_beta Let_def split: option.splits)[1]
    apply (auto simp: StoreSignedLogRoot_def split_beta Let_def split: option.splits if_splits)[1]
   apply (erule lt_Commit_outcome; simp)
  by (simp_all add: lt_Rollback_def lt_Close_def split_beta split: option.splits)

lemma on_tx_tree:
  assumes "\<And>w lt w' lt' res. f w lt = (w', lt', res) \<Longrightarrow> treeID lt' = treeID lt"
    and "snd (on_tx s i (\<lambda>w lt. let (w, lt, _) = f w lt in (w, lt))) j = Some lt'"
  shows "\<exists>lt. snd s j = Some lt \<and> treeID lt' = treeID lt"
proof (cases "snd s i")
  case None
  then show ?thesis using assms(2) by (simp add: on_tx_def)
next
  case (Some lt)
  obtain w' l' res where f: "f (fst s) lt = (w', l', res)" by (rule prod_cases3)
  then show ?thesis using assms(2) assms(1) [OF f] Some by (auto simp: on_tx_def split: if_splits)
qed

lemma on_tx_only_tree:
  assumes "\<And>lt. treeID (g lt) = treeID lt" "snd (on_tx s i (\<lambda>w lt. (w, g lt))) j = Some lt'"
  shows "\<exists>lt. snd s j = Some lt \<and> treeID lt' = treeID lt"
  using on_tx_tree [of "\<lambda>w lt. (w, g lt, ())" s i j lt'] assms by simp

lemma ls_step_tree:
  assumes "snd (ls_step sc s (envs, o')) j = Some lt'"
  shows "(\<exists>lt. snd s j = Some lt \<and> treeID lt' = treeID lt) \<or> (\<exists>r. o' = LBegin j r (treeID lt'))"
proof (cases o')
  case (LBegin i r t)
  then show ?thesis using assms
    by (auto simp: beginForTree_def Let_def split_beta split: sum.splits if_splits option.splits)
next
  case (LQueueLeaves i ls ts)
  from assms [unfolded this ls_step.simps] show ?thesis by (intro disjI1) (erule on_tx_tree [rotated], erule same_tree(1))
next
  case (LDequeueLeaves i n c)
  from assms [unfolded this ls_step.simps] show ?thesis by (intro disjI1) (erule on_tx_tree [rotated], erule same_tree(2))
next
  case (LUpdateSequencedLeaves i ls)
  from assms [unfolded this ls_step.simps] show ?thesis by (intro disjI1) (erule on_tx_tree [rotated], erule same_tree(3))
next
  case (LSetMerkleNodes i ns)
  from assms [unfolded this ls_step.simps] show ?thesis by (intro disjI1) (erule on_tx_tree [rotated], erule same_tree(4))
next
  case (LStoreSignedLogRoot i sth)
  from assms [unfolded this ls_step.simps] show ?thesis by (intro disjI1) (erule on_tx_tree [rotated], erule same_tree(5))
next
  case (LCommit i)
  from assms [unfolded this ls_step.simps] show ?thesis by (intro disjI1) (erule on_tx_tree [rotated], erule same_tree(6))
next
  case (LRollback i)
  from assms [unfolded this ls_step.simps] show ?thesis by (intro disjI1) (erule on_tx_only_tree [rotated], rule same_tree(7))
next
  case (LClose i)
  from assms [unfolded this ls_step.simps] show ?thesis by (intro disjI1) (erule on_tx_only_tree [rotated], rule same_tree(8))
next
  case (LStorageQueueLeaves r t ls ts)
  then show ?thesis using assms by simp
qed

lemma one_place_per_tree_serial:
  assumes "\<forall>op \<in> set ops. \<forall>i r t. snd op = LBegin i r t \<longrightarrow> i = place t" "\<forall>i lt. snd s i = Some lt \<longrightarrow> i = place (treeID lt)"
  shows "serial sc s ops"
  using assms
proof (induction ops arbitrary: s)
  case Nil
  then show ?case by simp
next
  case (Cons op ops)
  obtain envs o' where op: "op = (envs, o')" by (cases op)
  have "begins_alone s o'"
    using Cons.prems op by (cases o') auto
  moreover have "\<forall>i lt. snd (ls_step sc s op) i = Some lt \<longrightarrow> i = place (treeID lt)"
    using ls_step_tree [of sc s envs o'] Cons.prems unfolding op by fastforce
  ultimately show ?case using Cons.IH Cons.prems(1) op by simp
qed

section \<open>Concrete histories\<close>

text \<open>A sequencing transaction of tree 5 that adds one leaf with the Merkle leaf hash \<open>[h]\<close>.\<close>

definition sequenced :: "byte \<Rightarrow> LogLeaf" where
  "sequenced h = (sample_leaf [])\<lparr>MerkleLeafHash := Some [h], LeafIdentityHash := Some [9]\<rparr>"

definition head_of :: "byte \<Rightarrow> SignedLogRoot" where
  "head_of h = zero_SignedLogRoot\<lparr>RootHash := Some [h], LogRoot := Some [h]\<rparr>"

definition sequencing :: "nat \<Rightarrow> byte \<Rightarrow> ((nat \<Rightarrow> env) \<times> ls_op) list" where
  "sequencing i h = map (\<lambda>o'. (\<lambda>_. sample_env, o'))
    [LDequeueLeaves i 10 100, LUpdateSequencedLeaves i [sequenced h], LSetMerkleNodes i [], LStoreSignedLogRoot i (head_of h)]"

definition begin_5 :: "nat \<Rightarrow> (nat \<Rightarrow> env) \<times> ls_op" where
  "begin_5 i = (\<lambda>_. sample_env, LBegin i \<lparr>bucket = [], url = []\<rparr> 5)"

definition commit_tx :: "nat \<Rightarrow> (nat \<Rightarrow> env) \<times> ls_op" where
  "commit_tx i = (\<lambda>_. sample_env, LCommit i)"

lemma sample_world_db: "w_db sample_world = db_write [] (root_puts 5 sample_init_sth [])"
  by (simp add: sample_world_def root_puts_def sample_init_sth_def zero_SignedLogRoot_def db_write_def keyS_eq_keyB ascii_def)

lemma step_begin:
  assumes "w_db w = w_db sample_world"
  shows "ls_step sample_sc (w, txs) (begin_5 i) = (w, txs(i \<mapsto> sample_lt sBegin (Some []) [] False))"
proof -
  have "beginForTree sample_sc sample_env w \<lparr>bucket = [], url = []\<rparr> 5 = beginForTree sample_sc sample_env sample_world \<lparr>bucket = [], url = []\<rparr> 5"
    by (simp only: beginForTree_def assms)
  then show ?thesis using sample_begin by (simp add: begin_5_def)
qed

lemma step_dequeue:
  assumes "w_db w = w_db sample_world"
  shows "lt_DequeueLeaves sample_env w (sample_lt sBegin (Some []) [] False) 10 100 = (w, sample_lt sDequeueLeaves (Some []) [] False, Inr [])"
  using sample_dequeue assms by (auto simp: lt_DequeueLeaves_def split_beta Let_def split: option.splits)

lemma step_update:
  obtains w' ops where "UpdateSequencedLeaves sample_env w (sample_lt sDequeueLeaves (Some []) [] False) [sequenced h] =
    (w', sample_lt sUpdateSequencedLeaves (Some ops) [Some [h]] False, Inr ())" "w_db w' = w_db w" "list_all not_root_row ops"
proof -
  have "merge_batch [sequenced h] [] = Inr [sequenced h]"
    using merge_batch_ok [of "[sequenced h]" 1 "[]" "\<lambda>_. sequenced h"]
    by (simp add: sequenced_def sample_leaf_def smod_nonneg split: if_splits)
  then have "\<exists>ups. Remote_PutLeaves sample_codec (e_http sample_env) (e_b2 sample_env) id r 5 [sequenced h] = (ups, Inr ())" for r
    by (simp add: Remote_PutLeaves_def group_batches_def put_batch_def getBatch_def store_batch_def sample_env_def sample_codec_def Let_def)
  then obtain ups where ups: "Remote_PutLeaves sample_codec (e_http sample_env) (e_b2 sample_env) id \<lparr>bucket = [], url = []\<rparr> 5 [sequenced h] = (ups, Inr ())"
    by blast
  have "Append \<lparr>Roots = []\<rparr> (Some [h]) = \<lparr>Roots = [Some [h]]\<rparr>" by (simp add: Append_def Append_loop.simps)
  moreover obtain raw where "PutVarint 8 0 = Inr raw" using PutVarint_8 [of 0] by (auto simp: in_int64_def)
  ultimately have "UpdateSequencedLeaves sample_env w (sample_lt sDequeueLeaves (Some []) [] False) [sequenced h] =
      (w\<lparr>w_uploads := w_uploads w @ ups\<rparr>, sample_lt sUpdateSequencedLeaves
        (Some [BatchPut (keyB typ_m 5 [h]) raw, BatchPut (keyB typ_i 5 [9]) raw]) [Some [h]] False, Inr ())"
    using ups by (simp add: UpdateSequencedLeaves_def sample_emit allowed_iff)
      (simp add: sample_lt_def sample_env_def LocalTx_PutLeaves_def sequenced_def sample_leaf_def)
  with that show thesis by (simp add: not_root_row_keyB)
qed

lemma step_store:
  assumes "h \<noteq> 0"
  shows "StoreSignedLogRoot sample_env w (sample_lt sSetMerkleNodes (Some ops) [Some [h]] False) (head_of h) =
    (w, sample_lt sStoreSignedLogRoot (Some (ops @ root_puts 5 (head_of h) [h])) [Some [h]] False, Inr ())"
proof -
  have "LocalTx_StoreRoot sample_codec \<lparr>batch = Some ops\<rparr> 5 (head_of h) \<lparr>Roots = [Some [h]]\<rparr> =
      (\<lparr>batch = Some ops\<rparr>\<lparr>batch := Some (ops @ root_puts 5 (head_of h) [h])\<rparr>, Inr ())"
    by (rule StoreRoot_effect) (use assms in \<open>simp_all add: sample_codec_def\<close>)
  then show ?thesis
    by (simp add: StoreSignedLogRoot_def sample_emit allowed_iff)
       (simp add: sample_lt_def head_of_def bytes_Equal_def Head_def sample_env_def)
qed

lemma run_sequencing:
  assumes "w_db w = w_db sample_world" "txs i = Some (sample_lt sBegin (Some []) [] False)" "h \<noteq> 0"
  obtains w' ops where "ls_run sample_sc (w, txs) (sequencing i h) =
      (w', txs(i \<mapsto> sample_lt sStoreSignedLogRoot (Some (ops @ root_puts 5 (head_of h) [h])) [Some [h]] False))"
    "w_db w' = w_db w" "list_all not_root_row ops"
proof -
  obtain w' ops where "UpdateSequencedLeaves sample_env w (sample_lt sDequeueLeaves (Some []) [] False) [sequenced h] =
    (w', sample_lt sUpdateSequencedLeaves (Some ops) [Some [h]] False, Inr ())" "w_db w' = w_db w" "list_all not_root_row ops"
    by (rule step_update)
  with that [of w' ops] assms show thesis
    by (simp add: sequencing_def ls_run_def on_tx_def step_dequeue sample_nodes step_store)
qed

lemma step_commit:
  assumes "txs i = Some (sample_lt sStoreSignedLogRoot (Some ops) rs False)"
  shows "ls_step sample_sc (w, txs) (commit_tx i) = (w\<lparr>w_db := db_write (w_db w) ops\<rparr>, txs(i \<mapsto> sample_lt sCommit None rs True))"
  using assms by (simp add: commit_tx_def on_tx_def sample_commit)

lemma read_committed:
  assumes "db_wf d" "list_all not_root_row ops" "h \<noteq> 0"
  obtains sth where "MostRecentRoot sample_codec no_faults (db_write d (ops @ root_puts 5 (head_of h) [h])) 5 = Inr (sth, \<lparr>Roots = [Some [h]]\<rparr>)"
    "RootHash sth = Some [h]"
  using assms that
  by (simp add: MostRecentRoot_def snap_Get_def db_get_write batch_effect_append not_root_effect root_puts_effect)
     (simp add: sample_codec_def head_of_def)


lemma sample_foreign: "foreign_errors sample_codec no_faults"
  by (simp add: foreign_errors_def no_faults_def) (simp add: sample_codec_def)

lemma sample_good:
  "list_all (op_good sample_codec) sample_history" "h \<noteq> 0 \<Longrightarrow> list_all (op_good sample_codec) (sequencing i h)"
  "op_good sample_codec (begin_5 i)" "op_good sample_codec (commit_tx i)"
  using sample_foreign
  by (simp_all add: op_good_def sample_history_def sequencing_def begin_5_def commit_tx_def sample_env_def valid_tree_def
      sth_sound_def sample_init_sth_def head_of_def sequenced_def) (simp_all add: sample_codec_def)


lemma on_tx_other [simp]: "j \<noteq> i \<Longrightarrow> snd (on_tx s i f) j = snd s j"
  by (simp add: on_tx_def split_beta Let_def split: option.splits)

lemma sample_history_end:
  obtains txs where "ls_run sample_sc sample_start sample_history = (sample_world, txs)" "\<forall>j. j \<noteq> 0 \<longrightarrow> txs j = None"
proof -
  obtain txs where run: "ls_run sample_sc sample_start sample_history =
      (\<lparr>w_db = db_write [] (root_puts 5 sample_init_sth []), w_cache = leafCache, w_uploads = []\<rparr>, txs)"
    using sample_history_run by blast
  then have "ls_run sample_sc sample_start sample_history = (sample_world, txs)"
    using sample_world_db by (simp add: sample_world_def)
  moreover have "snd (ls_run sample_sc sample_start sample_history) j = None" if "j \<noteq> 0" for j
    using that by (simp add: ls_run_def sample_history_def sample_start_def split: sum.splits)
  ultimately show thesis using that [of txs] by simp
qed

lemma frontier_one: "frontier_rep \<lparr>Roots = [Some [h]]\<rparr> [[h]]"
  using frontier_rep_Append [OF frontier_rep_empty, of "[h]"] by (simp add: Append_def Append_loop.simps empty_frontier_def)

lemma sample_world_read: "\<exists>sth. MostRecentRoot sample_codec no_faults (w_db sample_world) 5 = Inr (sth, \<lparr>Roots = []\<rparr>)"
  using sample_root by blast

theorem append_only_log_witness:
  "\<exists>w2 txs2 sth1 f1 sth2 f2 hs ks.
     ls_run sample_sc sample_start (sample_history @ begin_5 0 # sequencing 0 4 @ [commit_tx 0]) = (w2, txs2) \<and>
     MostRecentRoot sample_codec no_faults (w_db sample_world) 5 = Inr (sth1, f1) \<and>
     MostRecentRoot sample_codec no_faults (w_db w2) 5 = Inr (sth2, f2) \<and>
     frontier_rep f1 hs \<and> contents (RootHash sth1) = mth hs \<and> frontier_rep f2 (hs @ ks) \<and> contents (RootHash sth2) = mth (hs @ ks) \<and>
     RootHash sth2 = Some [4]"
proof -
  obtain txs where init: "ls_run sample_sc sample_start sample_history = (sample_world, txs)" "\<forall>j. j \<noteq> 0 \<longrightarrow> txs j = None"
    by (rule sample_history_end)
  let ?txs = "txs(0 \<mapsto> sample_lt sBegin (Some []) [] False)"
  obtain w ops where seq: "ls_run sample_sc (sample_world, ?txs) (sequencing 0 4) =
      (w, ?txs(0 \<mapsto> sample_lt sStoreSignedLogRoot (Some (ops @ root_puts 5 (head_of 4) [4])) [Some [4]] False))"
    "w_db w = w_db sample_world" "list_all not_root_row ops"
    by (rule run_sequencing [of sample_world ?txs 0 4]) simp_all
  let ?w2 = "w\<lparr>w_db := db_write (w_db w) (ops @ root_puts 5 (head_of 4) [4])\<rparr>"
  let ?ops2 = "begin_5 0 # sequencing 0 4 @ [commit_tx 0]"
  obtain txs2 where run2: "ls_run sample_sc (sample_world, txs) ?ops2 = (?w2, txs2)"
    using seq(1) step_begin [of sample_world txs 0] by (simp add: ls_run_def step_commit)
  obtain sth1 where read1: "MostRecentRoot sample_codec no_faults (w_db sample_world) 5 = Inr (sth1, \<lparr>Roots = []\<rparr>)"
    using sample_world_read by blast
  obtain sth2 where read2: "MostRecentRoot sample_codec no_faults (w_db ?w2) 5 = Inr (sth2, \<lparr>Roots = [Some [4]]\<rparr>)" "RootHash sth2 = Some [4]"
    using read_committed [OF _ seq(3), of "w_db w" 4] seq(2) sample_world_wf by auto
  have good: "list_all (op_good sample_codec) (sample_history @ ?ops2)" using sample_good by simp
  have ser: "serial sample_sc sample_start (sample_history @ ?ops2)"
    unfolding serial_append init(1)
    using init(2) by (auto simp: sample_history_def sequencing_def begin_5_def commit_tx_def sample_start_def)
  note app = append_only_log [OF sample_gob good ser [unfolded sample_start_def] init(1) [unfolded sample_start_def] run2 _ read1 read2(1)]
  have "ls_run sample_sc sample_start (sample_history @ ?ops2) = (?w2, txs2)"
    using init(1) run2 by (simp add: ls_run_def)
  then show ?thesis using read1 read2 app by (simp add: valid_tree_def) blast
qed

text \<open>
  Two transactions of one tree that overlap: both begin on the same root, both are accepted, and the second commit
  overwrites the first one's head.
\<close>

definition forking_start :: "((nat \<Rightarrow> env) \<times> ls_op) list" where
  "forking_start = sample_history @ begin_5 0 # begin_5 1 # sequencing 0 4 @ sequencing 1 5 @ [commit_tx 0]"

text \<open>
  C19. Nothing in the storage keeps two transactions of a tree apart: \<open>beginForTree\<close> takes no lock and \<open>Commit\<close>
  compares nothing. There is a history of well-formed operations without any failure in which the head that is read
  first stands for one log and the head that is read next for another of the same size, so that no consistency
  proof between them exists.
\<close>

theorem overlapping_transactions_fork:
  "\<exists>w1 txs1 w2 txs2 sth1 f1 sth2 f2.
     list_all (op_good sample_codec) (forking_start @ [commit_tx 1]) \<and>
     ls_run sample_sc sample_start forking_start = (w1, txs1) \<and> ls_run sample_sc (w1, txs1) [commit_tx 1] = (w2, txs2) \<and>
     MostRecentRoot sample_codec no_faults (w_db w1) 5 = Inr (sth1, f1) \<and> frontier_rep f1 [[4]] \<and>
     MostRecentRoot sample_codec no_faults (w_db w2) 5 = Inr (sth2, f2) \<and> frontier_rep f2 [[5]] \<and>
     (\<forall>pf. VerifyConsistencyProof 1 1 (contents (RootHash sth1)) (contents (RootHash sth2)) pf \<noteq> Inr ())"
proof -
  obtain txs where init: "ls_run sample_sc sample_start sample_history = (sample_world, txs)"
    using sample_history_end by blast
  let ?lt = "sample_lt sBegin (Some []) [] False"
  let ?txs = "txs(0 \<mapsto> ?lt, 1 \<mapsto> ?lt)"
  let ?st = "\<lambda>ops h. sample_lt sStoreSignedLogRoot (Some (ops @ root_puts 5 (head_of h) [h])) [Some [h]] False"
  obtain wa opsa where seqa: "ls_run sample_sc (sample_world, ?txs) (sequencing 0 4) = (wa, ?txs(0 \<mapsto> ?st opsa 4))"
    "w_db wa = w_db sample_world" "list_all not_root_row opsa"
    by (rule run_sequencing [of sample_world ?txs 0 4]) simp_all
  let ?txsa = "?txs(0 \<mapsto> ?st opsa 4)"
  obtain wb opsb where seqb: "ls_run sample_sc (wa, ?txsa) (sequencing 1 5) = (wb, ?txsa(1 \<mapsto> ?st opsb 5))"
    "w_db wb = w_db sample_world" "list_all not_root_row opsb"
    by (rule run_sequencing [of wa ?txsa 1 5]) (simp_all add: seqa(2))
  let ?w1 = "wb\<lparr>w_db := db_write (w_db wb) (opsa @ root_puts 5 (head_of 4) [4])\<rparr>"
  let ?txs1 = "?txsa(1 \<mapsto> ?st opsb 5, 0 \<mapsto> sample_lt sCommit None [Some [4]] True)"
  let ?w2 = "?w1\<lparr>w_db := db_write (w_db ?w1) (opsb @ root_puts 5 (head_of 5) [5])\<rparr>"
  have run1: "ls_run sample_sc sample_start forking_start = (?w1, ?txs1)"
    using init seqa(1) seqb(1) by (simp add: forking_start_def ls_run_def step_begin step_commit)
  obtain txs2 where run2: "ls_run sample_sc (?w1, ?txs1) [commit_tx 1] = (?w2, txs2)"
    by (simp add: ls_run_def step_commit)
  have wf: "db_wf (w_db wb)" using sample_world_wf seqb(2) by simp
  obtain sth1 where read1: "MostRecentRoot sample_codec no_faults (w_db ?w1) 5 = Inr (sth1, \<lparr>Roots = [Some [4]]\<rparr>)" "RootHash sth1 = Some [4]"
    using read_committed [OF wf seqa(3), of 4] by auto
  obtain sth2 where read2: "MostRecentRoot sample_codec no_faults (w_db ?w2) 5 = Inr (sth2, \<lparr>Roots = [Some [5]]\<rparr>)" "RootHash sth2 = Some [5]"
    using read_committed [OF _ seqb(3), of "w_db ?w1" 5] db_wf_write [OF wf] by auto
  have "list_all (op_good sample_codec) (forking_start @ [commit_tx 1])"
    using sample_good by (simp add: forking_start_def)
  moreover have "VerifyConsistencyProof 1 1 [4] [5] pf \<noteq> Inr ()" for pf
    by (simp add: VerifyConsistencyProof_def)
  ultimately show ?thesis
    using run1 run2 read1 read2 frontier_one [of 4] frontier_one [of 5] by fastforce
qed

end
