(* ===== verification/RemoteLog.thy ===== *)
theory RemoteLog
  imports Remote
begin

text \<open>
  The remote database as a list of leaves: the objects of a tree hold a log \<open>L\<close> when each batch is the slice of
  \<open>L\<close> at its position. On such objects \<open>GetLeaves\<close> is list access, in sorted order, and \<open>PutLeaves\<close> is list
  update and extension, whatever the order of its argument and of the iteration over the batches.
\<close>

section \<open>The abstraction\<close>

definition holds_log :: "codec \<Rightarrow> http_client \<Rightarrow> Remote \<Rightarrow> int \<Rightarrow> LogLeaf list \<Rightarrow> bool" where
  "holds_log cd http r t L \<longleftrightarrow>
    (\<forall>i < length L. LeafIndex (L ! i) = int i) \<and>
    (\<forall>b \<ge> 0. getBatch cd http r t b =
      (if 1024 * b < int (length L) then Inr (map Some (take 1024 (drop (nat (1024 * b)) L))) else Inl ErrLeavesNotFound))"

text \<open>A web server that serves the objects of a store under the remote's address.\<close>

definition serves :: "http_client \<Rightarrow> Remote \<Rightarrow> (string \<Rightarrow> bytes option) \<Rightarrow> bool" where
  "serves http r objs \<longleftrightarrow>
    (\<forall>name. newRequestErr http (url r @ ''/'' @ name) = None \<and>
      (case objs name of
         None \<Rightarrow> \<exists>resp. clientDo http (url r @ ''/'' @ name) = Inr resp \<and> StatusCode resp = 404
       | Some body \<Rightarrow> \<exists>resp. clientDo http (url r @ ''/'' @ name) = Inr resp \<and> StatusCode resp = 200 \<and> Body resp = body))"

lemma getBatch_serves:
  assumes "serves http r objs"
  shows "getBatch cd http r t b =
    (case objs (object_name t b) of None \<Rightarrow> Inl ErrLeavesNotFound | Some body \<Rightarrow> jsonDecode cd body)"
proof -
  have "newRequestErr http (url r @ ''/'' @ object_name t b) = None \<and>
    (case objs (object_name t b) of
         None \<Rightarrow> \<exists>resp. clientDo http (url r @ ''/'' @ object_name t b) = Inr resp \<and> StatusCode resp = 404
       | Some body \<Rightarrow> \<exists>resp. clientDo http (url r @ ''/'' @ object_name t b) = Inr resp \<and> StatusCode resp = 200 \<and> Body resp = body)"
    using assms unfolding serves_def by blast
  then show ?thesis
    unfolding getBatch_def getBatch_addr Let_def by (auto split: option.splits)
qed

section \<open>Reading\<close>

lemma slice_nth:
  assumes "i < length L"
  shows "i mod 1024 < length (take 1024 (drop (1024 * (i div 1024)) L))"
    "take 1024 (drop (1024 * (i div 1024)) L) ! (i mod 1024) = L ! i"
proof -
  have "1024 * (i div 1024) + i mod 1024 = i" by simp
  then show "i mod 1024 < length (take 1024 (drop (1024 * (i div 1024)) L))"
    using assms by (simp add: less_diff_conv)
  with \<open>1024 * (i div 1024) + i mod 1024 = i\<close> assms show "take 1024 (drop (1024 * (i div 1024)) L) ! (i mod 1024) = L ! i"
    by simp
qed

lemma batch_has_log:
  assumes "holds_log cd http r t L" "0 \<le> s" "s < int (length L)"
  shows "batch_has cd http r t s (Some (L ! nat s))"
proof -
  define i where "i = nat s"
  have i: "s = int i" "i < length L" using assms(2,3) by (auto simp: i_def)
  have "getBatch cd http r t (s div 1024) = Inr (map Some (take 1024 (drop (1024 * (i div 1024)) L)))"
  proof -
    have "1024 * (s div 1024) < int (length L)" using assms(3) mult_div_mod_eq [of 1024 s] pos_mod_sign [of 1024 s] by linarith
    moreover have "nat (1024 * (s div 1024)) = 1024 * (i div 1024)" using i by (simp add: nat_mult_distrib nat_div_distrib)
    ultimately show ?thesis using assms(1,2) by (simp add: holds_log_def)
  qed
  moreover have "nat (s mod 1024) = i mod 1024" using i by (simp add: nat_mod_distrib)
  ultimately show ?thesis
    using slice_nth [OF i(2)] i by (simp add: batch_has_def)
qed

lemma batch_has_bound:
  assumes "holds_log cd http r t L" "0 \<le> s" "batch_has cd http r t s leaf"
  shows "s < int (length L)"
proof -
  let ?q = "s div 1024"
  have "0 \<le> ?q" using assms(2) by simp
  then have get: "getBatch cd http r t ?q =
      (if 1024 * ?q < int (length L) then Inr (map Some (take 1024 (drop (nat (1024 * ?q)) L))) else Inl ErrLeavesNotFound)"
    using assms(1) unfolding holds_log_def by blast
  obtain data where data: "getBatch cd http r t ?q = Inr data" "nat (s mod 1024) < length data"
    using assms(3) by (auto simp: batch_has_def split: sum.splits)
  then have "length data \<le> length L - nat (1024 * ?q)" using get by (auto split: if_splits)
  then have "nat (s mod 1024) < length L - nat (1024 * ?q)" using data(2) by simp
  then have "s mod 1024 + 1024 * ?q < int (length L)" using \<open>0 \<le> ?q\<close> pos_mod_sign [of 1024 s] by linarith
  then show ?thesis by simp
qed

lemma GetLeaves_loop_missing:
  assumes "holds_log cd http r t L" "\<forall>s \<in> set seqs. 0 \<le> s \<and> s < 2 ^ 63" "\<exists>s \<in> set seqs. int (length L) \<le> s"
  shows "\<exists>e \<in> {ErrLeavesNotFound, Errorf ''set of stored leaves is truncated'' []}. GetLeaves_loop cd http r t seqs out = Inl e"
  using assms
proof (induction cd http r t seqs out rule: GetLeaves_loop.induct)
  case (1 cd http r t out)
  then show ?case by simp
next
  case (2 cd http r t s seqs out)
  have s: "0 \<le> s" "s < 2 ^ 63" using 2(3) by auto
  let ?b = "s div 1024"
  have get: "getBatch cd http r t ?b =
      (if 1024 * ?b < int (length L) then Inr (map Some (take 1024 (drop (nat (1024 * ?b)) L))) else Inl ErrLeavesNotFound)"
    using 2(2) s by (simp add: holds_log_def)
  show ?case
  proof (cases "s < int (length L)")
    case False
    define D where "D = map Some (take 1024 (drop (nat (1024 * ?b)) L))"
    have "int (length D) \<le> s mod 1024"
      using False s by (auto simp: D_def min_def int_ops(6)) presburger
    with get [folded D_def] s show ?thesis by (simp add: sdiv_nonneg smod_nonneg Let_def)
  next
    case True
    obtain data where data: "getBatch cd http r t ?b = Inr data" "length data \<le> 1024" "nat (s mod 1024) < length data"
      using batch_has_log [OF 2(2) s(1) True] by (auto simp: batch_has_def split: sum.splits)
    obtain run rest where tr: "take_run data (s mod 1024 + 1) s seqs = (run, rest)" by (rule prod.exhaust)
    obtain runs where runs: "seqs = runs @ rest" "list_all2 (batch_has cd http r t) runs run"
      using take_run_spec [OF tr data(1,2)] s 2(3) data(2,3) by force
    have "s' < int (length L)" if "s' \<in> set runs" for s'
    proof -
      have "0 \<le> s'" using that runs(1) 2(3) by auto
      moreover have "\<exists>leaf. batch_has cd http r t s' leaf"
        using runs(2) that by (auto simp: list_all2_conv_all_nth in_set_conv_nth)
      ultimately show ?thesis using batch_has_bound [OF 2(2)] by blast
    qed
    then have "\<exists>s \<in> set rest. int (length L) \<le> s" using 2(4) runs(1) True by force
    then show ?thesis
      using s data tr runs(1) 2(1) [of "s div 1024" "s mod 1024" data "(run, rest)" run rest] 2(2,3)
      by (simp add: sdiv_nonneg smod_nonneg Let_def not_le nat_less_iff)
  qed
qed

lemma GetLeaves_log:
  assumes "holds_log cd http r t L" "\<forall>s \<in> set seqs. 0 \<le> s \<and> s < 2 ^ 63"
  shows "fst (Remote_GetLeaves cd http r t seqs) = sort seqs \<and>
    (if \<forall>s \<in> set seqs. s < int (length L)
     then snd (Remote_GetLeaves cd http r t seqs) = Inr (map (\<lambda>s. Some (L ! nat s)) (sort seqs))
     else snd (Remote_GetLeaves cd http r t seqs) \<in>
       {Inl ErrLeavesNotFound, Inl (Errorf ''set of stored leaves is truncated'' [])})"
proof (cases "seqs = []")
  case True
  then show ?thesis by (simp add: Remote_GetLeaves_def)
next
  case False
  then have call: "Remote_GetLeaves cd http r t seqs = (sort seqs, GetLeaves_loop cd http r t (sort seqs) [])"
    by (auto simp: Remote_GetLeaves_def Let_def sort_key_id_if_sorted sorted_sort_id)
  show ?thesis
  proof (cases "\<forall>s \<in> set seqs. s < int (length L)")
    case True
    then have "GetLeaves_loop cd http r t (sort seqs) [] = Inr ([] @ map (\<lambda>s. Some (L ! nat s)) (sort seqs))"
      using assms by (intro GetLeaves_loop_spec) (auto intro: batch_has_log)
    with True call show ?thesis by simp
  next
    case False
    then have "\<exists>s \<in> set (sort seqs). int (length L) \<le> s" by force
    then show ?thesis
      using GetLeaves_loop_missing [OF assms(1), of "sort seqs" "[]"] assms(2) call False by (simp del: Set.bex_simps) blast
  qed
qed

text \<open>
  C10. On objects that hold a log, \<open>GetLeaves\<close> returns the leaves with the requested sequence numbers in increasing order
  of the numbers, whatever their order in the request, and reorders the caller's slice to match; when one of
  the numbers is beyond the log, it fails.
\<close>

theorem GetLeaves_reads_log:
  assumes "holds_log cd http r t L" "\<forall>s \<in> set seqs. 0 \<le> s \<and> s < 2 ^ 63"
  shows "fst (Remote_GetLeaves cd http r t seqs) = sort seqs \<and>
    (if \<forall>s \<in> set seqs. s < int (length L)
     then snd (Remote_GetLeaves cd http r t seqs) = Inr (map (\<lambda>s. Some (L ! nat s)) (sort seqs))
     else snd (Remote_GetLeaves cd http r t seqs) \<in>
       {Inl ErrLeavesNotFound, Inl (Errorf ''set of stored leaves is truncated'' [])})"
  using assms by (rule GetLeaves_log)

section \<open>Writing\<close>

text \<open>The log after a call of \<open>PutLeaves\<close>: the new leaf where there is one, else the stored one.\<close>

definition merged :: "LogLeaf list \<Rightarrow> LogLeaf list \<Rightarrow> nat \<Rightarrow> LogLeaf list" where
  "merged L leaves n =
    map (\<lambda>i. case find (\<lambda>l. LeafIndex l = int i) leaves of Some l \<Rightarrow> l | None \<Rightarrow> L ! i) [0..<n]"

lemma find_index: "find (\<lambda>l. LeafIndex l = i) leaves = Some l \<Longrightarrow> l \<in> set leaves \<and> LeafIndex l = i"
  by (auto simp: find_Some_iff)

lemma find_distinct:
  "distinct (map LeafIndex leaves) \<Longrightarrow> l \<in> set leaves \<Longrightarrow> find (\<lambda>l'. LeafIndex l' = LeafIndex l) leaves = Some l"
  by (induction leaves) auto

text \<open>The positions of one batch's new leaves, and of one batch of the stored log.\<close>

lemma map_of_offsets_new:
  assumes "distinct (map LeafIndex leaves)" "\<forall>l \<in> set leaves. 0 \<le> LeafIndex l" "0 \<le> b"
  shows "map_of (map (\<lambda>l. (offset l, l)) (filter (\<lambda>l. LeafIndex l sdiv 1024 = b) leaves)) k =
    (if 0 \<le> k \<and> k < 1024 then find (\<lambda>l. LeafIndex l = 1024 * b + k) leaves else None)"
  using assms(1,2)
proof (induction leaves)
  case Nil
  then show ?case by simp
next
  case (Cons l leaves)
  then have l: "0 \<le> LeafIndex l" by simp
  have key: "LeafIndex l sdiv 1024 = b \<and> offset l = k \<longleftrightarrow> 0 \<le> k \<and> k < 1024 \<and> LeafIndex l = 1024 * b + k"
    using l by (simp add: sdiv_nonneg smod_nonneg div_mod_split_iff)
  have IH: "map_of (map (\<lambda>l. (offset l, l)) (filter (\<lambda>l. LeafIndex l sdiv 1024 = b) leaves)) k =
      (if 0 \<le> k \<and> k < 1024 then find (\<lambda>l. LeafIndex l = 1024 * b + k) leaves else None)"
    using Cons by simp
  show ?case
  proof (cases "LeafIndex l sdiv 1024 = b \<and> offset l = k")
    case True
    then show ?thesis using key by simp
  next
    case False
    then have "map_of (map (\<lambda>l. (offset l, l)) (filter (\<lambda>l. LeafIndex l sdiv 1024 = b) (l # leaves))) k =
        map_of (map (\<lambda>l. (offset l, l)) (filter (\<lambda>l. LeafIndex l sdiv 1024 = b) leaves)) k" by auto
    moreover have "\<not> (0 \<le> k \<and> k < 1024 \<and> LeafIndex l = 1024 * b + k)" using False key by simp
    ultimately show ?thesis using IH by simp
  qed
qed

lemma map_of_offsets_stored:
  assumes "\<forall>i < length L. LeafIndex (L ! i) = int i"
  shows "map_of (map (\<lambda>l. (offset l, l)) (take 1024 (drop (1024 * b) L))) k =
    (if 0 \<le> k \<and> k < 1024 \<and> 1024 * b + nat k < length L then Some (L ! (1024 * b + nat k)) else None)"
proof -
  let ?S = "take 1024 (drop (1024 * b) L)"
  have off: "map (\<lambda>l. (offset l, l)) ?S = map (\<lambda>j. (int j, L ! (1024 * b + j))) [0..<length ?S]"
  proof (rule nth_equalityI)
    fix j assume "j < length (map (\<lambda>l. (offset l, l)) ?S)"
    then have j: "j < 1024" "1024 * b + j < length L" by auto
    have "int (1024 * b + j) smod 1024 = int j" using j(1) by (simp add: smod_nonneg)
    moreover have "?S ! j = L ! (1024 * b + j)" "j < length ?S" using j by simp_all
    ultimately show "map (\<lambda>l. (offset l, l)) ?S ! j = map (\<lambda>j. (int j, L ! (1024 * b + j))) [0..<length ?S] ! j"
      using j assms by (simp del: length_take)
  qed simp
  have "map_of (map (\<lambda>j. (int j, f j)) [0..<n]) k = (if 0 \<le> k \<and> k < int n then Some (f (nat k)) else None)" for f :: "nat \<Rightarrow> LogLeaf" and n
    by (induction n) (auto simp: map_add_def split: option.splits)
  then show ?thesis unfolding off by auto
qed

text \<open>The batch of the merged log.\<close>

text \<open>The new and the stored leaves by their positions in a batch, and what the merged log has there.\<close>

lemma merged_positions:
  fixes b :: nat
  assumes "\<forall>i < length L. LeafIndex (L ! i) = int i" "distinct (map LeafIndex leaves)" "\<forall>l \<in> set leaves. 0 \<le> LeafIndex l"
    "LeafIndex ` set leaves \<union> {0..<int (length L)} = {0..<int n}"
  shows "(case map_of (map (\<lambda>l. (offset l, l)) (filter (\<lambda>l. LeafIndex l sdiv 1024 = int b) leaves)) k of Some l \<Rightarrow> Some l
      | None \<Rightarrow> map_of (map (\<lambda>l. (offset l, l)) (take 1024 (drop (1024 * b) L))) k) =
    (if 0 \<le> k \<and> k < int (min 1024 (n - 1024 * b)) then Some (merged L leaves n ! (1024 * b + nat k)) else None)"
proof (cases "0 \<le> k \<and> k < 1024")
  case False
  then have "\<not> (0 \<le> k \<and> k < int (min 1024 (n - 1024 * b)))" by auto
  with False show ?thesis
    unfolding map_of_offsets_new [OF assms(2,3) of_nat_0_le_iff] map_of_offsets_stored [OF assms(1)] by auto
next
  case True
  define i where "i = 1024 * b + nat k"
  have ik: "int i = 1024 * int b + k" using True by (simp add: i_def)
  have stored: "map_of (map (\<lambda>l. (offset l, l)) (take 1024 (drop (1024 * b) L))) k = (if i < length L then Some (L ! i) else None)"
    unfolding map_of_offsets_stored [OF assms(1)] i_def using True by simp
  have new: "map_of (map (\<lambda>l. (offset l, l)) (filter (\<lambda>l. LeafIndex l sdiv 1024 = int b) leaves)) k = find (\<lambda>l. LeafIndex l = int i) leaves"
    unfolding map_of_offsets_new [OF assms(2,3) of_nat_0_le_iff] ik using True by simp
  have dom: "k < int (min 1024 (n - 1024 * b)) \<longleftrightarrow> i < n" using True by (auto simp: i_def)
  have "int i \<in> LeafIndex ` set leaves \<union> {0..<int (length L)} \<longleftrightarrow> int i \<in> {0..<int n}" by (simp only: assms(4))
  then have mem: "i < n \<longleftrightarrow> int i \<in> LeafIndex ` set leaves \<or> i < length L" by simp
  have f: "merged L leaves n ! (1024 * b + nat k) = (case find (\<lambda>l. LeafIndex l = int i) leaves of Some l \<Rightarrow> l | None \<Rightarrow> L ! i)" if "i < n"
    using that by (simp add: merged_def i_def [symmetric] split: option.splits)
  show ?thesis
  proof (cases "find (\<lambda>l. LeafIndex l = int i) leaves")
    case None
    then have "int i \<notin> LeafIndex ` set leaves" by (auto simp: find_None_iff)
    then have "i < n \<longleftrightarrow> i < length L" using mem by simp
    with None f dom True show ?thesis by (simp add: new stored)
  next
    case (Some l)
    then have "int i \<in> LeafIndex ` set leaves" using find_index by force
    then have "i < n" using mem by simp
    with Some f dom True show ?thesis by (simp add: new)
  qed
qed

lemma distinct_offsets:
  assumes "distinct (map LeafIndex leaves)" "\<forall>l \<in> set leaves. 0 \<le> LeafIndex l"
  shows "distinct (map offset (filter (\<lambda>l. LeafIndex l sdiv 1024 = int b) leaves))" (is "distinct (map offset ?ls)")
  unfolding distinct_map
proof
  show "distinct ?ls" using assms(1) by (simp add: distinct_map)
  show "inj_on offset (set ?ls)"
  proof (rule inj_onI)
    fix x y assume xy: "x \<in> set ?ls" "y \<in> set ?ls" "offset x = offset y"
    then have "LeafIndex x div 1024 = LeafIndex y div 1024" "LeafIndex x mod 1024 = LeafIndex y mod 1024"
      using assms(2) by (auto simp: sdiv_nonneg smod_nonneg)
    then have "LeafIndex x = LeafIndex y" by (metis mult_div_mod_eq)
    with xy assms(1) show "x = y" by (simp add: distinct_map inj_on_def)
  qed
qed

lemma merge_batch_log:
  fixes b :: nat
  assumes "\<forall>i < length L. LeafIndex (L ! i) = int i"
    "distinct (map LeafIndex leaves)" "\<forall>l \<in> set leaves. 0 \<le> LeafIndex l"
    "LeafIndex ` set leaves \<union> {0..<int (length L)} = {0..<int n}" "1024 * b < n"
  shows "merge_batch (filter (\<lambda>l. LeafIndex l sdiv 1024 = int b) leaves) (map Some (take 1024 (drop (1024 * b) L))) =
    Inr (take 1024 (drop (1024 * b) (merged L leaves n)))"
proof -
  let ?m = "min 1024 (n - 1024 * b)"
  have "merge_batch (filter (\<lambda>l. LeafIndex l sdiv 1024 = int b) leaves) (map Some (take 1024 (drop (1024 * b) L))) =
      Inr (map (\<lambda>j. merged L leaves n ! (1024 * b + nat (int j))) [0..<?m])"
    using assms(5) by (intro merge_batch_ok distinct_offsets merged_positions assms(1-4)) simp_all
  also have "map (\<lambda>j. merged L leaves n ! (1024 * b + nat (int j))) [0..<?m] = take 1024 (drop (1024 * b) (merged L leaves n))"
    by (rule nth_equalityI) (auto simp: merged_def)
  finally show ?thesis .
qed

lemma put_batches_ok:
  assumes "\<forall>bl \<in> set bls. put_batch cd http b2 r t bl = Inr (obj bl)"
  shows "put_batches cd http b2 r t bls = (map obj bls, Inr ())"
  using assms by (induction bls) auto

text \<open>Each group of a well-formed call merges into the batch of the merged log.\<close>

lemma put_batch_ok:
  assumes "holds_log cd http r t L" "distinct (map LeafIndex leaves)" "\<forall>l \<in> set leaves. 0 \<le> LeafIndex l"
    "LeafIndex ` set leaves \<union> {0..<int (length L)} = {0..<int n}"
    "bucketErr b2 (bucket r) = None" "\<forall>name. uploadErr b2 name = None"
    "(b, ls) \<in> set (group_batches leaves)"
    "jsonEncode cd (map Some (take 1024 (drop (1024 * nat b) (merged L leaves n)))) = Inr raw"
  shows "0 \<le> b \<and> 1024 * b < int n \<and> put_batch cd http b2 r t (b, ls) = Inr (object_name t b, raw)"
proof -
  have "distinct (map fst (group_batches leaves))" using group_batches_spec by blast
  then have "map_of (group_batches leaves) b = Some ls" using assms(7) by simp
  then have ls: "ls = filter (\<lambda>l. LeafIndex l sdiv 1024 = b) leaves" "ls \<noteq> []"
    using group_batches_spec [of leaves b] by (auto simp: Let_def split: if_splits)
  then have "\<exists>l \<in> set leaves. LeafIndex l sdiv 1024 = b" by (auto simp: filter_empty_conv)
  then obtain l where l: "l \<in> set leaves" "LeafIndex l sdiv 1024 = b" by blast
  have ln: "0 \<le> LeafIndex l" "LeafIndex l < int n" using assms(3,4) l(1) by (blast, auto)
  have b: "0 \<le> b" "1024 * b < int n"
  proof -
    have "LeafIndex l div 1024 = b" using l(2) ln(1) by (simp add: sdiv_nonneg)
    then show "0 \<le> b" "1024 * b < int n" using ln mult_div_mod_eq [of 1024 "LeafIndex l"] pos_mod_sign [of 1024 "LeafIndex l"]
      by (auto simp: pos_imp_zdiv_nonneg_iff)
  qed
  have stored: "\<forall>i < length L. LeafIndex (L ! i) = int i"
    and get: "getBatch cd http r t b =
      (if 1024 * b < int (length L) then Inr (map Some (take 1024 (drop (nat (1024 * b)) L))) else Inl ErrLeavesNotFound)"
    using assms(1) b(1) by (auto simp: holds_log_def)
  have "nat (1024 * b) = 1024 * nat b" "int (nat b) = b" using b(1) by auto
  then have "merge_batch ls (map Some (take 1024 (drop (nat (1024 * b)) L))) = Inr (take 1024 (drop (1024 * nat b) (merged L leaves n)))"
    using merge_batch_log [OF stored assms(2-4), of "nat b"] b ls(1) by simp
  then have store: "store_batch cd b2 r t (b, ls) (map Some (take 1024 (drop (nat (1024 * b)) L))) = Inr (object_name t b, raw)"
    using assms(5,6,8) by (simp add: store_batch_def)
  have "drop (nat (1024 * b)) L = []" if "\<not> 1024 * b < int (length L)" using that by simp
  then show ?thesis
    using store get b by (cases "1024 * b < int (length L)") (simp_all add: put_batch_def Let_def)
qed

lemma merged_untouched:
  assumes "LeafIndex ` set leaves \<union> {0..<int (length L)} = {0..<int n}" "\<forall>l \<in> set leaves. 0 \<le> LeafIndex l"
    "filter (\<lambda>l. LeafIndex l sdiv 1024 = int b) leaves = []"
  shows "take 1024 (drop (1024 * b) (merged L leaves n)) = take 1024 (drop (1024 * b) L) \<and>
    (1024 * b < n \<longleftrightarrow> 1024 * b < length L)"
proof -
  have new: "int i \<notin> LeafIndex ` set leaves" if "1024 * b \<le> i" "i < 1024 * b + 1024" for i
  proof
    assume "int i \<in> LeafIndex ` set leaves"
    then obtain l where l: "l \<in> set leaves" "LeafIndex l = int i" by auto
    then have "LeafIndex l sdiv 1024 = int b" using that by (simp add: sdiv_nonneg)
    with l(1) assms(3) show False by (metis (mono_tags, lifting) filter_empty_conv)
  qed
  have mem: "i < n \<longleftrightarrow> i < length L" if "1024 * b \<le> i" "i < 1024 * b + 1024" for i
  proof -
    have "int i \<in> LeafIndex ` set leaves \<union> {0..<int (length L)} \<longleftrightarrow> int i \<in> {0..<int n}" by (simp only: assms(1))
    then show ?thesis using new [OF that] by simp
  qed
  have len: "min (n - 1024 * b) 1024 = min (length L - 1024 * b) 1024"
  proof (rule ccontr)
    assume ne: "\<not> ?thesis"
    define i where "i = 1024 * b + min (min (n - 1024 * b) 1024) (min (length L - 1024 * b) 1024)"
    have "1024 * b \<le> i" "i < 1024 * b + 1024" "(i < n) \<noteq> (i < length L)" using ne unfolding i_def min_def by (auto split: if_splits)
    with mem show False by blast
  qed
  have "take 1024 (drop (1024 * b) (merged L leaves n)) = take 1024 (drop (1024 * b) L)"
  proof (rule nth_equalityI)
    show "length (take 1024 (drop (1024 * b) (merged L leaves n))) = length (take 1024 (drop (1024 * b) L))"
      using len by (simp add: merged_def)
    fix i assume "i < length (take 1024 (drop (1024 * b) (merged L leaves n)))"
    then have i: "i < 1024" "1024 * b + i < n" by (auto simp: merged_def)
    then have "1024 * b + i < length L" using mem [of "1024 * b + i"] by simp
    moreover have "find (\<lambda>l. LeafIndex l = int (1024 * b + i)) leaves = None"
      using new [of "1024 * b + i"] i by (force simp: find_None_iff)
    ultimately show "take 1024 (drop (1024 * b) (merged L leaves n)) ! i = take 1024 (drop (1024 * b) L) ! i"
      using i by (simp add: merged_def)
  qed
  with mem [of "1024 * b"] show ?thesis by simp
qed

lemma map_of_uploads:
  "map_of (map (\<lambda>bl. (object_name t (fst bl), raw (fst bl))) bls) (object_name t b) =
    (if b \<in> fst ` set bls then Some (raw b) else None)"
  by (induction bls) (auto simp: object_name_inj)

lemma merged_nth:
  assumes "\<forall>i < length L. LeafIndex (L ! i) = int i" "LeafIndex ` set leaves \<union> {0..<int (length L)} = {0..<int n}" "i < n"
  shows "merged L leaves n ! i \<in> set L \<union> set leaves \<and> LeafIndex (merged L leaves n ! i) = int i"
proof -
  have "int i \<in> LeafIndex ` set leaves \<union> {0..<int (length L)} \<longleftrightarrow> int i \<in> {0..<int n}" by (simp only: assms(2))
  then have "find (\<lambda>l. LeafIndex l = int i) leaves = None \<Longrightarrow> i < length L" using assms(3) by (auto simp: find_None_iff)
  with assms(1,3) show ?thesis by (auto simp: merged_def dest: find_index split: option.splits)
qed

lemma group_batches_keys: "b \<in> fst ` set (group_batches leaves) \<longleftrightarrow> filter (\<lambda>l. LeafIndex l sdiv 1024 = b) leaves \<noteq> []"
  using group_batches_spec [of leaves b] map_of_eq_None_iff [of "group_batches leaves" b]
  by (auto simp: Let_def split: if_splits)

lemma PutLeaves_log:
  assumes "codec_pair (jsonEncode cd) (jsonDecode cd) valid"
    and "\<forall>ls. set ls \<subseteq> set L \<union> set leaves \<longrightarrow> valid (map Some ls) \<and> (\<exists>raw. jsonEncode cd (map Some ls) = Inr raw)"
    and "serves http r objs" "holds_log cd http r t L"
    and "distinct (map LeafIndex leaves)" "\<forall>l \<in> set leaves. 0 \<le> LeafIndex l"
    and "LeafIndex ` set leaves \<union> {0..<int (length L)} = {0..<int n}"
    and "bucketErr b2 (bucket r) = None" "\<forall>name. uploadErr b2 name = None" "mset (ord (group_batches leaves)) = mset (group_batches leaves)"
    and "Remote_PutLeaves cd http b2 ord r t leaves = (uploads, res)"
    and "serves http' r (objs ++ map_of uploads)"
  shows "res = Inr () \<and> holds_log cd http' r t (merged L leaves n)"
proof -
  let ?M = "merged L leaves n" and ?bls = "ord (group_batches leaves)"
  let ?slice = "\<lambda>b. take 1024 (drop (1024 * nat b) ?M)"
  define raw where "raw = (\<lambda>b. case jsonEncode cd (map Some (?slice b)) of Inr raw \<Rightarrow> raw | Inl _ \<Rightarrow> [])"
  have stored: "\<forall>i < length L. LeafIndex (L ! i) = int i" using assms(4) by (simp add: holds_log_def)
  note nth = merged_nth [OF stored assms(7)]
  have len: "length ?M = n" by (simp add: merged_def)
  then have "set ?M \<subseteq> set L \<union> set leaves" using nth by (metis in_set_conv_nth subsetI)
  then have "set (?slice b) \<subseteq> set L \<union> set leaves" for b
    using set_take_subset [of 1024 "drop (1024 * nat b) ?M"] set_drop_subset [of "1024 * nat b" ?M] by blast
  then have codable: "valid (map Some (?slice b)) \<and> (\<exists>raw. jsonEncode cd (map Some (?slice b)) = Inr raw)" for b
    using assms(2) by blast
  have enc: "jsonEncode cd (map Some (?slice b)) = Inr (raw b)" "valid (map Some (?slice b))" for b
    using codable [of b] by (auto simp: raw_def)
  have set: "set ?bls = set (group_batches leaves)" using assms(10) by (metis set_mset_mset)
  have put: "0 \<le> fst bl \<and> 1024 * fst bl < int n \<and> put_batch cd http b2 r t bl = Inr (object_name t (fst bl), raw (fst bl))"
    if "bl \<in> set ?bls" for bl
    using put_batch_ok [OF assms(4-9), of "fst bl" "snd bl"] enc that set by simp
  then have up: "uploads = map (\<lambda>bl. (object_name t (fst bl), raw (fst bl))) ?bls" "res = Inr ()"
    using assms(11) put_batches_ok [of ?bls cd http b2 r t "\<lambda>bl. (object_name t (fst bl), raw (fst bl))"]
    by (auto simp: Remote_PutLeaves_def)
  have new: "map_of uploads (object_name t b) = (if b \<in> fst ` set ?bls then Some (raw b) else None)" for b
    unfolding up(1) by (rule map_of_uploads)
  have "getBatch cd http' r t b = (if 1024 * b < int n then Inr (map Some (take 1024 (drop (nat (1024 * b)) ?M))) else Inl ErrLeavesNotFound)"
    if b: "0 \<le> b" for b
  proof (cases "b \<in> fst ` set ?bls")
    case True
    then have "getBatch cd http' r t b = jsonDecode cd (raw b)"
      unfolding getBatch_serves [OF assms(12)] using new by (simp add: map_add_def)
    then have "getBatch cd http' r t b = Inr (map Some (?slice b))"
      using codec_pair.decode_encode [OF assms(1) enc(2,1)] by simp
    moreover have "1024 * b < int n" using True put by auto
    ultimately show ?thesis using b by (simp add: nat_mult_distrib)
  next
    case False
    then have "getBatch cd http' r t b = getBatch cd http r t b"
      unfolding getBatch_serves [OF assms(12)] getBatch_serves [OF assms(3)] using new by (simp add: map_add_def)
    moreover have "filter (\<lambda>l. LeafIndex l sdiv 1024 = int (nat b)) leaves = []" using False group_batches_keys [of b leaves] set b by simp
    ultimately show ?thesis
      using merged_untouched [OF assms(7,6), of "nat b"] assms(4) b by (auto simp: holds_log_def nat_mult_distrib)
  qed
  with up(2) nth len show ?thesis by (simp add: holds_log_def)
qed

text \<open>
  On objects that hold a log, \<open>PutLeaves\<close> of leaves whose indices fill positions without a gap uploads objects such
  that the remote database then holds the merged log: the new leaves at their indices, the stored ones
  elsewhere. Neither the order of the leaves nor the iteration order of the batches matters.
\<close>

theorem PutLeaves_extends_log:
  assumes "codec_pair (jsonEncode cd) (jsonDecode cd) valid"
    and "\<forall>ls. set ls \<subseteq> set L \<union> set leaves \<longrightarrow> valid (map Some ls) \<and> (\<exists>raw. jsonEncode cd (map Some ls) = Inr raw)"
    and "serves http r objs" "holds_log cd http r t L"
    and "distinct (map LeafIndex leaves)" "\<forall>l \<in> set leaves. 0 \<le> LeafIndex l"
    and "LeafIndex ` set leaves \<union> {0..<int (length L)} = {0..<int n}"
    and "bucketErr b2 (bucket r) = None" "\<forall>name. uploadErr b2 name = None" "mset (ord (group_batches leaves)) = mset (group_batches leaves)"
    and "Remote_PutLeaves cd http b2 ord r t leaves = (uploads, res)"
    and "serves http' r (objs ++ map_of uploads)"
  shows "res = Inr () \<and> holds_log cd http' r t (merged L leaves n)"
  using assms by (rule PutLeaves_log)

section \<open>Concrete runs\<close>

text \<open>A web server over given objects.\<close>

definition sample_http :: "Remote \<Rightarrow> (string \<Rightarrow> bytes option) \<Rightarrow> http_client" where
  "sample_http r objs =
    \<lparr>newRequestErr = (\<lambda>_. None),
     clientDo = (\<lambda>addr. Inr (case objs (drop (length (url r) + 1) addr) of
        None \<Rightarrow> \<lparr>StatusCode = 404, Status = ''Not Found'', Body = []\<rparr>
      | Some body \<Rightarrow> \<lparr>StatusCode = 200, Status = ''OK'', Body = body\<rparr>))\<rparr>"

lemma serves_sample: "serves (sample_http r objs) r objs"
  by (auto simp: serves_def sample_http_def split: option.splits)

definition sample_remote :: Remote where
  "sample_remote = \<lparr>bucket = ''ct'', url = ''http://b2''\<rparr>"

lemma sample_json:
  "codec_pair (jsonEncode sample_codec) (jsonDecode sample_codec)
     (list_all (\<lambda>l. \<exists>i. 0 \<le> i \<and> i < 255 \<and> l = Some (sample_indexed i)))"
proof
  fix x raw
  assume "list_all (\<lambda>l. \<exists>i. 0 \<le> i \<and> i < 255 \<and> l = Some (sample_indexed i)) x" "jsonEncode sample_codec x = Inr raw"
  moreover have "(word_of_int i :: byte) \<noteq> 0xff \<and> uint (word_of_int i :: byte) = i" if "0 \<le> i" "i < 255" for i
    using word_of_int_byte_less [of i 255] that by (auto simp: unsigned_of_int take_bit_int_eq_self)
  ultimately show "jsonDecode sample_codec raw = Inr x"
    by (fastforce simp: sample_codec_def sample_indexed_def list_all_iff intro!: map_idI)
qed

lemma sample_empty: "holds_log sample_codec (sample_http r Map.empty) r t []"
  by (simp add: holds_log_def getBatch_serves [OF serves_sample])

theorem PutLeaves_extends_log_witness:
  "let (uploads, res) = Remote_PutLeaves sample_codec (sample_http sample_remote Map.empty)
         \<lparr>bucketErr = \<lambda>_. None, uploadErr = \<lambda>_. None\<rparr> rev sample_remote 5 [sample_indexed 1, sample_indexed 0]
   in holds_log sample_codec (sample_http sample_remote (map_of uploads)) sample_remote 5 [sample_indexed 0, sample_indexed 1]"
proof -
  let ?b2 = "\<lparr>bucketErr = \<lambda>_. None, uploadErr = \<lambda>_. None\<rparr>" and ?ls = "[sample_indexed 1, sample_indexed 0]"
  obtain uploads res where put: "Remote_PutLeaves sample_codec (sample_http sample_remote Map.empty) ?b2 rev sample_remote 5 ?ls = (uploads, res)"
    by (rule prod.exhaust)
  have "res = Inr () \<and> holds_log sample_codec (sample_http sample_remote (map_of uploads)) sample_remote 5 (merged [] ?ls 2)"
  proof (rule PutLeaves_extends_log [OF sample_json _ serves_sample sample_empty _ _ _ _ _ _ put])
    have "\<forall>l \<in> set ?ls. \<exists>i. 0 \<le> i \<and> i < 255 \<and> l = sample_indexed i" by (simp, metis zero_le_one zero_less_numeral one_less_numeral_iff semiring_norm(77) order_refl)
    then show "\<forall>ls. set ls \<subseteq> set [] \<union> set ?ls \<longrightarrow>
        list_all (\<lambda>l. \<exists>i. 0 \<le> i \<and> i < 255 \<and> l = Some (sample_indexed i)) (map Some ls) \<and>
        (\<exists>raw. jsonEncode sample_codec (map Some ls) = Inr raw)"
      by (auto simp: list_all_iff sample_codec_def)
    show "serves (sample_http sample_remote (map_of uploads)) sample_remote (Map.empty ++ map_of uploads)"
      by (simp add: serves_sample)
  qed (auto simp: sample_indexed_def)
  moreover have "merged [] ?ls 2 = [sample_indexed 0, sample_indexed 1]"
    by (simp add: merged_def sample_indexed_def upt_rec)
  ultimately show ?thesis by (simp add: put)
qed

theorem GetLeaves_reads_log_witness:
  "Remote_GetLeaves sample_codec (sample_http sample_remote [object_name 5 0 \<mapsto> [0, 1]]) sample_remote 5 [1, 0] =
     ([0, 1], Inr [Some (sample_indexed 0), Some (sample_indexed 1)])"
proof -
  have "holds_log sample_codec (sample_http sample_remote [object_name 5 0 \<mapsto> [0, 1]]) sample_remote 5
      [sample_indexed 0, sample_indexed 1]"
    by (auto simp: holds_log_def getBatch_serves [OF serves_sample] object_name_inj less_Suc_eq)
       (auto simp: sample_codec_def sample_indexed_def)
  then show ?thesis
    using GetLeaves_reads_log [of sample_codec _ sample_remote 5 "[sample_indexed 0, sample_indexed 1]" "[1, 0]"]
    by (simp add: prod_eq_iff)
qed

end
