(* ===== verification/RemoteTail.thy ===== *)
theory RemoteTail
  imports RemoteLog "HOL-Library.Sublist"
begin

text \<open>
  The remote database under failures (\<open>custom/remote.go\<close>). A failed or interrupted \<open>PutLeaves\<close> leaves some of its objects
  behind, in the order in which Go iterates over a map: leaves beyond the end of the log, with gaps between the
  batches. This theory shows that such leftovers never hide or change a leaf of the log and that a later call of
  \<open>PutLeaves\<close> replaces them.
\<close>

section \<open>The abstraction\<close>

text \<open>The leaves of one object: at most 1024, with the indices of their positions.\<close>

definition batch_at :: "(LogLeaf \<Rightarrow> bool) \<Rightarrow> nat \<Rightarrow> LogLeaf list \<Rightarrow> bool" where
  "batch_at ok b D \<longleftrightarrow> list_all ok D \<and> length D \<le> 1024 \<and> (\<forall>j < length D. LeafIndex (D ! j) = int (1024 * b + j))"

abbreviation batch_slice :: "LogLeaf list \<Rightarrow> nat \<Rightarrow> LogLeaf list" where
  "batch_slice L b \<equiv> take 1024 (drop (1024 * b) L)"

text \<open>
  The objects of a tree hold the log \<open>L\<close> and possibly more: every batch of \<open>L\<close> is the beginning of the leaves of its
  object. Objects beyond the log may exist or not.
\<close>

definition stored_batch :: "codec \<Rightarrow> (LogLeaf \<Rightarrow> bool) \<Rightarrow> (string \<Rightarrow> bytes option) \<Rightarrow> int \<Rightarrow> LogLeaf list \<Rightarrow> nat \<Rightarrow> bool" where
  "stored_batch cd ok objs t L b \<longleftrightarrow>
    (case objs (object_name t (int b)) of
       None \<Rightarrow> length L \<le> 1024 * b
     | Some raw \<Rightarrow> \<exists>D. jsonDecode cd raw = Inr (map Some D) \<and> batch_at ok b D \<and> prefix (batch_slice L b) D)"

definition remote_holds :: "codec \<Rightarrow> (LogLeaf \<Rightarrow> bool) \<Rightarrow> (string \<Rightarrow> bytes option) \<Rightarrow> int \<Rightarrow> LogLeaf list \<Rightarrow> bool" where
  "remote_holds cd ok objs t L \<longleftrightarrow> (\<forall>i < length L. LeafIndex (L ! i) = int i) \<and> (\<forall>b. stored_batch cd ok objs t L b)"

text \<open>
  An unreliable web server: requests may fail in any way, but a response of 200 carries the object and a response of
  404 means that there is none.
\<close>

definition may_serve :: "http_client \<Rightarrow> Remote \<Rightarrow> (string \<Rightarrow> bytes option) \<Rightarrow> bool" where
  "may_serve http r objs \<longleftrightarrow>
    (\<forall>name. newRequestErr http (url r @ ''/'' @ name) \<noteq> Some ErrLeavesNotFound \<and>
      (case clientDo http (url r @ ''/'' @ name) of
         Inl e \<Rightarrow> e \<noteq> ErrLeavesNotFound
       | Inr resp \<Rightarrow> (StatusCode resp = 404 \<longrightarrow> objs name = None) \<and> (StatusCode resp = 200 \<longrightarrow> objs name = Some (Body resp))))"

lemma serves_may_serve: "serves http r objs \<Longrightarrow> may_serve http r objs"
  unfolding serves_def may_serve_def
proof
  fix name
  let ?a = "url r @ ''/'' @ name"
  assume "\<forall>name. newRequestErr http (url r @ ''/'' @ name) = None \<and>
      (case objs name of
         None \<Rightarrow> \<exists>resp. clientDo http (url r @ ''/'' @ name) = Inr resp \<and> StatusCode resp = 404
       | Some body \<Rightarrow> \<exists>resp. clientDo http (url r @ ''/'' @ name) = Inr resp \<and> StatusCode resp = 200 \<and> Body resp = body)"
  then have "newRequestErr http ?a = None \<and>
      (case objs name of
         None \<Rightarrow> \<exists>resp. clientDo http ?a = Inr resp \<and> StatusCode resp = 404
       | Some body \<Rightarrow> \<exists>resp. clientDo http ?a = Inr resp \<and> StatusCode resp = 200 \<and> Body resp = body)"
    by blast
  then show "newRequestErr http ?a \<noteq> Some ErrLeavesNotFound \<and>
      (case clientDo http ?a of
         Inl e \<Rightarrow> e \<noteq> ErrLeavesNotFound
       | Inr resp \<Rightarrow> (StatusCode resp = 404 \<longrightarrow> objs name = None) \<and> (StatusCode resp = 200 \<longrightarrow> objs name = Some (Body resp)))"
    by (auto split: option.splits)
qed

lemma getBatch_may_serve:
  assumes "may_serve http r objs"
  shows "getBatch cd http r t b = Inr data \<Longrightarrow> \<exists>raw. objs (object_name t b) = Some raw \<and> jsonDecode cd raw = Inr data"
    and "getBatch cd http r t b = Inl ErrLeavesNotFound \<Longrightarrow>
      objs (object_name t b) = None \<or> (\<exists>raw. objs (object_name t b) = Some raw \<and> jsonDecode cd raw = Inl ErrLeavesNotFound)"
proof -
  have "newRequestErr http (url r @ ''/'' @ object_name t b) \<noteq> Some ErrLeavesNotFound \<and>
    (case clientDo http (url r @ ''/'' @ object_name t b) of
       Inl e \<Rightarrow> e \<noteq> ErrLeavesNotFound
     | Inr resp \<Rightarrow> (StatusCode resp = 404 \<longrightarrow> objs (object_name t b) = None) \<and>
         (StatusCode resp = 200 \<longrightarrow> objs (object_name t b) = Some (Body resp)))"
    using assms unfolding may_serve_def by blast
  then show "getBatch cd http r t b = Inr data \<Longrightarrow> \<exists>raw. objs (object_name t b) = Some raw \<and> jsonDecode cd raw = Inr data"
    "getBatch cd http r t b = Inl ErrLeavesNotFound \<Longrightarrow>
      objs (object_name t b) = None \<or> (\<exists>raw. objs (object_name t b) = Some raw \<and> jsonDecode cd raw = Inl ErrLeavesNotFound)"
    unfolding getBatch_def getBatch_addr Let_def by (auto split: option.splits sum.splits if_splits)
qed

section \<open>Reading\<close>

lemma remote_holds_prefix: "remote_holds cd ok objs t (L @ M) \<Longrightarrow> remote_holds cd ok objs t L"
proof -
  assume a: "remote_holds cd ok objs t (L @ M)"
  have pre: "prefix (batch_slice L b) (batch_slice (L @ M) b)" for b by simp
  have "stored_batch cd ok objs t L b" for b
  proof -
    have "stored_batch cd ok objs t (L @ M) b" using a by (simp add: remote_holds_def)
    then show ?thesis
      using prefix_order.trans [OF pre] unfolding stored_batch_def by (fastforce split: option.splits)
  qed
  moreover have "LeafIndex (L ! i) = int i" if "i < length L" for i
    using a that unfolding remote_holds_def by (metis length_append nth_append trans_less_add1)
  ultimately show ?thesis by (simp add: remote_holds_def)
qed

lemma remote_holds_leaf:
  assumes "remote_holds cd ok objs t L" "serves http r objs" "i < length L"
  shows "batch_has cd http r t (int i) (Some (L ! i))"
proof -
  let ?b = "i div 1024"
  have b: "1024 * ?b \<le> i" "i < 1024 * ?b + 1024" "1024 * ?b + i mod 1024 = i" by simp_all
  obtain raw D where D: "objs (object_name t (int ?b)) = Some raw" "jsonDecode cd raw = Inr (map Some D)" "length D \<le> 1024" "prefix (batch_slice L ?b) D"
    using assms(1,3) b(1) unfolding remote_holds_def stored_batch_def batch_at_def
    by (auto split: option.splits elim!: allE [of _ ?b])
  have "i mod 1024 < length (batch_slice L ?b)" "batch_slice L ?b ! (i mod 1024) = L ! i" using slice_nth [OF assms(3)] by simp_all
  then have "i mod 1024 < length D" "D ! (i mod 1024) = L ! i" using D(4) by (auto simp: prefix_def nth_append)
  moreover have "getBatch cd http r t (int ?b) = Inr (map Some D)" using D(1,2) by (simp add: getBatch_serves [OF assms(2)])
  moreover have "int i div 1024 = int ?b" "nat (int i mod 1024) = i mod 1024" by (simp_all add: zdiv_int zmod_int nat_mod_distrib)
  ultimately show ?thesis using D(3) by (simp add: batch_has_def)
qed

lemma remote_holds_read:
  assumes "remote_holds cd ok objs t L" "serves http r objs" "\<forall>s \<in> set seqs. 0 \<le> s \<and> s < int (length L) \<and> s < 2 ^ 63"
  shows "snd (Remote_GetLeaves cd http r t seqs) = Inr (map (\<lambda>s. Some (L ! nat s)) (sort seqs))"
proof (cases "seqs = []")
  case True
  then show ?thesis by (simp add: Remote_GetLeaves_def)
next
  case False
  have "batch_has cd http r t s (Some (L ! nat s))" if "s \<in> set seqs" for s
    using remote_holds_leaf [OF assms(1,2), of "nat s"] assms(3) that by auto
  then have "GetLeaves_loop cd http r t (sort seqs) [] = Inr ([] @ map (\<lambda>s. Some (L ! nat s)) (sort seqs))"
    using assms(3) by (intro GetLeaves_loop_spec) auto
  with False show ?thesis by (auto simp: Remote_GetLeaves_def Let_def sorted_sort_id)
qed

section \<open>Writing\<close>

text \<open>New leaves are numbered from the end of the log.\<close>

abbreviation numbered_from :: "nat \<Rightarrow> LogLeaf list \<Rightarrow> bool" where
  "numbered_from n leaves \<equiv> map LeafIndex leaves = map int [n..<n + length leaves]"

lemma numbered_nth: "numbered_from n leaves \<Longrightarrow> j < length leaves \<Longrightarrow> LeafIndex (leaves ! j) = int (n + j)"
  by (drule arg_cong [of _ _ "\<lambda>xs. xs ! j"]) simp

lemma numbered_distinct: "numbered_from n leaves \<Longrightarrow> distinct (map LeafIndex leaves)"
  by (simp add: distinct_map)

lemma numbered_nonneg: "numbered_from n leaves \<Longrightarrow> l \<in> set leaves \<Longrightarrow> 0 \<le> LeafIndex l"
  by (auto simp: in_set_conv_nth numbered_nth)

lemma numbered_find:
  assumes "numbered_from n leaves"
  shows "find (\<lambda>l. LeafIndex l = int i) leaves = (if n \<le> i \<and> i < n + length leaves then Some (leaves ! (i - n)) else None)"
proof (cases "n \<le> i \<and> i < n + length leaves")
  case True
  then have "leaves ! (i - n) \<in> set leaves" "LeafIndex (leaves ! (i - n)) = int i"
    using numbered_nth [OF assms, of "i - n"] by auto
  then show ?thesis using find_distinct [OF numbered_distinct [OF assms], of "leaves ! (i - n)"] True by simp
next
  case False
  then show ?thesis using numbered_nth [OF assms] by (auto simp: find_None_iff in_set_conv_nth)
qed

lemma find_filter_same: "(\<And>x. x \<in> set xs \<Longrightarrow> P x \<Longrightarrow> Q x) \<Longrightarrow> find P (filter Q xs) = find P xs"
  by (induction xs) auto

text \<open>The positions of the new leaves of one batch.\<close>

lemma batch_indices:
  assumes "numbered_from n leaves"
  shows "LeafIndex ` set (filter (\<lambda>l. LeafIndex l sdiv 1024 = int b) leaves) =
    {int (max n (1024 * b))..<int (min (n + length leaves) (1024 * b + 1024))}"
proof -
  have "LeafIndex ` set leaves = int ` {n..<n + length leaves}" using arg_cong [OF assms, of set] by simp
  moreover have "LeafIndex ` set (filter (\<lambda>l. LeafIndex l sdiv 1024 = int b) leaves) = {i \<in> LeafIndex ` set leaves. i sdiv 1024 = int b}"
    by auto
  moreover have "int i sdiv 1024 = int b \<longleftrightarrow> 1024 * b \<le> i \<and> i < 1024 * b + 1024" for i
  proof -
    have "int i sdiv 1024 = int (i div 1024)" by (simp add: sdiv_nonneg zdiv_int)
    then show ?thesis by (simp only: of_nat_eq_iff) linarith
  qed
  ultimately have "LeafIndex ` set (filter (\<lambda>l. LeafIndex l sdiv 1024 = int b) leaves) =
      int ` {max n (1024 * b)..<min (n + length leaves) (1024 * b + 1024)}" by auto
  then show ?thesis by (simp only: image_int_atLeastLessThan)
qed

text \<open>
  The merged batch: the new leaves at their positions, the stored ones elsewhere, leftovers behind the new leaves
  included. There is neither a gap nor a clash.
\<close>

lemma batch_nonempty:
  assumes "numbered_from n leaves" "filter (\<lambda>l. LeafIndex l sdiv 1024 = int b) leaves \<noteq> []" (is "?ls \<noteq> []")
  shows "max n (1024 * b) < min (n + length leaves) (1024 * b + 1024)" (is "?start < ?stop")
proof (rule ccontr)
  assume "\<not> ?thesis"
  then have "{int ?start..<int ?stop} = {}" unfolding atLeastLessThan_empty_iff by linarith
  then have "LeafIndex ` set ?ls = {}" unfolding batch_indices [OF assms(1)] .
  then show False using assms(2) by (simp only: image_is_empty set_empty)
qed

lemma merged_tail_nth:
  assumes "numbered_from n leaves" "i < m" "1024 * b \<le> i" "i < 1024 * b + 1024"
  shows "merged P (filter (\<lambda>l. LeafIndex l sdiv 1024 = int b) leaves) m ! i =
    (if n \<le> i \<and> i < n + length leaves then leaves ! (i - n) else P ! i)"
proof -
  have "find (\<lambda>l. LeafIndex l = int i) (filter (\<lambda>l. LeafIndex l sdiv 1024 = int b) leaves) = find (\<lambda>l. LeafIndex l = int i) leaves"
    using assms(3,4) by (intro find_filter_same) (auto simp: sdiv_nonneg)
  then show ?thesis using assms(2) by (simp add: merged_def numbered_find [OF assms(1)])
qed

lemma merged_batch_at:
  assumes "batch_at ok b D" "numbered_from n leaves" "list_all ok leaves" "length E \<le> 1024"
    and "\<forall>j < length E. n \<le> 1024 * b + j \<and> 1024 * b + j < n + length leaves \<or> j < length D"
    and "\<forall>j < length E. E ! j = (if n \<le> 1024 * b + j \<and> 1024 * b + j < n + length leaves then leaves ! (1024 * b + j - n) else D ! j)"
  shows "batch_at ok b E"
proof -
  have "ok (E ! j) \<and> LeafIndex (E ! j) = int (1024 * b + j)" if j: "j < length E" for j
  proof (cases "n \<le> 1024 * b + j \<and> 1024 * b + j < n + length leaves")
    case True
    define k where "k = 1024 * b + j - n"
    have k: "k < length leaves" "n + k = 1024 * b + j" using True by (auto simp: k_def)
    have "E ! j = leaves ! k" using assms(6) j True by (simp add: k_def)
    then show ?thesis using numbered_nth [OF assms(2) k(1)] assms(3) k by (simp add: list_all_length)
  next
    case False
    then have "j < length D" "E ! j = D ! j" using assms(5,6) j by auto
    then show ?thesis using assms(1) by (simp add: batch_at_def list_all_length)
  qed
  then show ?thesis using assms(4) by (simp add: batch_at_def list_all_length)
qed

lemma merge_tail:
  assumes "batch_at ok b D" "numbered_from n leaves" "list_all ok leaves"
    and "n < 1024 * b + 1024 \<Longrightarrow> n \<le> 1024 * b + length D"
    and "filter (\<lambda>l. LeafIndex l sdiv 1024 = int b) leaves \<noteq> []"
  obtains E where "merge_batch (filter (\<lambda>l. LeafIndex l sdiv 1024 = int b) leaves) (map Some D) = Inr E" "batch_at ok b E"
    "length E = max (length D) (min (n + length leaves) (1024 * b + 1024) - 1024 * b)"
    "\<forall>j < length E. E ! j = (if n \<le> 1024 * b + j \<and> 1024 * b + j < n + length leaves then leaves ! (1024 * b + j - n) else D ! j)"
proof -
  let ?ls = "filter (\<lambda>l. LeafIndex l sdiv 1024 = int b) leaves"
  let ?stop = "min (n + length leaves) (1024 * b + 1024)"
  define m where "m = max (1024 * b + length D) ?stop"
  define P where "P = map (\<lambda>i. (hd leaves)\<lparr>LeafIndex := int i\<rparr>) [0..<1024 * b] @ D"
  have D: "length D \<le> 1024" "list_all ok D" "\<forall>j < length D. LeafIndex (D ! j) = int (1024 * b + j)"
    using assms(1) by (simp_all add: batch_at_def)
  have lenP: "length P = 1024 * b + length D" and dropP: "take 1024 (drop (1024 * b) P) = D"
    using D(1) by (simp_all add: P_def)
  note ne = batch_nonempty [OF assms(2,5)]
  then have bm: "1024 * b < m" "m \<le> 1024 * b + 1024" using D(1) by (auto simp: m_def)
  have idx: "\<forall>i < length P. LeafIndex (P ! i) = int i" using D(3) by (auto simp: P_def nth_append)
  have un: "LeafIndex ` set ?ls \<union> {0..<int (length P)} = {0..<int m}"
  proof -
    have un: "{int x..<int y} \<union> {0..<int z} = {0..<int (max z y)}" if "x \<le> z" for x y z :: nat
      using that by (auto simp: max_def)
    have "max n (1024 * b) \<le> 1024 * b + length D" using ne assms(4) by simp
    then show ?thesis unfolding batch_indices [OF assms(2)] lenP m_def by (rule un)
  qed
  have dist: "distinct (map LeafIndex ?ls)" using numbered_distinct [OF assms(2)] by (simp add: distinct_map inj_on_def)
  have nonneg: "\<forall>l \<in> set ?ls. 0 \<le> LeafIndex l" using numbered_nonneg [OF assms(2)] by simp
  define E where "E = take 1024 (drop (1024 * b) (merged P ?ls m))"
  have merge: "merge_batch ?ls (map Some D) = Inr E"
    using merge_batch_log [OF idx dist nonneg un bm(1)] by (simp add: dropP E_def)
  have len: "length E = m - 1024 * b" using bm(2) by (simp add: merged_def E_def)
  have nth: "E ! j = (if n \<le> 1024 * b + j \<and> 1024 * b + j < n + length leaves then leaves ! (1024 * b + j - n) else D ! j)"
    if j: "j < m - 1024 * b" for j
  proof -
    define i where "i = 1024 * b + j"
    have i: "i < m" "1024 * b \<le> i" "i < 1024 * b + 1024" using j bm(2) by (auto simp: i_def)
    have "merged P ?ls m ! i = (if n \<le> i \<and> i < n + length leaves then leaves ! (i - n) else P ! i)" by (rule merged_tail_nth [OF assms(2) i])
    moreover have "P ! i = D ! j" by (simp add: P_def nth_append i_def)
    moreover have "E ! j = merged P ?ls m ! i" using i by (simp add: merged_def i_def E_def)
    ultimately show ?thesis by (simp only: i_def)
  qed
  have "batch_at ok b E"
  proof (rule merged_batch_at [OF assms(1-3)])
    show "length E \<le> 1024" using bm(2) len by simp
    show "\<forall>j < length E. n \<le> 1024 * b + j \<and> 1024 * b + j < n + length leaves \<or> j < length D"
    proof (intro allI impI)
      fix j assume "j < length E"
      then show "n \<le> 1024 * b + j \<and> 1024 * b + j < n + length leaves \<or> j < length D"
        using assms(4) ne unfolding len m_def by linarith
    qed
  qed (use nth len in simp)
  moreover have "length E = max (length D) (?stop - 1024 * b)" unfolding len m_def by linarith
  ultimately show thesis using merge nth unfolding len [symmetric] by (intro that [of E]) blast+
qed

lemma merged_prefix:
  assumes "batch_at ok b D" "prefix (batch_slice L b) D"
    and "length E = max (length D) (min (length L + length leaves) (1024 * b + 1024) - 1024 * b)"
    and "\<forall>j < length E. E ! j = (if length L \<le> 1024 * b + j \<and> 1024 * b + j < length L + length leaves then leaves ! (1024 * b + j - length L) else D ! j)"
  shows "prefix (batch_slice (L @ leaves) b) E"
proof -
  let ?S = "batch_slice (L @ leaves) b"
  have "length ?S = min (length L + length leaves - 1024 * b) 1024" by (simp only: length_take length_drop length_append)
  then have le: "length ?S \<le> length E" unfolding assms(3) by linarith
  have "?S = take (length ?S) E"
  proof (rule nth_equalityI)
    show "length ?S = length (take (length ?S) E)" using le by simp
    fix j assume j: "j < length ?S"
    define i where "i = 1024 * b + j"
    have i: "i < length L + length leaves" "j < 1024" using j by (auto simp: i_def)
    have S: "?S ! j = (L @ leaves) ! i"
      using nth_drop [of "1024 * b" "L @ leaves" j] i by (simp only: nth_take i_def length_append)
    have E: "E ! j = (if length L \<le> i then leaves ! (i - length L) else D ! j)"
      using assms(4) j le i(1) unfolding i_def by simp
    have "D ! j = L ! i" if "i < length L"
    proof -
      have "j < length (batch_slice L b)" "batch_slice L b ! j = L ! i" using that i(2) by (auto simp: i_def)
      then show ?thesis using assms(2) by (auto simp: prefix_def nth_append)
    qed
    then have "?S ! j = E ! j" using S E by (simp add: nth_append)
    then show "?S ! j = take (length ?S) E ! j" using j by simp
  qed
  then show ?thesis by (metis take_is_prefix)
qed

text \<open>What a batch is merged with: the leaves of its object, or nothing when there is no object.\<close>

lemma fetched_batch:
  assumes "stored_batch cd ok objs t L b" "may_serve http r objs"
    and "(case getBatch cd http r t (int b) of Inl e \<Rightarrow> e = ErrLeavesNotFound \<and> existing = [] | Inr data \<Rightarrow> existing = data)"
  obtains D where "existing = map Some D" "batch_at ok b D" "prefix (batch_slice L b) D"
    "length L < 1024 * b + 1024 \<longrightarrow> length L \<le> 1024 * b + length D"
proof (cases "objs (object_name t (int b))")
  case None
  then have "existing = []" using assms(3) getBatch_may_serve(1) [OF assms(2), of cd t "int b"] by (auto split: sum.splits)
  moreover have "length L \<le> 1024 * b" using assms(1) None by (simp add: stored_batch_def)
  ultimately show thesis by (intro that [of "[]"]) (simp_all add: batch_at_def)
next
  case (Some raw)
  then obtain D where D: "jsonDecode cd raw = Inr (map Some D)" "batch_at ok b D" "prefix (batch_slice L b) D"
    using assms(1) by (auto simp: stored_batch_def)
  have "existing = map Some D"
    using assms(3) getBatch_may_serve [OF assms(2), of cd t "int b"] Some D(1) by (auto split: sum.splits)
  moreover have "length (batch_slice L b) \<le> length D" using D(3) by (rule prefix_length_le)
  ultimately show thesis using D by (intro that [of D]) auto
qed

lemma group_of_batch:
  assumes "(b, ls) \<in> set (group_batches leaves)" "numbered_from n leaves"
  obtains b' where "b = int b'" "ls = filter (\<lambda>l. LeafIndex l sdiv 1024 = int b') leaves" "ls \<noteq> []"
proof -
  have "map_of (group_batches leaves) b = Some ls" using group_batches_spec assms(1) by (intro map_of_is_SomeI) blast+
  then have ls: "ls = filter (\<lambda>l. LeafIndex l sdiv 1024 = b) leaves" "ls \<noteq> []"
    using group_batches_spec [of leaves b] by (auto simp: Let_def split: if_splits)
  then obtain l where "l \<in> set leaves" "LeafIndex l sdiv 1024 = b" by (auto simp: filter_empty_conv)
  then have "0 \<le> b" using numbered_nonneg [OF assms(2), of l] by (auto simp: sdiv_nonneg pos_imp_zdiv_nonneg_iff)
  then have "b = int (nat b)" by simp
  then show thesis using ls that by metis
qed

text \<open>Every object that is uploaded holds the batch of the extended log, whatever else it holds.\<close>

definition holds_batch :: "codec \<Rightarrow> (LogLeaf \<Rightarrow> bool) \<Rightarrow> int \<Rightarrow> LogLeaf list \<Rightarrow> string \<times> bytes \<Rightarrow> bool" where
  "holds_batch cd ok t L obj \<longleftrightarrow>
    (\<exists>b E. fst obj = object_name t (int b) \<and> jsonDecode cd (snd obj) = Inr (map Some E) \<and> batch_at ok b E \<and> prefix (batch_slice L b) E)"

lemma put_batch_tail:
  assumes "codec_pair (jsonEncode cd) (jsonDecode cd) (\<lambda>x. \<exists>ls. x = map Some ls \<and> list_all ok ls)"
    and "remote_holds cd ok objs t L" "may_serve http r objs" "numbered_from (length L) leaves" "list_all ok leaves"
    and "bl \<in> set (group_batches leaves)"
  shows "put_batch cd http b2 r t bl = Inr obj \<Longrightarrow> fst obj = object_name t (fst bl) \<and> holds_batch cd ok t (L @ leaves) obj"
    and "serves http r objs \<Longrightarrow> bucketErr b2 (bucket r) = None \<Longrightarrow> \<forall>name. uploadErr b2 name = None \<Longrightarrow>
      \<forall>ls. list_all ok ls \<longrightarrow> (\<exists>raw. jsonEncode cd (map Some ls) = Inr raw) \<Longrightarrow> \<exists>obj. put_batch cd http b2 r t bl = Inr obj"
proof -
  obtain b where b: "bl = (int b, filter (\<lambda>l. LeafIndex l sdiv 1024 = int b) leaves)" "filter (\<lambda>l. LeafIndex l sdiv 1024 = int b) leaves \<noteq> []"
    using group_of_batch [OF _ assms(4)] assms(6) by (metis prod.collapse)
  have stored: "stored_batch cd ok objs t L b" using assms(2) by (simp add: remote_holds_def)
  let ?get = "getBatch cd http r t (int b)"
  let ?ex = "case ?get of Inl e \<Rightarrow> [] | Inr ls \<Rightarrow> ls"
  have merged: "\<exists>E. merge_batch (snd bl) ?ex = Inr E \<and> batch_at ok b E \<and> prefix (batch_slice (L @ leaves) b) E"
    if get: "case ?get of Inl e \<Rightarrow> e = ErrLeavesNotFound | Inr data \<Rightarrow> True"
  proof -
    have "case ?get of Inl e \<Rightarrow> e = ErrLeavesNotFound \<and> ?ex = [] | Inr data \<Rightarrow> ?ex = data" using get by (auto split: sum.splits)
    then obtain D where D: "?ex = map Some D" "batch_at ok b D" "prefix (batch_slice L b) D"
        "length L < 1024 * b + 1024 \<longrightarrow> length L \<le> 1024 * b + length D"
      by (rule fetched_batch [OF stored assms(3)])
    obtain E where E: "merge_batch (snd bl) (map Some D) = Inr E" "batch_at ok b E"
        "length E = max (length D) (min (length L + length leaves) (1024 * b + 1024) - 1024 * b)"
        "\<forall>j < length E. E ! j = (if length L \<le> 1024 * b + j \<and> 1024 * b + j < length L + length leaves then leaves ! (1024 * b + j - length L) else D ! j)"
      using merge_tail [OF D(2) assms(4,5) D(4) [rule_format] b(2)] unfolding b(1) snd_conv by blast
    then show ?thesis using merged_prefix [OF D(2,3) E(3,4)] by (simp add: D(1))
  qed
  show "fst obj = object_name t (fst bl) \<and> holds_batch cd ok t (L @ leaves) obj" if put: "put_batch cd http b2 r t bl = Inr obj"
  proof -
    have get: "case ?get of Inl e \<Rightarrow> e = ErrLeavesNotFound | Inr data \<Rightarrow> True" and st: "store_batch cd b2 r t bl ?ex = Inr obj"
      using put unfolding put_batch_def Let_def b(1) fst_conv by (auto split: sum.splits if_splits)
    obtain E where E: "merge_batch (snd bl) ?ex = Inr E" "batch_at ok b E" "prefix (batch_slice (L @ leaves) b) E" using merged [OF get] by blast
    then have enc: "jsonEncode cd (map Some E) = Inr (snd obj)" "fst obj = object_name t (fst bl)"
      using st by (auto simp: store_batch_def Let_def split: sum.splits option.splits)
    have "jsonDecode cd (snd obj) = Inr (map Some E)"
      using codec_pair.decode_encode [OF assms(1) _ enc(1)] E(2) by (auto simp: batch_at_def)
    then show ?thesis using E enc(2) b(1) by (auto simp: holds_batch_def)
  qed
  show "\<exists>obj. put_batch cd http b2 r t bl = Inr obj"
    if ok: "serves http r objs" "bucketErr b2 (bucket r) = None" "\<forall>name. uploadErr b2 name = None"
      "\<forall>ls. list_all ok ls \<longrightarrow> (\<exists>raw. jsonEncode cd (map Some ls) = Inr raw)"
  proof -
    have get: "case ?get of Inl e \<Rightarrow> e = ErrLeavesNotFound | Inr data \<Rightarrow> True"
      using stored by (auto simp: getBatch_serves [OF ok(1)] stored_batch_def split: option.splits sum.splits)
    obtain E where E: "merge_batch (snd bl) ?ex = Inr E" "batch_at ok b E" using merged [OF get] by blast
    then obtain raw where "jsonEncode cd (map Some E) = Inr raw" using ok(4) by (auto simp: batch_at_def)
    then have "store_batch cd b2 r t bl ?ex = Inr (object_name t (fst bl), raw)" using E(1) ok(2,3) by (simp add: store_batch_def Let_def)
    then show ?thesis using get unfolding put_batch_def Let_def b(1) fst_conv by (auto split: sum.splits)
  qed
qed

lemma put_batches_uploads:
  "put_batches cd http b2 r t bls = (uploads, res) \<Longrightarrow>
   (\<forall>obj \<in> set uploads. \<exists>bl \<in> set bls. put_batch cd http b2 r t bl = Inr obj) \<and>
   (res = Inr () \<longrightarrow> (\<forall>bl \<in> set bls. \<exists>obj \<in> set uploads. put_batch cd http b2 r t bl = Inr obj))"
  by (induction bls arbitrary: uploads) (auto split: sum.splits prod.splits)

lemma prefix_of_slice: "prefix (batch_slice L b) (batch_slice (L @ leaves) b)"
  by simp

text \<open>Objects that change only by uploads of batches of an extension of the log keep the log.\<close>

lemma remote_holds_override:
  assumes "remote_holds cd ok objs t L" "\<forall>obj \<in> set us. holds_batch cd ok t (L @ leaves) obj"
  shows "remote_holds cd ok (objs ++ map_of us) t L"
proof -
  have "stored_batch cd ok (objs ++ map_of us) t L b" for b
  proof (cases "map_of us (object_name t (int b))")
    case None
    then show ?thesis using assms(1) by (simp add: remote_holds_def stored_batch_def map_add_def)
  next
    case (Some raw)
    then have "holds_batch cd ok t (L @ leaves) (object_name t (int b), raw)" using assms(2) map_of_SomeD by fast
    then obtain E where "jsonDecode cd raw = Inr (map Some E)" "batch_at ok b E" "prefix (batch_slice (L @ leaves) b) E"
      by (auto simp: holds_batch_def object_name_inj)
    then show ?thesis
      using Some prefix_order.trans [OF prefix_of_slice] by (auto simp: stored_batch_def map_add_def)
  qed
  then show ?thesis using assms(1) by (simp add: remote_holds_def)
qed

lemma remote_holds_other:
  assumes "remote_holds cd ok objs u L" "\<forall>obj \<in> set us. holds_batch cd ok t M obj" "u \<noteq> t"
  shows "remote_holds cd ok (objs ++ map_of us) u L"
proof -
  have "map_of us (object_name u b) = None" for b
  proof (rule ccontr)
    assume "map_of us (object_name u b) \<noteq> None"
    then obtain raw where "(object_name u b, raw) \<in> set us" using map_of_SomeD by fast
    then show False using assms(2,3) by (fastforce simp: holds_batch_def object_name_inj)
  qed
  then show ?thesis using assms(1) by (simp add: remote_holds_def stored_batch_def map_add_def)
qed

lemma remote_holds_extended:
  assumes "remote_holds cd ok objs t L" "numbered_from (length L) leaves"
    and "\<forall>obj \<in> set us. holds_batch cd ok t (L @ leaves) obj"
    and "\<forall>b. filter (\<lambda>l. LeafIndex l sdiv 1024 = int b) leaves \<noteq> [] \<longrightarrow> object_name t (int b) \<in> fst ` set us"
  shows "remote_holds cd ok (objs ++ map_of us) t (L @ leaves)"
proof -
  have "stored_batch cd ok (objs ++ map_of us) t (L @ leaves) b" for b
  proof (cases "map_of us (object_name t (int b))")
    case (Some raw)
    then have "holds_batch cd ok t (L @ leaves) (object_name t (int b), raw)" using assms(3) map_of_SomeD by fast
    then show ?thesis using Some by (auto simp: holds_batch_def object_name_inj stored_batch_def map_add_def)
  next
    case None
    then have "filter (\<lambda>l. LeafIndex l sdiv 1024 = int b) leaves = []" using assms(4) by (auto simp: map_of_eq_None_iff)
    then have "{int (max (length L) (1024 * b))..<int (min (length L + length leaves) (1024 * b + 1024))} = {}"
      using batch_indices [OF assms(2), of b] by simp
    then have "leaves = [] \<or> 1024 * b + 1024 \<le> length L \<or> length L + length leaves \<le> 1024 * b"
      unfolding atLeastLessThan_empty_iff of_nat_less_iff by (auto simp: min_def max_def not_less split: if_splits)
    then have "batch_slice (L @ leaves) b = batch_slice L b" "length L \<le> 1024 * b \<Longrightarrow> length (L @ leaves) \<le> 1024 * b" by auto
    then show ?thesis
      using assms(1) None by (auto simp: remote_holds_def stored_batch_def map_add_def split: option.splits elim!: allE [of _ b])
  qed
  moreover have "LeafIndex ((L @ leaves) ! i) = int i" if "i < length (L @ leaves)" for i
    using assms(1) numbered_nth [OF assms(2), of "i - length L"] that by (auto simp: remote_holds_def nth_append)
  ultimately show ?thesis by (simp add: remote_holds_def)
qed

text \<open>The uploads of a whole call, and the names they cover when it succeeds.\<close>

lemma PutLeaves_uploads:
  assumes "codec_pair (jsonEncode cd) (jsonDecode cd) (\<lambda>x. \<exists>ls. x = map Some ls \<and> list_all ok ls)"
    and "remote_holds cd ok objs t L" "may_serve http r objs" "numbered_from (length L) leaves" "list_all ok leaves"
    and "mset (ord (group_batches leaves)) = mset (group_batches leaves)"
    and "Remote_PutLeaves cd http b2 ord r t leaves = (uploads, res)"
  shows "\<forall>obj \<in> set uploads. holds_batch cd ok t (L @ leaves) obj"
    and "res = Inr () \<Longrightarrow> remote_holds cd ok (objs ++ map_of (rev uploads)) t (L @ leaves)"
proof -
  have set: "set (ord (group_batches leaves)) = set (group_batches leaves)" using assms(6) by (metis set_mset_mset)
  note put = put_batch_tail(1) [OF assms(1-5), where ?b2.0 = b2]
  note all = put_batches_uploads [OF assms(7) [unfolded Remote_PutLeaves_def], unfolded set]
  show up: "\<forall>obj \<in> set uploads. holds_batch cd ok t (L @ leaves) obj" using all put by blast
  assume "res = Inr ()"
  then have named: "object_name t (fst bl) \<in> fst ` set uploads" if "bl \<in> set (group_batches leaves)" for bl
    using all put that by (metis (no_types, lifting) image_eqI)
  have "object_name t (int b) \<in> fst ` set (rev uploads)" if "filter (\<lambda>l. LeafIndex l sdiv 1024 = int b) leaves \<noteq> []" for b
    using group_batches_keys [of "int b" leaves] that named by auto
  then show "remote_holds cd ok (objs ++ map_of (rev uploads)) t (L @ leaves)"
    using up by (intro remote_holds_extended [OF assms(2,4)]) auto
qed

text \<open>
  C7. \<open>PutLeaves\<close> survives failures. While requests and uploads fail in any way, and when the process stops after any of the
  uploads, whatever earlier calls have left behind: the objects still hold the log. When the call succeeds they hold
  the extended log, and it succeeds when nothing fails, leftovers or not.
\<close>

theorem PutLeaves_survives_failures:
  assumes "codec_pair (jsonEncode cd) (jsonDecode cd) (\<lambda>x. \<exists>ls. x = map Some ls \<and> list_all ok ls)"
    and "remote_holds cd ok objs t L" "may_serve http r objs" "numbered_from (length L) leaves" "list_all ok leaves"
    and "mset (ord (group_batches leaves)) = mset (group_batches leaves)"
    and "Remote_PutLeaves cd http b2 ord r t leaves = (uploads, res)"
  shows "remote_holds cd ok (objs ++ map_of (rev (take k uploads))) t L \<and>
    (res = Inr () \<longrightarrow> remote_holds cd ok (objs ++ map_of (rev uploads)) t (L @ leaves)) \<and>
    (serves http r objs \<and> bucketErr b2 (bucket r) = None \<and> (\<forall>name. uploadErr b2 name = None) \<and>
     (\<forall>ls. list_all ok ls \<longrightarrow> (\<exists>raw. jsonEncode cd (map Some ls) = Inr raw)) \<longrightarrow> res = Inr ())"
proof (intro conjI impI)
  note up = PutLeaves_uploads [OF assms]
  have "\<forall>obj \<in> set (rev (take k uploads)). holds_batch cd ok t (L @ leaves) obj" using up(1) set_take_subset by fastforce
  then show "remote_holds cd ok (objs ++ map_of (rev (take k uploads))) t L" by (rule remote_holds_override [OF assms(2)])
  show "remote_holds cd ok (objs ++ map_of (rev uploads)) t (L @ leaves)" if "res = Inr ()" using up(2) [OF that] .
  assume ok: "serves http r objs \<and> bucketErr b2 (bucket r) = None \<and> (\<forall>name. uploadErr b2 name = None) \<and>
    (\<forall>ls. list_all ok ls \<longrightarrow> (\<exists>raw. jsonEncode cd (map Some ls) = Inr raw))"
  have "\<exists>obj. put_batch cd http b2 r t bl = Inr obj" if "bl \<in> set (ord (group_batches leaves))" for bl
    using put_batch_tail(2) [OF assms(1-5), of bl b2] ok that assms(6) by (metis set_mset_mset)
  then obtain f where "\<forall>bl \<in> set (ord (group_batches leaves)). put_batch cd http b2 r t bl = Inr (f bl)" by metis
  then have "put_batches cd http b2 r t (ord (group_batches leaves)) = (map f (ord (group_batches leaves)), Inr ())" by (rule put_batches_ok)
  then show "res = Inr ()" using assms(7) by (simp add: Remote_PutLeaves_def)
qed

section \<open>Leftovers of an interrupted call\<close>

definition sample_ok :: "LogLeaf \<Rightarrow> bool" where
  "sample_ok l \<longleftrightarrow> (\<exists>i. 0 \<le> i \<and> i < 255 \<and> l = sample_indexed i)"

lemma sample_okI: "0 \<le> i \<Longrightarrow> i < 255 \<Longrightarrow> sample_ok (sample_indexed i)"
  by (auto simp: sample_ok_def)

lemma sample_ok_codec: "codec_pair (jsonEncode sample_codec) (jsonDecode sample_codec) (\<lambda>x. \<exists>ls. x = map Some ls \<and> list_all sample_ok ls)"
proof
  fix x raw assume "\<exists>ls. x = map Some ls \<and> list_all sample_ok ls" "jsonEncode sample_codec x = Inr raw"
  then show "jsonDecode sample_codec raw = Inr x"
    using codec_pair.decode_encode [OF sample_json, of x raw] by (auto simp: list_all_iff sample_ok_def)
qed

text \<open>The log has one leaf; an interrupted call has left two more behind.\<close>

definition leftover_objects :: "string \<Rightarrow> bytes option" where
  "leftover_objects = [object_name 5 0 \<mapsto> [0, 1, 2]]"

lemma leftover_log: "remote_holds sample_codec sample_ok leftover_objects 5 [sample_indexed 0]"
proof -
  have "sample_ok (sample_indexed i)" if "i \<in> {0, 1, 2}" for i using that by (intro sample_okI) auto
  then have "batch_at sample_ok 0 [sample_indexed 0, sample_indexed 1, sample_indexed 2]"
    by (simp add: batch_at_def) (auto simp: sample_indexed_def less_Suc_eq numeral_eq_Suc)
  moreover have "jsonDecode sample_codec [0, 1, 2] = Inr (map Some [sample_indexed 0, sample_indexed 1, sample_indexed 2])"
    by (simp add: sample_codec_def sample_indexed_def)
  ultimately have "stored_batch sample_codec sample_ok leftover_objects 5 [sample_indexed 0] b" for b
    unfolding stored_batch_def leftover_objects_def
    by (cases "b = 0") (auto simp: object_name_inj intro!: exI [of _ "[sample_indexed 0, sample_indexed 1, sample_indexed 2]"])
  then show ?thesis by (simp add: remote_holds_def sample_indexed_def)
qed

theorem PutLeaves_survives_failures_witness:
  "let (uploads, res) = Remote_PutLeaves sample_codec (sample_http sample_remote leftover_objects)
         \<lparr>bucketErr = \<lambda>_. None, uploadErr = \<lambda>_. None\<rparr> rev sample_remote 5 [sample_indexed 1]
   in res = Inr () \<and> remote_holds sample_codec sample_ok (leftover_objects ++ map_of (rev uploads)) 5 [sample_indexed 0, sample_indexed 1]"
proof -
  let ?b2 = "\<lparr>bucketErr = \<lambda>_. None, uploadErr = \<lambda>_. None\<rparr>"
  obtain uploads res where put:
      "Remote_PutLeaves sample_codec (sample_http sample_remote leftover_objects) ?b2 rev sample_remote 5 [sample_indexed 1] = (uploads, res)"
    by (rule prod.exhaust)
  have ok: "sample_ok (sample_indexed 1)" by (simp add: sample_okI)
  have enc: "\<exists>raw. jsonEncode sample_codec (map Some ls) = Inr raw" for ls by (simp add: sample_codec_def)
  from PutLeaves_survives_failures [OF sample_ok_codec leftover_log serves_may_serve [OF serves_sample] _ _ _ put]
  have "res = Inr () \<and> remote_holds sample_codec sample_ok (leftover_objects ++ map_of (rev uploads)) 5 [sample_indexed 0, sample_indexed 1]"
    using ok enc serves_sample by (simp add: sample_indexed_def)
  then show ?thesis by (simp add: put)
qed

end
