(* ===== verification/Durability.thy ===== *)
theory Durability
  imports AppendOnly RemoteTail
begin

text \<open>
  What the log has published it can serve. The root is in the local database and the leaves are in the remote one, and
  no transaction spans both: \<open>UpdateSequencedLeaves\<close> uploads the leaves, the commit stores the root later. Between the two the
  process may fail or stop, in the middle of the uploads too. This theory follows the leaves behind the root through
  every history of operations and crashes.
\<close>

section \<open>Histories with crashes\<close>

text \<open>
  A crash loses the open transactions and the cache and keeps both databases; the process starts again with the cache
  \<open>c\<close>. A crash in the middle of \<open>UpdateSequencedLeaves\<close> comes after the first \<open>k\<close> uploads.
\<close>

datatype event =
    Operation "nat \<Rightarrow> env" ls_op
  | Crash "LogLeaf cache"
  | CrashInUpdate "LogLeaf cache" env nat "LogLeaf list" nat

definition restarted :: "LogLeaf cache \<Rightarrow> world \<Rightarrow> 'sc ls_state" where
  "restarted c w = (w\<lparr>w_cache := c\<rparr>, \<lambda>_. None)"

fun event_step :: "'sc subtree_cache_ops \<Rightarrow> 'sc ls_state \<Rightarrow> event \<Rightarrow> 'sc ls_state" where
  "event_step sc s (Operation envs o') = ls_step sc s (envs, o')"
| "event_step sc s (Crash c) = restarted c (fst s)"
| "event_step sc s (CrashInUpdate c env i leaves k) =
    (case snd s i of
       None \<Rightarrow> restarted c (fst s)
     | Some lt \<Rightarrow>
         (case lt_emit lt sUpdateSequencedLeaves of
            (_, Some e) \<Rightarrow> restarted c (fst s)
          | (_, None) \<Rightarrow> restarted c ((fst s)\<lparr>w_uploads := w_uploads (fst s) @ take k (fst (uploads_of env lt leaves))\<rparr>)))"

definition event_run :: "'sc subtree_cache_ops \<Rightarrow> 'sc ls_state \<Rightarrow> event list \<Rightarrow> 'sc ls_state" where
  "event_run sc = foldl (event_step sc)"

text \<open>The objects that have been uploaded; the last upload of a name counts.\<close>

definition objects :: "world \<Rightarrow> string \<Rightarrow> bytes option" where
  "objects w = map_of (rev (w_uploads w))"

text \<open>
  What the sequencer and the web server do: the new leaves are numbered from the size of the tree that the transaction
  found, have a Merkle leaf hash and can be encoded; a response of the web server is an object that was uploaded.
\<close>

definition update_good :: "codec \<Rightarrow> (LogLeaf \<Rightarrow> bool) \<Rightarrow> 'sc ls_state \<Rightarrow> env \<Rightarrow> nat \<Rightarrow> LogLeaf list \<Rightarrow> bool" where
  "update_good cd ok s env i leaves \<longleftrightarrow> e_codec env = cd \<and> list_all ok leaves \<and> (\<forall>l \<in> set leaves. MerkleLeafHash l \<noteq> None) \<and>
    mset (e_ord env (group_batches leaves)) = mset (group_batches leaves) \<and>
    (\<forall>lt. snd s i = Some lt \<longrightarrow> may_serve (e_http env) (remote lt) (objects (fst s)) \<and>
       numbered_from (slots_value (Roots (front lt))) leaves)"

fun event_good :: "codec \<Rightarrow> (LogLeaf \<Rightarrow> bool) \<Rightarrow> 'sc ls_state \<Rightarrow> event \<Rightarrow> bool" where
  "event_good cd ok s (Operation envs o') \<longleftrightarrow> begins_alone s o' \<and> op_good cd (envs, o') \<and>
    (case o' of LUpdateSequencedLeaves i leaves \<Rightarrow> update_good cd ok s (envs 0) i leaves | _ \<Rightarrow> True)"
| "event_good cd ok s (Crash c) \<longleftrightarrow> True"
| "event_good cd ok s (CrashInUpdate c env i leaves k) \<longleftrightarrow> update_good cd ok s env i leaves"

fun all_good :: "'sc subtree_cache_ops \<Rightarrow> codec \<Rightarrow> (LogLeaf \<Rightarrow> bool) \<Rightarrow> 'sc ls_state \<Rightarrow> event list \<Rightarrow> bool" where
  "all_good sc cd ok s [] \<longleftrightarrow> True"
| "all_good sc cd ok s (e # es) \<longleftrightarrow> event_good cd ok s e \<and> all_good sc cd ok (event_step sc s e) es"

lemma all_good_append: "all_good sc cd ok s (es1 @ es2) \<longleftrightarrow> all_good sc cd ok s es1 \<and> all_good sc cd ok (event_run sc s es1) es2"
  by (induction es1 arbitrary: s) (auto simp: event_run_def)

section \<open>The invariant\<close>

text \<open>
  \<open>M\<close> are the leaves of the logs that are committed, \<open>N\<close> those an open transaction has uploaded. A transaction can only commit
  the log it found, or this log with the uploaded leaves.
\<close>

definition allowed_logs :: "(int \<Rightarrow> LogLeaf list) \<Rightarrow> (int \<Rightarrow> LogLeaf list) \<Rightarrow> allowance" where
  "allowed_logs M N b t hs \<longleftrightarrow> hs = leaf_hashes (M t) \<or> \<not> b \<and> hs = leaf_hashes (M t @ N t)"

definition durable :: "codec \<Rightarrow> (LogLeaf \<Rightarrow> bool) \<Rightarrow> (int \<Rightarrow> LogLeaf list) \<Rightarrow> (int \<Rightarrow> LogLeaf list) \<Rightarrow> 'sc ls_state \<Rightarrow> bool" where
  "durable cd ok M N s \<longleftrightarrow> txs_inv cd (\<lambda>t. leaf_hashes (M t)) (allowed_logs M N) s \<and>
    (\<forall>t. remote_holds cd ok (objects (fst s)) t (M t @ N t))"

lemma objects_append: "objects (w\<lparr>w_uploads := w_uploads w @ us\<rparr>) = objects w ++ map_of (rev us)"
  by (simp add: objects_def)

lemma allowed_logs_mono: "\<forall>t hs. allowed_logs M N True t hs \<longrightarrow> allowed_logs M N False t hs"
  by (simp add: allowed_logs_def)

lemma allowed_logs_found: "allowed_logs M N b t (leaf_hashes (M t))"
  by (simp add: allowed_logs_def)

text \<open>Only \<open>UpdateSequencedLeaves\<close> uploads.\<close>

lemma queueLeaf_uploads: "queueLeaf env w lt leaf ts = (w', res) \<Longrightarrow> w_uploads w' = w_uploads w"
  by (auto simp: queueLeaf_def Let_def split_beta split: option.splits sum.splits if_splits)

lemma QueueLeaves_uploads:
  "lt_QueueLeaves_loop envs w lt leaves ts out = (w', res) \<Longrightarrow> w_uploads w' = w_uploads w"
proof (induction envs w lt leaves ts out rule: lt_QueueLeaves_loop.induct)
  case (2 envs w lt leaf leaves ts out)
  then show ?case by (auto split: prod.splits sum.splits dest: queueLeaf_uploads)
qed simp

lemma Storage_QueueLeaves_uploads:
  "LogStorage_QueueLeaves_loop envs w lt leaves ts out = (w', res) \<Longrightarrow> w_uploads w' = w_uploads w"
proof (induction envs w lt leaves ts out rule: LogStorage_QueueLeaves_loop.induct)
  case (2 envs w lt leaf leaves ts out)
  then show ?case by (auto split: prod.splits sum.splits option.splits dest: queueLeaf_uploads)
qed simp

lemma on_tx_uploads:
  assumes "\<And>w lt. w_uploads (fst (f w lt)) = w_uploads w"
  shows "w_uploads (fst (on_tx s i f)) = w_uploads (fst s)"
  using assms by (simp add: on_tx_def split_beta Let_def split: option.split)

lemma ls_step_uploads:
  assumes "\<And>i leaves. o' \<noteq> LUpdateSequencedLeaves i leaves"
  shows "w_uploads (fst (ls_step sc s (envs, o'))) = w_uploads (fst s)"
proof (cases o')
  case (LBegin i r t)
  then show ?thesis by (simp split: sum.split)
next
  case (LQueueLeaves i ls ts)
  have "w_uploads (fst (lt_QueueLeaves envs w lt ls ts)) = w_uploads w" for w and lt :: "'a logTreeTX"
    by (simp add: lt_QueueLeaves_def QueueLeaves_uploads [OF prod.collapse [symmetric]] Let_def split_beta split: option.split)
  then show ?thesis unfolding LQueueLeaves ls_step.simps by (intro on_tx_uploads) (simp add: split_beta Let_def)
next
  case (LDequeueLeaves i n c)
  then show ?thesis by (simp add: on_tx_uploads split_beta Let_def lt_DequeueLeaves_def split: option.split)
next
  case (LSetMerkleNodes i ns)
  then show ?thesis by (simp add: on_tx_uploads split_beta Let_def SetMerkleNodes_def split: option.split)
next
  case (LStoreSignedLogRoot i sth)
  then show ?thesis by (simp add: on_tx_uploads split_beta Let_def StoreSignedLogRoot_def split: option.split)
next
  case (LCommit i)
  then show ?thesis by (simp add: on_tx_uploads split_beta Let_def lt_Commit_def split: option.split sum.split)
next
  case (LRollback i)
  then show ?thesis by (simp add: on_tx_uploads)
next
  case (LClose i)
  then show ?thesis by (simp add: on_tx_uploads)
next
  case (LStorageQueueLeaves r t ls ts)
  then show ?thesis
    by (simp add: LogStorage_QueueLeaves_def Storage_QueueLeaves_uploads [OF prod.collapse [symmetric]] split: sum.split prod.split)
qed (use assms in simp)

section \<open>Every event keeps it\<close>

abbreviation json_codec :: "codec \<Rightarrow> (LogLeaf \<Rightarrow> bool) \<Rightarrow> bool" where
  "json_codec cd ok \<equiv> codec_pair (jsonEncode cd) (jsonDecode cd) (\<lambda>x. \<exists>ls. x = map Some ls \<and> list_all ok ls)"

abbreviation gob_codec :: "codec \<Rightarrow> bool" where
  "gob_codec cd \<equiv> codec_pair (gobEncode cd) (gobDecode cd) (\<lambda>f. \<exists>hs. frontier_rep f hs)"

lemma durableD:
  assumes "durable cd ok M N s"
  shows "txs_inv cd (\<lambda>t. leaf_hashes (M t)) (allowed_logs M N) s" "remote_holds cd ok (objects (fst s)) t (M t @ N t)"
    "remote_holds cd ok (objects (fst s)) t (M t)"
  using assms remote_holds_prefix unfolding durable_def by blast+

text \<open>The objects during and after an update: none of its uploads touches a committed leaf.\<close>

lemma update_objects:
  assumes "durable cd ok M N s" "json_codec cd ok" "update_good cd ok s env i leaves" "snd s i = Some lt" "\<not> tx_over lt" "early lt"
  shows "remote_holds cd ok (objects (fst s) ++ map_of (rev (take k (fst (uploads_of env lt leaves))))) u ((M u) @ (N(treeID lt := [])) u)"
    and "snd (uploads_of env lt leaves) = Inr () \<Longrightarrow>
      remote_holds cd ok (objects (fst s) ++ map_of (rev (fst (uploads_of env lt leaves)))) (treeID lt) (M (treeID lt) @ leaves)"
proof -
  let ?t = "treeID lt" and ?objs = "objects (fst s)"
  obtain us res where up: "uploads_of env lt leaves = (us, res)" by (rule prod.exhaust)
  have "lt_extends cd (allowed_logs M N True ?t) lt"
    using txs_invD(3) [OF durableD(1) [OF assms(1)] assms(4,5)] assms(6) by simp
  then have "frontier_rep (front lt) (leaf_hashes (M ?t))" by (auto simp: lt_extends_def allowed_logs_def)
  from frontier_rep_length [OF this] have num: "numbered_from (length (M ?t)) leaves"
    using assms(3,4) by (simp add: update_good_def)
  have good: "list_all ok leaves" "e_codec env = cd" "mset (e_ord env (group_batches leaves)) = mset (group_batches leaves)"
      "may_serve (e_http env) (remote lt) ?objs"
    using assms(3,4) by (auto simp: update_good_def)
  have put: "Remote_PutLeaves cd (e_http env) (e_b2 env) (e_ord env) (remote lt) ?t leaves = (us, res)"
    using up good(2) by (simp add: uploads_of_def)
  note uploads = PutLeaves_uploads [OF assms(2) durableD(3) [OF assms(1)] good(4) num good(1,3) put]
  have "\<forall>obj \<in> set (rev (take k us)). holds_batch cd ok ?t (M ?t @ leaves) obj" using uploads(1) set_take_subset by fastforce
  then show "remote_holds cd ok (?objs ++ map_of (rev (take k (fst (uploads_of env lt leaves))))) u (M u @ (N(?t := [])) u)"
    using remote_holds_override [OF durableD(3) [OF assms(1)]] remote_holds_other [OF durableD(2) [OF assms(1)]] up
    by (cases "u = ?t") simp_all
  show "remote_holds cd ok (?objs ++ map_of (rev (fst (uploads_of env lt leaves)))) ?t (M ?t @ leaves)"
    if "snd (uploads_of env lt leaves) = Inr ()" using uploads(2) that up by simp
qed

lemma durable_update:
  assumes "durable cd ok M N s" "json_codec cd ok" "update_good cd ok s (envs 0) i leaves"
  shows "\<exists>N'. durable cd ok M N' (ls_step sc s (envs, LUpdateSequencedLeaves i leaves))"
proof (cases "snd s i")
  case None
  then show ?thesis using assms(1) by (auto simp: on_tx_def)
next
  case (Some lt)
  let ?t = "treeID lt" and ?up = "uploads_of (envs 0) lt leaves"
  obtain w' lt' res where upd: "UpdateSequencedLeaves (envs 0) (fst s) lt leaves = (w', lt', res)" by (rule prod_cases3)
  have hash: "\<forall>l \<in> set leaves. MerkleLeafHash l \<noteq> None" using assms(3) by (simp add: update_good_def)
  have "\<exists>N'. durable cd ok M N' (w', (snd s)(i \<mapsto> lt'))" using upd hash
  proof (cases rule: UpdateSequencedLeaves_outcome)
    case blocked
    then show ?thesis using assms(1) Some by (auto simp: fun_upd_idem)
  next
    case performed
    note inv = durableD(1) [OF assms(1)] and objs = update_objects [OF assms Some performed(1,2)]
    define N' where "N' = N(?t := if snd ?up = Inr () then leaves else [])"
    have "lt_extends cd (allowed_logs M N' False ?t) lt'"
      by (rule performed(6) [OF txs_invD(3) [OF inv Some performed(1)]]) (use performed(2) in \<open>auto simp: allowed_logs_def N'_def\<close>)
    then have "txs_inv cd (\<lambda>t. leaf_hashes (M t)) (allowed_logs M N') (w', (snd s)(i \<mapsto> lt'))"
      using performed(3-5) txs_invD(1) [OF inv] txs_invD(4) [OF inv Some performed(1)]
      by (intro txs_inv_place [OF inv]) (auto simp: allowed_logs_def N'_def fun_eq_iff)
    moreover have "remote_holds cd ok (objects w') u (M u @ N' u)" for u
      using objs(1) [of "length (fst ?up)" u] objs(2) unfolding performed(5) objects_append N'_def
      by (cases "u = ?t"; cases "snd ?up = Inr ()") simp_all
    ultimately show ?thesis by (auto simp: durable_def)
  qed
  then show ?thesis using Some upd by (simp add: on_tx_def)
qed

lemma durable_commit:
  assumes "durable cd ok M N s"
  shows "\<exists>M' N'. durable cd ok M' N' (ls_step sc s (envs, LCommit i)) \<and> (\<forall>t. prefix (M t) (M' t))"
proof (cases "snd s i")
  case None
  then show ?thesis using assms by (auto simp: on_tx_def)
next
  case (Some lt)
  let ?t = "treeID lt"
  obtain w' lt' res where com: "lt_Commit sc (envs 0) (fst s) lt = (w', lt', res)" by (rule prod_cases3)
  then have step: "ls_step sc s (envs, LCommit i) = (w', (snd s)(i \<mapsto> lt'))" using Some by (simp add: on_tx_def)
  then have objs: "objects w' = objects (fst s)" using ls_step_uploads [of "LCommit i" sc s envs] by (simp add: objects_def)
  note remote = durableD(2,3) [OF assms, folded objs]
  show ?thesis
    using durableD(1) [OF assms] Some com
  proof (cases rule: txs_inv_commit)
    case same
    then show ?thesis using remote step by (auto simp: durable_def)
  next
    case (changed hs)
    then obtain K where K: "hs = leaf_hashes (M ?t @ K)" "K = [] \<or> K = N ?t" by (auto simp: allowed_logs_def)
    let ?M = "M(?t := M ?t @ K)" and ?N = "N(?t := [])"
    have "txs_inv cd ((\<lambda>t. leaf_hashes (M t))(?t := hs)) (allowed_logs ?M ?N) (w', (snd s)(i \<mapsto> lt'))"
      by (rule changed(3)) (simp_all add: allowed_logs_def fun_eq_iff)
    moreover have "(\<lambda>t. leaf_hashes (M t))(?t := hs) = (\<lambda>t. leaf_hashes (?M t))" by (simp add: K(1) fun_eq_iff)
    moreover have "remote_holds cd ok (objects w') u (?M u @ ?N u)" for u using remote K(2) by (cases "u = ?t") auto
    ultimately show ?thesis unfolding step by (intro exI [of _ ?M] exI [of _ ?N]) (simp add: durable_def)
  qed
qed

lemma durable_restarted:
  assumes "txs_inv cd (\<lambda>t. leaf_hashes (M t)) P s" "\<forall>t. remote_holds cd ok (objects w) t (M t @ N t)" "w_db w = w_db (fst s)"
  shows "durable cd ok M N (restarted c w)"
  using assms allowed_logs_mono [of M N] by (simp add: durable_def restarted_def txs_inv_def objects_def)

lemma durable_crash:
  assumes "durable cd ok M N s"
  shows "durable cd ok M N (restarted c (fst s))"
  using durableD [OF assms] by (intro durable_restarted) auto

lemma durable_crash_in_update:
  assumes "durable cd ok M N s" "json_codec cd ok" "update_good cd ok s env i leaves"
  shows "\<exists>N'. durable cd ok M N' (event_step sc s (CrashInUpdate c env i leaves k))"
proof (cases "snd s i")
  case None
  then show ?thesis using durable_crash [OF assms(1)] by auto
next
  case (Some lt)
  show ?thesis
  proof (cases rule: lt_emit_cases [of lt sUpdateSequencedLeaves])
    case (blocked e')
    then show ?thesis using durable_crash [OF assms(1)] Some by auto
  next
    case ok
    let ?w = "(fst s)\<lparr>w_uploads := w_uploads (fst s) @ take k (fst (uploads_of env lt leaves))\<rparr>"
    have open_tx: "\<not> tx_over lt" "early lt" using ok by (auto simp: phase_defs split: fsmState.splits)
    note objs = update_objects(1) [OF assms Some open_tx, of k]
    have "durable cd ok M (N(treeID lt := [])) (restarted c ?w)"
      using durableD(1) [OF assms(1)] objs by (intro durable_restarted) (simp_all add: objects_append)
    then show ?thesis using Some ok by auto
  qed
qed

lemma durable_step:
  assumes "durable cd ok M N s" "json_codec cd ok" "gob_codec cd" "event_good cd ok s e"
  shows "\<exists>M' N'. durable cd ok M' N' (event_step sc s e) \<and> (\<forall>t. prefix (M t) (M' t))"
proof (cases e)
  case (Operation envs o')
  consider i leaves where "o' = LUpdateSequencedLeaves i leaves" | i where "o' = LCommit i" | "keeps_logs o'" by (cases o') auto
  then show ?thesis
  proof cases
    case 1
    then show ?thesis using durable_update [OF assms(1,2), of envs i leaves sc] assms(4) Operation by auto
  next
    case 2
    then show ?thesis using durable_commit [OF assms(1)] Operation by simp
  next
    case 3
    have "txs_inv cd (\<lambda>t. leaf_hashes (M t)) (allowed_logs M N) (ls_step sc s (envs, o'))"
      using assms(4) Operation 3 by (intro txs_inv_step [OF durableD(1) [OF assms(1)] _ _ assms(3)]) (simp_all add: allowed_logs_found)
    moreover have "o' \<noteq> LUpdateSequencedLeaves i leaves" for i leaves using 3 by auto
    then have "objects (fst (ls_step sc s (envs, o'))) = objects (fst s)" by (simp add: objects_def ls_step_uploads)
    ultimately have "durable cd ok M N (event_step sc s e)" using durableD(2) [OF assms(1)] Operation by (simp add: durable_def)
    then show ?thesis by blast
  qed
next
  case (Crash c)
  then show ?thesis using durable_crash [OF assms(1), of c] by auto
next
  case (CrashInUpdate c env i leaves k)
  then show ?thesis using durable_crash_in_update [OF assms(1,2), of env i leaves sc c k] assms(4) by auto
qed

lemma durable_run:
  assumes "durable cd ok M N s" "json_codec cd ok" "gob_codec cd" "all_good sc cd ok s es"
  shows "\<exists>M' N'. durable cd ok M' N' (event_run sc s es) \<and> (\<forall>t. prefix (M t) (M' t))"
  using assms(1,4)
proof (induction es arbitrary: M N s)
  case Nil
  then show ?case by (auto simp: event_run_def)
next
  case (Cons e es)
  then obtain M1 N1 where step: "durable cd ok M1 N1 (event_step sc s e)" "\<forall>t. prefix (M t) (M1 t)"
    using durable_step [OF Cons.prems(1) assms(2,3), of e sc] by auto
  then obtain M2 N2 where "durable cd ok M2 N2 (event_run sc (event_step sc s e) es)" "\<forall>t. prefix (M1 t) (M2 t)"
    using Cons.IH [OF step(1)] Cons.prems(2) by auto
  then show ?case using step(2) by (intro exI [of _ M2] exI [of _ N2]) (auto simp: event_run_def intro: prefix_order.trans)
qed

section \<open>What is published is served\<close>

text \<open>
  C6. What the log has published it can serve, and goes on serving. In every history of storage operations and crashes in
  which the transactions of a tree do not overlap -- with any failures of the databases, the web server and the
  uploads, and crashes between any two uploads -- a head that can be read is the Merkle tree hash of leaves that the
  remote database returns, whatever failed attempts have left there; and every later head of the tree is about an
  extension of the same leaves.
\<close>

theorem published_leaves_are_served:
  assumes "gob_codec cd" "json_codec cd ok"
    and "all_good sc cd ok (\<lparr>w_db = [], w_cache = c, w_uploads = []\<rparr>, \<lambda>_. None) (es1 @ es2)"
    and "event_run sc (\<lparr>w_db = [], w_cache = c, w_uploads = []\<rparr>, \<lambda>_. None) es1 = (w1, txs1)"
    and "event_run sc (w1, txs1) es2 = (w2, txs2)"
    and "valid_tree t" "MostRecentRoot cd io1 (w_db w1) t = Inr (sth1, f1)" "MostRecentRoot cd io2 (w_db w2) t = Inr (sth2, f2)"
    and "serves http1 r1 (objects w1)" "serves http2 r2 (objects w2)"
  shows "\<exists>L K. contents (RootHash sth1) = mth (leaf_hashes L) \<and> contents (RootHash sth2) = mth (leaf_hashes (L @ K)) \<and>
    (\<forall>seqs. (\<forall>s \<in> set seqs. 0 \<le> s \<and> s < int (length L) \<and> s < 2 ^ 63) \<longrightarrow>
       snd (Remote_GetLeaves cd http1 r1 t seqs) = Inr (map (\<lambda>s. Some (L ! nat s)) (sort seqs))) \<and>
    (\<forall>seqs. (\<forall>s \<in> set seqs. 0 \<le> s \<and> s < int (length (L @ K)) \<and> s < 2 ^ 63) \<longrightarrow>
       snd (Remote_GetLeaves cd http2 r2 t seqs) = Inr (map (\<lambda>s. Some ((L @ K) ! nat s)) (sort seqs)))"
proof -
  let ?s = "(\<lparr>w_db = [], w_cache = c, w_uploads = []\<rparr>, \<lambda>_. None) :: 'a ls_state"
  have good: "all_good sc cd ok ?s es1" "all_good sc cd ok (w1, txs1) es2"
    using assms(3) all_good_append [of sc cd ok ?s es1 es2] assms(4) by simp_all
  have "durable cd ok (\<lambda>_. []) (\<lambda>_. []) ?s"
    by (simp add: durable_def txs_inv_def db_holds_logs_def db_holds_log_def db_get_def allowed_logs_mono [rule_format]
        remote_holds_def stored_batch_def objects_def)
  then obtain M1 N1 where one: "durable cd ok M1 N1 (w1, txs1)"
    using durable_run [OF _ assms(2,1) good(1)] assms(4) by metis
  then obtain M2 N2 where two: "durable cd ok M2 N2 (w2, txs2)" "prefix (M1 t) (M2 t)"
    using durable_run [OF _ assms(2,1) good(2)] assms(5) by metis
  obtain K where K: "M2 t = M1 t @ K" using two(2) by (auto simp: prefix_def)
  have head: "contents (RootHash sth) = mth (leaf_hashes (M t))"
    if "durable cd ok M N (w, txs)" "MostRecentRoot cd io (w_db w) t = Inr (sth, f)"
    for M N w io sth f and txs :: "nat \<Rightarrow> 'a logTreeTX option"
    using MostRecentRoot_of_log [OF that(2) _ assms(1)] txs_invD(1) [OF durableD(1) [OF that(1)]] assms(6) by (auto simp: db_holds_logs_def)
  show ?thesis
    using head [OF one assms(7)] head [OF two(1) assms(8)]
      remote_holds_read [OF durableD(3) [OF one, simplified] assms(9)] remote_holds_read [OF durableD(3) [OF two(1), simplified] assms(10)]
    by (intro exI [of _ "M1 t"] exI [of _ K]) (simp add: K)
qed

section \<open>A crash and a second attempt\<close>

text \<open>A codec for leaves with index 0.\<close>

definition served_codec :: codec where
  "served_codec = sample_codec\<lparr>
     jsonEncode := \<lambda>ls. Inr (map (\<lambda>l. case l of None \<Rightarrow> 0 | Some l \<Rightarrow> hd (contents (MerkleLeafHash l))) ls),
     jsonDecode := \<lambda>b. Inr (map (\<lambda>x. Some (sequenced x)) b)\<rparr>"

definition first_leaf :: "LogLeaf \<Rightarrow> bool" where
  "first_leaf l \<longleftrightarrow> (\<exists>h. l = sequenced h)"

definition served_env :: "(string \<Rightarrow> bytes option) \<Rightarrow> env" where
  "served_env objs = sample_env\<lparr>e_codec := served_codec, e_http := sample_http \<lparr>bucket = [], url = []\<rparr> objs\<rparr>"

abbreviation attempt :: "(string \<Rightarrow> bytes option) \<Rightarrow> ls_op \<Rightarrow> event" where
  "attempt objs o' \<equiv> Operation (\<lambda>_. served_env objs) o'"

definition first_attempt :: "event list" where
  "first_attempt =
    [attempt Map.empty (LBegin 0 \<lparr>bucket = [], url = []\<rparr> 5), attempt Map.empty (LDequeueLeaves 0 10 100),
     CrashInUpdate leafCache (served_env Map.empty) 0 [sequenced 7] 1]"

definition second_attempt :: "event list" where
  "second_attempt = map (attempt [object_name 5 0 \<mapsto> [7]])
    [LBegin 0 \<lparr>bucket = [], url = []\<rparr> 5, LDequeueLeaves 0 10 100, LUpdateSequencedLeaves 0 [sequenced 5], LSetMerkleNodes 0 [],
     LStoreSignedLogRoot 0 (head_of 5), LCommit 0]"

lemma served_json: "json_codec served_codec first_leaf"
proof
  fix x raw assume a: "\<exists>ls. x = map Some ls \<and> list_all first_leaf ls" "jsonEncode served_codec x = Inr raw"
  then obtain ls where ls: "x = map Some ls" "list_all first_leaf ls" by blast
  have "sequenced (hd (contents (MerkleLeafHash l))) = l" if "l \<in> set ls" for l
    using ls(2) that by (auto simp: list_all_iff first_leaf_def sequenced_def)
  then show "jsonDecode served_codec raw = Inr x" using a(2) ls(1) by (auto simp: served_codec_def comp_def intro: map_idI)
qed

lemma served_gob: "gob_codec served_codec"
  using sample_gob by (simp add: served_codec_def)

lemma served_fields:
  "e_codec (served_env objs) = served_codec" "e_io (served_env objs) = no_faults" "e_ord (served_env objs) = id"
  "e_http (served_env objs) = sample_http \<lparr>bucket = [], url = []\<rparr> objs" "e_b2 (served_env objs) = \<lparr>bucketErr = \<lambda>_. None, uploadErr = \<lambda>_. None\<rparr>"
  by (simp_all add: served_env_def sample_env_def)

lemma served_put:
  assumes "getBatch served_codec (sample_http r objs) r 5 0 = (case old of None \<Rightarrow> Inl ErrLeavesNotFound | Some h \<Rightarrow> Inr [Some (sequenced h)])"
  shows "Remote_PutLeaves served_codec (sample_http r objs) \<lparr>bucketErr = \<lambda>_. None, uploadErr = \<lambda>_. None\<rparr> id r 5 [sequenced h'] =
    ([(object_name 5 0, [h'])], Inr ())"
proof -
  have ix: "LeafIndex (sequenced h) = 0" for h by (simp add: sequenced_def sample_leaf_def)
  have merge: "merge_batch [sequenced h'] [] = Inr [sequenced h']" "merge_batch [sequenced h'] [Some (sequenced h)] = Inr [sequenced h']" for h
    by (simp_all add: merge_batch_def ix Let_def numeral_eq_Suc)
  have enc: "jsonEncode served_codec [Some (sequenced h')] = Inr [h']" by (simp add: served_codec_def sequenced_def)
  show ?thesis
    using assms by (cases old) (simp_all add: Remote_PutLeaves_def group_batches_def put_batch_def store_batch_def ix merge enc Let_def)
qed

text \<open>The transaction of both attempts: the tree has no root yet.\<close>

definition served_lt :: "fsmState \<Rightarrow> batch_op list option \<Rightarrow> gobytes list \<Rightarrow> bool \<Rightarrow> unit logTreeTX" where
  "served_lt st ops rs cl =
    \<lparr>remote = \<lparr>bucket = [], url = []\<rparr>, subtreeCache = (), treeID = 5, root = zero_SignedLogRoot, front = \<lparr>Roots = rs\<rparr>, closed = cl,
     lt_fsm = \<lparr>state = st\<rparr>, localTx = \<lparr>batch = ops\<rparr>, queuedLeaves = False\<rparr>"

lemma served_emit: "allowed a st \<Longrightarrow> lt_emit (served_lt a ops rs cl) st = (served_lt st ops rs cl, None)"
  by (simp add: lt_emit_def served_lt_def emit_eq)

lemma served_begin:
  "w_db w = [] \<Longrightarrow> beginForTree sample_sc (served_env objs) w \<lparr>bucket = [], url = []\<rparr> 5 = Inr (served_lt sBegin (Some []) [] False)"
  by (simp add: beginForTree_def sample_sc_def served_fields MostRecentRoot_def snap_Get_def db_get_def Local_Begin_def
      served_lt_def empty_frontier_def)

lemma served_dequeue:
  "w_db w = [] \<Longrightarrow> lt_DequeueLeaves (served_env objs) w (served_lt sBegin (Some []) [] False) 10 100 = (w, served_lt sDequeueLeaves (Some []) [] False, Inr [])"
  by (simp add: lt_DequeueLeaves_def served_emit allowed_iff LocalTx_DequeueLeaves_def served_fields db_range_def)

lemma served_update:
  obtains ops where "UpdateSequencedLeaves (served_env [object_name 5 0 \<mapsto> [7]]) w (served_lt sDequeueLeaves (Some []) [] False) [sequenced 5] =
    (w\<lparr>w_uploads := w_uploads w @ [(object_name 5 0, [5])]\<rparr>, served_lt sUpdateSequencedLeaves (Some ops) [Some [5]] False, Inr ())"
    "list_all not_root_row ops"
proof -
  let ?r = "\<lparr>bucket = [], url = []\<rparr>"
  have "getBatch served_codec (sample_http ?r [object_name 5 0 \<mapsto> [7]]) ?r 5 0 = Inr [Some (sequenced 7)]"
    by (simp add: getBatch_serves [OF serves_sample]) (simp add: served_codec_def)
  then have put: "Remote_PutLeaves served_codec (sample_http ?r [object_name 5 0 \<mapsto> [7]]) \<lparr>bucketErr = \<lambda>_. None, uploadErr = \<lambda>_. None\<rparr> id ?r 5 [sequenced 5] =
      ([(object_name 5 0, [5])], Inr ())" using served_put [of ?r _ "Some 7" 5] by simp
  have "Append \<lparr>Roots = []\<rparr> (Some [5]) = \<lparr>Roots = [Some [5]]\<rparr>" by (simp add: Append_def Append_loop.simps)
  moreover obtain raw where "PutVarint 8 0 = Inr raw" using PutVarint_8 [of 0] by (auto simp: in_int64_def)
  ultimately have "UpdateSequencedLeaves (served_env [object_name 5 0 \<mapsto> [7]]) w (served_lt sDequeueLeaves (Some []) [] False) [sequenced 5] =
      (w\<lparr>w_uploads := w_uploads w @ [(object_name 5 0, [5])]\<rparr>, served_lt sUpdateSequencedLeaves
        (Some [BatchPut (keyB typ_m 5 [5]) raw, BatchPut (keyB typ_i 5 [9]) raw]) [Some [5]] False, Inr ())"
    using put by (simp add: UpdateSequencedLeaves_def served_emit allowed_iff served_fields)
      (simp add: served_lt_def LocalTx_PutLeaves_def sequenced_def sample_leaf_def)
  with that show thesis by (simp add: not_root_row_keyB)
qed

lemma served_nodes:
  "SetMerkleNodes sample_sc env w (served_lt sUpdateSequencedLeaves ops rs False) [] = (w, served_lt sSetMerkleNodes ops rs False, Inr ())"
  by (simp add: SetMerkleNodes_def served_emit allowed_iff)

lemma served_store:
  "StoreSignedLogRoot (served_env objs) w (served_lt sSetMerkleNodes (Some ops) [Some [5]] False) (head_of 5) =
    (w, served_lt sStoreSignedLogRoot (Some (ops @ root_puts 5 (head_of 5) [5])) [Some [5]] False, Inr ())"
proof -
  have "LocalTx_StoreRoot served_codec \<lparr>batch = Some ops\<rparr> 5 (head_of 5) \<lparr>Roots = [Some [5]]\<rparr> =
      (\<lparr>batch = Some ops\<rparr>\<lparr>batch := Some (ops @ root_puts 5 (head_of 5) [5])\<rparr>, Inr ())"
    by (rule StoreRoot_effect) (simp_all add: served_codec_def sample_codec_def)
  then show ?thesis
    by (simp add: StoreSignedLogRoot_def served_emit allowed_iff served_fields)
       (simp add: served_lt_def head_of_def bytes_Equal_def Head_def)
qed

lemma served_commit:
  "lt_Commit sample_sc (served_env objs) w (served_lt sStoreSignedLogRoot (Some ops) rs False) =
    (w\<lparr>w_db := db_write (w_db w) ops\<rparr>, served_lt sCommit None rs True, Inr ())"
  by (simp add: lt_Commit_def served_emit allowed_iff)
     (simp add: served_lt_def lt_Flush_def sample_sc_def served_fields LocalTx_Commit_def)

lemma served_foreign: "foreign_errors served_codec no_faults"
  by (simp add: foreign_errors_def no_faults_def) (simp add: served_codec_def sample_codec_def)

lemma served_update_good:
  assumes "snd s 0 = Some (served_lt st ops [] False)" "objects (fst s) = objs"
  shows "update_good served_codec first_leaf s (served_env objs) 0 [sequenced h]"
proof -
  have "LeafIndex (sequenced h) = 0" "MerkleLeafHash (sequenced h) \<noteq> None" "first_leaf (sequenced h)"
    by (auto simp: sequenced_def sample_leaf_def first_leaf_def)
  moreover have "may_serve (sample_http \<lparr>bucket = [], url = []\<rparr> objs) \<lparr>bucket = [], url = []\<rparr> objs" by (rule serves_may_serve [OF serves_sample])
  ultimately show ?thesis using assms by (simp add: update_good_def served_fields served_lt_def)
qed

lemma first_attempt_run:
  "event_run sample_sc sample_start first_attempt = (\<lparr>w_db = [], w_cache = leafCache, w_uploads = [(object_name 5 0, [7])]\<rparr>, \<lambda>_. None)"
  "all_good sample_sc served_codec first_leaf sample_start first_attempt"
proof -
  let ?r = "\<lparr>bucket = [], url = []\<rparr>" and ?w = "\<lparr>w_db = [], w_cache = leafCache, w_uploads = []\<rparr>"
  let ?s1 = "(?w, [0 \<mapsto> served_lt sBegin (Some []) [] False])" and ?s2 = "(?w, [0 \<mapsto> served_lt sDequeueLeaves (Some []) [] False])"
  have "getBatch served_codec (sample_http ?r Map.empty) ?r 5 0 = Inl ErrLeavesNotFound" by (simp add: getBatch_serves [OF serves_sample])
  then have "uploads_of (served_env Map.empty) (served_lt sDequeueLeaves (Some []) [] False) [sequenced 7] = ([(object_name 5 0, [7])], Inr ())"
    using served_put [of ?r Map.empty None 7] by (simp add: uploads_of_def served_fields) (simp add: served_lt_def)
  then have third: "event_step sample_sc ?s2 (CrashInUpdate leafCache (served_env Map.empty) 0 [sequenced 7] 1) =
      (\<lparr>w_db = [], w_cache = leafCache, w_uploads = [(object_name 5 0, [7])]\<rparr>, \<lambda>_. None)"
    by (simp add: served_emit allowed_iff restarted_def)
  have first: "event_step sample_sc sample_start (attempt Map.empty (LBegin 0 ?r 5)) = ?s1" by (simp add: sample_start_def served_begin)
  have second: "event_step sample_sc ?s1 (attempt Map.empty (LDequeueLeaves 0 10 100)) = ?s2" by (simp add: on_tx_def served_dequeue)
  show "event_run sample_sc sample_start first_attempt = (\<lparr>w_db = [], w_cache = leafCache, w_uploads = [(object_name 5 0, [7])]\<rparr>, \<lambda>_. None)"
    unfolding first_attempt_def event_run_def foldl_Cons foldl_Nil first second third ..
  have "update_good served_codec first_leaf ?s2 (served_env Map.empty) 0 [sequenced 7]"
    by (rule served_update_good) (simp_all add: objects_def)
  then show "all_good sample_sc served_codec first_leaf sample_start first_attempt"
    unfolding first_attempt_def all_good.simps first second
    using served_foreign by (simp add: op_good_def served_fields valid_tree_def sample_start_def)
qed

lemma second_attempt_run:
  fixes w :: world
  defines "w \<equiv> \<lparr>w_db = [], w_cache = leafCache, w_uploads = [(object_name 5 0, [7])]\<rparr>"
  obtains ops txs where "list_all not_root_row ops" "event_run sample_sc (w, \<lambda>_. None) second_attempt =
      (\<lparr>w_db = db_write [] (ops @ root_puts 5 (head_of 5) [5]), w_cache = leafCache,
        w_uploads = [(object_name 5 0, [7]), (object_name 5 0, [5])]\<rparr>, txs)"
    "all_good sample_sc served_codec first_leaf (w, \<lambda>_. None) second_attempt"
proof -
  let ?r = "\<lparr>bucket = [], url = []\<rparr>" and ?o = "[object_name 5 0 \<mapsto> [7]]" and ?tx = "\<lambda>st ops rs. [0 \<mapsto> served_lt st (Some ops) rs False]"
  obtain ops where upd: "UpdateSequencedLeaves (served_env ?o) w (served_lt sDequeueLeaves (Some []) [] False) [sequenced 5] =
      (w\<lparr>w_uploads := w_uploads w @ [(object_name 5 0, [5])]\<rparr>, served_lt sUpdateSequencedLeaves (Some ops) [Some [5]] False, Inr ())"
      "list_all not_root_row ops" by (rule served_update)
  let ?w = "\<lparr>w_db = [], w_cache = leafCache, w_uploads = [(object_name 5 0, [7]), (object_name 5 0, [5])]\<rparr>"
  have w: "w_db w = []" "w\<lparr>w_uploads := w_uploads w @ [(object_name 5 0, [5])]\<rparr> = ?w" by (simp_all add: w_def)
  have steps: "event_step sample_sc (w, \<lambda>_. None) (attempt ?o (LBegin 0 ?r 5)) = (w, ?tx sBegin [] [])"
      "event_step sample_sc (w, ?tx sBegin [] []) (attempt ?o (LDequeueLeaves 0 10 100)) = (w, ?tx sDequeueLeaves [] [])"
      "event_step sample_sc (w, ?tx sDequeueLeaves [] []) (attempt ?o (LUpdateSequencedLeaves 0 [sequenced 5])) = (?w, ?tx sUpdateSequencedLeaves ops [Some [5]])"
      "event_step sample_sc (?w, ?tx sUpdateSequencedLeaves ops [Some [5]]) (attempt ?o (LSetMerkleNodes 0 [])) = (?w, ?tx sSetMerkleNodes ops [Some [5]])"
      "event_step sample_sc (?w, ?tx sSetMerkleNodes ops [Some [5]]) (attempt ?o (LStoreSignedLogRoot 0 (head_of 5))) =
        (?w, ?tx sStoreSignedLogRoot (ops @ root_puts 5 (head_of 5) [5]) [Some [5]])"
      "event_step sample_sc (?w, ?tx sStoreSignedLogRoot (ops @ root_puts 5 (head_of 5) [5]) [Some [5]]) (attempt ?o (LCommit 0)) =
        (?w\<lparr>w_db := db_write [] (ops @ root_puts 5 (head_of 5) [5])\<rparr>, [0 \<mapsto> served_lt sCommit None [Some [5]] True])"
    by (simp_all add: on_tx_def served_begin served_dequeue upd(1) served_nodes served_store served_commit w)
  have "update_good served_codec first_leaf (w, ?tx sDequeueLeaves [] []) (served_env ?o) 0 [sequenced 5]"
    by (rule served_update_good) (simp_all add: objects_def w_def)
  moreover have "sth_sound served_codec (head_of 5)" by (simp add: sth_sound_def head_of_def served_codec_def sample_codec_def)
  moreover have "MerkleLeafHash (sequenced 5) \<noteq> None" by (simp add: sequenced_def)
  ultimately have "all_good sample_sc served_codec first_leaf (w, \<lambda>_. None) second_attempt"
    unfolding second_attempt_def list.map all_good.simps steps
    using served_foreign by (simp add: op_good_def served_fields valid_tree_def)
  moreover have "event_run sample_sc (w, \<lambda>_. None) second_attempt =
      (?w\<lparr>w_db := db_write [] (ops @ root_puts 5 (head_of 5) [5])\<rparr>, [0 \<mapsto> served_lt sCommit None [Some [5]] True])"
    unfolding second_attempt_def list.map event_run_def foldl_Cons foldl_Nil steps ..
  ultimately show thesis using upd(2) by (intro that [of ops]) simp_all
qed

theorem published_leaves_are_served_witness:
  "\<exists>(w :: world) txs sth f L. event_run sample_sc sample_start (first_attempt @ second_attempt) = (w, txs) \<and>
     w_uploads w = [(object_name 5 0, [7]), (object_name 5 0, [5])] \<and> MostRecentRoot served_codec no_faults (w_db w) 5 = Inr (sth, f) \<and>
     RootHash sth = Some [5] \<and> mth (leaf_hashes L) = [5] \<and>
     (\<forall>s. 0 \<le> s \<and> s < int (length L) \<and> s < 2 ^ 63 \<longrightarrow>
        snd (Remote_GetLeaves served_codec (sample_http sample_remote (objects w)) sample_remote 5 [s]) = Inr [Some (L ! nat s)])"
proof -
  obtain ops txs where run: "list_all not_root_row ops" "event_run sample_sc (\<lparr>w_db = [], w_cache = leafCache, w_uploads = [(object_name 5 0, [7])]\<rparr>, \<lambda>_. None) second_attempt =
      (\<lparr>w_db = db_write [] (ops @ root_puts 5 (head_of 5) [5]), w_cache = leafCache,
        w_uploads = [(object_name 5 0, [7]), (object_name 5 0, [5])]\<rparr>, txs)"
    "all_good sample_sc served_codec first_leaf (\<lparr>w_db = [], w_cache = leafCache, w_uploads = [(object_name 5 0, [7])]\<rparr>, \<lambda>_. None) second_attempt"
    by (rule second_attempt_run)
  let ?w = "\<lparr>w_db = db_write [] (ops @ root_puts 5 (head_of 5) [5]), w_cache = leafCache,
        w_uploads = [(object_name 5 0, [7]), (object_name 5 0, [5])]\<rparr>"
  have all: "event_run sample_sc sample_start (first_attempt @ second_attempt) = (?w, txs)"
      "all_good sample_sc served_codec first_leaf sample_start (first_attempt @ second_attempt)"
    using run(2,3) first_attempt_run by (simp_all add: event_run_def all_good_append)
  obtain sth where sth: "MostRecentRoot served_codec no_faults (w_db ?w) 5 = Inr (sth, \<lparr>Roots = [Some [5]]\<rparr>)" "RootHash sth = Some [5]"
    using run(1) by (simp add: MostRecentRoot_def snap_Get_def db_get_write batch_effect_append not_root_effect root_puts_effect db_wf_def)
      (simp add: served_codec_def sample_codec_def head_of_def)
  have good: "all_good sample_sc served_codec first_leaf sample_start ((first_attempt @ second_attempt) @ [])" and again: "event_run sample_sc (?w, txs) [] = (?w, txs)"
    using all(2) by (simp_all add: event_run_def)
  have "valid_tree 5" by (simp add: valid_tree_def)
  from published_leaves_are_served [OF served_gob served_json good [unfolded sample_start_def] all(1) [unfolded sample_start_def] again this sth(1) sth(1)
      serves_sample [of sample_remote] serves_sample [of sample_remote]]
  obtain L where L: "contents (RootHash sth) = mth (leaf_hashes L)"
      "\<forall>seqs. (\<forall>s \<in> set seqs. 0 \<le> s \<and> s < int (length L) \<and> s < 2 ^ 63) \<longrightarrow>
         snd (Remote_GetLeaves served_codec (sample_http sample_remote (objects ?w)) sample_remote 5 seqs) = Inr (map (\<lambda>s. Some (L ! nat s)) (sort seqs))"
    by blast
  have "snd (Remote_GetLeaves served_codec (sample_http sample_remote (objects ?w)) sample_remote 5 [s]) = Inr [Some (L ! nat s)]"
    if "0 \<le> s \<and> s < int (length L) \<and> s < 2 ^ 63" for s using L(2) [rule_format, of "[s]"] that by simp
  then show ?thesis using all(1) sth L(1) by (intro exI [of _ ?w]) (auto intro!: exI [of _ L])
qed

end
