(* ===== verification/LocalQueue.thy ===== *)
theory LocalQueue
  imports Local
begin

text \<open>
  The queue of unsequenced leaves in the local database. Rows are ordered by queue time, so the range
  scans of \<open>Unsequenced\<close> and \<open>DequeueLeaves\<close> see exactly the tree's queue, oldest first, up to the cutoff;
  a dequeue removes what it returned when its transaction commits. Rows are told apart by four random
  bytes only, and the theory also shows what happens when these repeat.
\<close>

section \<open>The queue\<close>

definition be_val :: "bytes \<Rightarrow> int" where
  "be_val bs = foldl (\<lambda>a b. a * 256 + uint b) 0 bs"

text \<open>The queue time in the key of a queue row of the tree; none for other keys.\<close>

definition queue_time :: "int \<Rightarrow> bytes \<Rightarrow> int option" where
  "queue_time t k =
    (let p = keyB typ_l t []
     in if take (length p) k = p \<and> length k = length p + 12
        then Some (be_val (take 8 (drop (length p) k))) else None)"

definition queue_of :: "db \<Rightarrow> int \<Rightarrow> (bytes \<times> bytes) list" where
  "queue_of d t = filter (\<lambda>e. queue_time t (fst e) \<noteq> None) d"

definition queue_upto :: "db \<Rightarrow> int \<Rightarrow> int \<Rightarrow> (bytes \<times> bytes) list" where
  "queue_upto d t c = filter (\<lambda>e. case queue_time t (fst e) of Some ts \<Rightarrow> ts \<le> c | None \<Rightarrow> False) d"

lemma foldl_be: "foldl (\<lambda>a b. a * 256 + uint b) z (posenc 256 word_of_int n x :: bytes) = z * 256 ^ n + x mod 256 ^ n"
proof (induction n arbitrary: z)
  case 0
  then show ?case by simp
next
  case (Suc n)
  have "uint (word_of_int (x div 256 ^ n mod 256) :: byte) = x div 256 ^ n mod 256"
    by (simp add: unsigned_of_int take_bit_eq_mod)
  moreover have "x mod 256 ^ Suc n = (x div 256 ^ n mod 256) * 256 ^ n + x mod 256 ^ n"
    using zmod_zmult2_eq [of 256 x "256 ^ n"] by (simp add: mult.commute)
  ultimately have "z * 256 ^ Suc n + x mod 256 ^ Suc n =
      (z * 256 + uint (word_of_int (x div 256 ^ n mod 256) :: byte)) * 256 ^ n + x mod 256 ^ n"
    by (simp add: algebra_simps)
  then show ?case by (simp only: Suc posenc.simps foldl_Cons)
qed

lemma be_val_be8: "int63 x \<Longrightarrow> be_val (be8 x) = x"
  by (simp add: be_val_def foldl_be int63_def)

lemma keyB_Nil: "keyB ty t z = keyB ty t [] @ z"
  by (simp add: keyB_def)

lemma queue_time_row: "int63 ts \<Longrightarrow> length r = 4 \<Longrightarrow> queue_time t (keyB typ_l t (rowkeyLeaf ts (Some r))) = Some ts"
  by (subst keyB_Nil) (simp add: queue_time_def rowkeyLeaf_eq be_val_be8 Let_def)

lemma queue_time_Some_keyB:
  assumes "queue_time t k = Some ts"
  shows "\<exists>z. k = keyB typ_l t z"
proof -
  let ?p = "keyB typ_l t []"
  have "take (length ?p) k = ?p" using assms by (simp add: queue_time_def Let_def split: if_splits)
  then have "k = ?p @ drop (length ?p) k" using append_take_drop_id [of "length ?p" k] by simp
  then show ?thesis using keyB_Nil by metis
qed

text \<open>Of a well-shaped key, the queue time is what it is the row of.\<close>

lemma queue_time_iff:
  assumes "key_ok k" "valid_tree t"
  shows "queue_time t k = Some ts \<longleftrightarrow> (\<exists>r. int63 ts \<and> length r = 4 \<and> k = keyB typ_l t (rowkeyLeaf ts (Some r)))"
proof
  assume q: "queue_time t k = Some ts"
  then obtain z where z: "k = keyB typ_l t z" using queue_time_Some_keyB by blast
  obtain u row where u: "valid_tree u" "row_ok row" "k = row_key u row"
    using assms(1) by (auto simp: key_ok_def)
  then obtain ts' r where r: "row = QueueRow ts' r" using z by (cases row) (simp_all add: keyS_eq_keyB)
  with u z assms(2) have "u = t" by (simp add: keyB_eq_iff)
  with u r q show "\<exists>r. int63 ts \<and> length r = 4 \<and> k = keyB typ_l t (rowkeyLeaf ts (Some r))"
    by (auto simp: queue_time_row)
qed (auto simp: queue_time_row)

lemma queue_range_iff:
  assumes "key_ok k" "valid_tree t" "int63 c"
  shows "keyB typ_l t (rowkeyLeaf 0 None) \<le> k \<and> k < keyB typ_l t (rowkeyLeaf (wrap64 (c + 1)) None) \<longleftrightarrow>
    (case queue_time t k of Some ts \<Rightarrow> ts \<le> c | None \<Rightarrow> False)" (is "?R \<longleftrightarrow> ?Q")
proof
  assume ?R
  moreover obtain p where p: "\<forall>z. keyB typ_l t z = p @ z" using keyB_prefix by blast
  ultimately obtain z where z: "k = keyB typ_l t z"
    using between_prefix_right [of p _ k] by (metis (no_types, lifting))
  obtain u row where u: "valid_tree u" "row_ok row" "k = row_key u row"
    using assms(1) by (auto simp: key_ok_def)
  then obtain ts r where r: "row = QueueRow ts r" using z by (cases row) (simp_all add: keyS_eq_keyB)
  with u z assms(2) have "u = t" by (simp add: keyB_eq_iff)
  with u r \<open>?R\<close> assms(3) show ?Q by (simp add: queue_time_row rowkeyLeaf_cutoff)
next
  assume ?Q
  then obtain ts r where "ts \<le> c" "int63 ts" "length r = 4" "k = keyB typ_l t (rowkeyLeaf ts (Some r))"
    using queue_time_iff [OF assms(1,2)] by (auto split: option.splits)
  then show ?R using assms(3) by (simp add: rowkeyLeaf_cutoff rowkeyLeaf_zero_le)
qed

lemma queue_range:
  assumes "db_inv d" "valid_tree t" "int63 c"
  shows "db_range d (keyB typ_l t (rowkeyLeaf 0 None)) (keyB typ_l t (rowkeyLeaf (wrap64 (c + 1)) None)) = queue_upto d t c"
  unfolding db_range_def queue_upto_def
  using assms by (intro filter_cong) (auto simp: queue_range_iff [symmetric] db_inv_def)

lemma unsequenced_range_iff:
  assumes "key_ok k" "valid_tree t" "valid_tree (t + 1)"
  shows "keyB typ_l t (rowkeyLeaf 0 None) \<le> k \<and> k < keyB typ_l (t + 1) (rowkeyLeaf 0 None) \<longleftrightarrow> queue_time t k \<noteq> None"
proof -
  obtain u row where u: "valid_tree u" "row_ok row" "k = row_key u row"
    using assms(1) by (auto simp: key_ok_def)
  have le: "keyB typ_l t x \<le> keyB a u y \<longleftrightarrow> \<not> keyB a u y < keyB typ_l t x" for a x y by auto
  have noq: "queue_time t (keyB a u y) = None" if "a < 0x80" "a \<noteq> typ_l" for a y
    using queue_time_Some_keyB [of t "keyB a u y"] that by (cases "queue_time t (keyB a u y)") auto
  show ?thesis
  proof (cases row)
    case (QueueRow ts r)
    then have r: "int63 ts" "length r = 4" "k = keyB typ_l u (rowkeyLeaf ts (Some r))" using u by auto
    have zero: "\<not> rowkeyLeaf ts (Some r) < rowkeyLeaf 0 None" using rowkeyLeaf_zero_le [OF r(2)] by (simp add: not_less)
    have "queue_time t k \<noteq> None \<longleftrightarrow> u = t"
      using queue_time_Some_keyB [of t k] r u(1) assms(2) by (auto simp: keyB_eq_iff queue_time_row)
    with r u(1) assms zero show ?thesis by (auto simp: le keyB_less_iff)
  next
    case (SubtreeRow nid q)
    then show ?thesis using u assms noq by (auto simp: le keyB_less_iff)
  next
    case (RootRow s)
    then show ?thesis using u assms noq by (auto simp: le keyB_less_iff keyS_eq_keyB)
  next
    case (MerkleRow h)
    then show ?thesis using u assms noq by (auto simp: le keyB_less_iff)
  next
    case (IdentityRow h)
    then show ?thesis using u assms noq by (auto simp: le keyB_less_iff)
  qed
qed

section \<open>Counting\<close>

lemma Unsequenced_queue:
  assumes "db_inv d" "valid_tree t" "valid_tree (t + 1)" "snapErr io = None"
  shows "Unsequenced io d t = Inr (if iterErr io = None then int (length (queue_of d t)) else 0)"
proof -
  have "wrap64 (t + 1) = t + 1" using assms(3) by (auto simp: valid_tree_def in_int64_def)
  moreover have "db_range d (keyB typ_l t (rowkeyLeaf 0 None)) (keyB typ_l (t + 1) (rowkeyLeaf 0 None)) = queue_of d t"
    unfolding db_range_def queue_of_def
    using assms unsequenced_range_iff [OF _ assms(2,3)] by (intro filter_cong) (simp_all add: db_inv_def)
  ultimately show ?thesis
    using assms(4) by (simp add: Unsequenced_def iter_pairs_def iter_Error_def split: option.splits)
qed

text \<open>
  \<open>Unsequenced\<close> returns the length of the tree's queue, for the rows of all other kinds and trees lie
  outside its range; but when the iterator fails it reports an empty queue and no error.
\<close>

theorem Unsequenced_counts_queue:
  assumes "db_inv d" "valid_tree t" "valid_tree (t + 1)" "snapErr io = None"
  shows "Unsequenced io d t = Inr (if iterErr io = None then int (length (queue_of d t)) else 0)"
  using assms by (rule Unsequenced_queue)

theorem Unsequenced_counts_queue_witness:
  "Unsequenced (no_faults\<lparr>iterErr := Some (0, External ''io'')\<rparr>) [(keyB typ_l 3 (rowkeyLeaf 5 (Some [1, 2, 3, 4])), [])] 3 = Inr 0"
proof -
  have "key_ok (row_key 3 (QueueRow 5 [1, 2, 3, 4]))"
    by (rule key_okI) (simp_all add: valid_tree_def int63_def)
  then have "db_inv [(keyB typ_l 3 (rowkeyLeaf 5 (Some [1, 2, 3, 4])), [])]"
    by (simp add: db_inv_def db_wf_def)
  then show ?thesis
    using Unsequenced_counts_queue [of _ 3 "no_faults\<lparr>iterErr := Some (0, External ''io'')\<rparr>"]
    by (simp add: valid_tree_def)
qed

section \<open>Dequeuing\<close>

lemma DequeueLeaves_loop_ok:
  assumes "batch ltx = Some ops" "mapM (unmarshalLeaf cd) (map snd (take (nat limit - length ls) es)) = Inr ls'"
  shows "DequeueLeaves_loop cd limit None es ltx ls =
    (ltx\<lparr>batch := Some (ops @ map (BatchDelete \<circ> fst) (take (nat limit - length ls) es))\<rparr>, Inr (ls @ ls'))"
  using assms
proof (induction es arbitrary: ltx ops ls ls')
  case Nil
  then show ?case by auto
next
  case (Cons e es)
  obtain k v where e: "e = (k, v)" by (cases e)
  show ?case
  proof (cases "limit \<le> int (length ls)")
    case True
    then have "nat limit - length ls = 0" by simp
    with Cons.prems True e show ?thesis by simp
  next
    case False
    then obtain n where n: "nat limit - length ls = Suc n" "nat limit - Suc (length ls) = n"
      by (metis Suc_diff_Suc Suc_diff_le diff_Suc_Suc nat_le_iff not_le zero_less_diff Suc_leI less_nat_zero_code not_less0)
    obtain leaf ls'' where leaf: "unmarshalLeaf cd v = Inr leaf" "ls' = leaf # ls''"
        "mapM (unmarshalLeaf cd) (map snd (take n es)) = Inr ls''"
      using Cons.prems(2) n(1) e by (auto split: sum.splits)
    show ?thesis
      using Cons.prems(1) False leaf e n
        Cons.IH [of "ltx\<lparr>batch := Some (ops @ [BatchDelete k])\<rparr>" "ops @ [BatchDelete k]" "ls @ [leaf]" ls'']
      by simp
  qed
qed

text \<open>A dequeue that succeeds has not met the failure of its iterator, if there was one.\<close>

lemma DequeueLeaves_loop_cut:
  "DequeueLeaves_loop cd limit (Some e) (take n es) ltx ls = (ltx', Inr q) \<Longrightarrow> DequeueLeaves_loop cd limit None es ltx ls = (ltx', Inr q)"
proof (induction es arbitrary: n ltx ls)
  case (Cons x es)
  then obtain m where "n = Suc m" by (cases n) auto
  with Cons show ?case by (cases x) (auto split: if_splits sum.splits)
qed simp

lemma LocalTx_DequeueLeaves_success:
  assumes "LocalTx_DequeueLeaves cd io d ltx t seq cutoff limit = (ltx', Inr leaves)"
  shows "LocalTx_DequeueLeaves cd no_faults d ltx t seq cutoff limit = (ltx', Inr leaves)"
  using assms by (auto simp: LocalTx_DequeueLeaves_def iter_pairs_def iter_Error_def DequeueLeaves_loop_cut split: option.splits)

lemma db_write_deletes: "db_write d (map BatchDelete ks) = filter (\<lambda>e. fst e \<notin> set ks) d"
  unfolding db_write_def
  by (induction ks arbitrary: d) (auto simp: db_delete_def intro: filter_cong)

lemma queue_upto_sorted:
  assumes "db_inv d" "valid_tree t"
  shows "sorted (map (\<lambda>e. the (queue_time t (fst e))) (queue_upto d t c))"
proof -
  have wf: "sorted_wrt (<) (map fst (queue_upto d t c))"
    using assms(1) unfolding db_inv_def db_wf_def queue_upto_def by (simp add: sorted_wrt_map sorted_wrt_filter)
  have "the (queue_time t (fst a)) \<le> the (queue_time t (fst b))"
    if ab: "a \<in> set (queue_upto d t c)" "b \<in> set (queue_upto d t c)" "fst a < fst b" for a b
  proof -
    have "\<exists>ts r. int63 ts \<and> fst e = keyB typ_l t (rowkeyLeaf ts (Some r)) \<and> queue_time t (fst e) = Some ts"
      if "e \<in> set (queue_upto d t c)" for e
    proof -
      have "key_ok (fst e)" using that assms(1) by (simp add: queue_upto_def db_inv_def)
      moreover have "\<exists>ts. queue_time t (fst e) = Some ts"
        using that by (auto simp: queue_upto_def split: option.splits)
      ultimately show ?thesis using queue_time_iff [OF _ assms(2)] by metis
    qed
    then obtain ts r ts' r' where "int63 ts" "fst a = keyB typ_l t (rowkeyLeaf ts (Some r))" "queue_time t (fst a) = Some ts"
        "int63 ts'" "fst b = keyB typ_l t (rowkeyLeaf ts' (Some r'))" "queue_time t (fst b) = Some ts'"
      using ab(1,2) by metis
    with \<open>fst a < fst b\<close> rowkeyLeaf_order [of ts' ts r' r] show ?thesis
      by (cases "ts' < ts") auto
  qed
  with wf show ?thesis
    by (auto simp: sorted_map sorted_wrt_map intro: sorted_wrt_mono_rel [rotated])
qed

lemma filter_not_taken:
  assumes "distinct (map fst xs)"
  shows "filter (\<lambda>e. fst e \<notin> fst ` set (take n xs)) xs = drop n xs"
proof -
  have "fst ` set (take n xs) \<inter> fst ` set (drop n xs) = {}"
    using assms by (metis append_take_drop_id distinct_append list.set_map map_append)
  then have "filter (\<lambda>e. fst e \<notin> fst ` set (take n xs)) (drop n xs) = drop n xs"
    by (auto simp: filter_id_conv)
  moreover have "filter (\<lambda>e. fst e \<notin> fst ` set (take n xs)) (take n xs) = []"
    by (simp add: filter_empty_conv)
  ultimately show ?thesis by (metis append_Nil append_take_drop_id filter_append)
qed

lemma queue_upto_delete_keys: "queue_upto (db_write d (map BatchDelete ks)) t c = filter (\<lambda>e. fst e \<notin> set ks) (queue_upto d t c)"
  unfolding db_write_deletes by (simp add: queue_upto_def filter_filter conj_commute)

text \<open>Deleting the first rows of the queue.\<close>

lemma queue_upto_deletes:
  assumes "db_wf d"
  shows "queue_upto (db_write d (map BatchDelete (map fst (take n (queue_upto d t c))))) t c = drop n (queue_upto d t c)"
proof -
  let ?Q = "queue_upto d t c"
  have "distinct (map fst d)" using assms by (simp add: db_wf_def strict_sorted_iff)
  then have dist: "distinct (map fst ?Q)" by (simp add: queue_upto_def distinct_map_filter)
  have "queue_upto (db_write d (map BatchDelete (map fst (take n ?Q)))) t c = filter (\<lambda>e. fst e \<notin> fst ` set (take n ?Q)) ?Q"
    by (simp only: queue_upto_delete_keys set_map)
  also have "\<dots> = drop n ?Q" by (rule filter_not_taken [OF dist])
  finally show ?thesis .
qed

text \<open>
  \<open>DequeueLeaves\<close> returns the oldest queued leaves of the tree with a queue time up to the cutoff, at most
  \<open>limit\<close> of them; when its transaction commits, these and no other rows are gone, so that the next dequeue
  continues with the rest.
\<close>

theorem DequeueLeaves_takes_oldest:
  assumes "db_inv d" "valid_tree t" "int63 cutoff"
    and "mapM (unmarshalLeaf cd) (map snd (take (nat limit) (queue_upto d t cutoff))) = Inr leaves"
    and "LocalTx_DequeueLeaves cd no_faults d Local_Begin t seq cutoff limit = (ltx, res)"
    and "LocalTx_Commit no_faults d ltx = (d', ltx', res')"
  shows "res = Inr leaves \<and>
    sorted (map (\<lambda>e. the (queue_time t (fst e))) (queue_upto d t cutoff)) \<and>
    queue_upto d' t cutoff = drop (nat limit) (queue_upto d t cutoff) \<and>
    (\<forall>k. k \<notin> fst ` set (take (nat limit) (queue_upto d t cutoff)) \<longrightarrow> db_get d' k = db_get d k)"
proof -
  let ?Q = "queue_upto d t cutoff"
  have deq: "ltx = \<lparr>batch = Some (map BatchDelete (map fst (take (nat limit) ?Q)))\<rparr>" "res = Inr leaves"
    using assms(5) DequeueLeaves_loop_ok [of Local_Begin "[]" cd limit "[]" ?Q leaves] assms(4)
    by (auto simp: LocalTx_DequeueLeaves_def queue_range [OF assms(1-3)] Local_Begin_def)
  have wr: "d' = db_write d (map BatchDelete (map fst (take (nat limit) ?Q)))"
    using assms(6) unfolding deq(1) by (simp add: LocalTx_Commit_def)
  have rest: "queue_upto d' t cutoff = drop (nat limit) ?Q"
    unfolding wr by (rule queue_upto_deletes [OF db_invD(1) [OF assms(1)]])
  have "db_get d' k = db_get d k" if "k \<notin> fst ` set (take (nat limit) ?Q)" for k
    using that unfolding wr db_get_write [OF db_invD(1) [OF assms(1)]] batch_effect_deletes by auto
  with deq rest queue_upto_sorted [OF assms(1,2)] show ?thesis by blast
qed

lemma sample_queue_inv:
  "db_inv [(keyB typ_l 3 (rowkeyLeaf 5 (Some [1, 2, 3, 4])), [7]), (keyB typ_l 3 (rowkeyLeaf 9 (Some [0, 0, 0, 0])), [8])]"
proof -
  have "key_ok (row_key 3 (QueueRow ts r))" if "int63 ts" "length r = 4" for ts r
    using that by (intro key_okI) (simp_all add: valid_tree_def)
  then show ?thesis by (simp add: db_inv_def db_wf_def rowkeyLeaf_order int63_def)
qed

theorem DequeueLeaves_takes_oldest_witness:
  "snd (LocalTx_DequeueLeaves sample_codec no_faults
      [(keyB typ_l 3 (rowkeyLeaf 5 (Some [1, 2, 3, 4])), [7]), (keyB typ_l 3 (rowkeyLeaf 9 (Some [0, 0, 0, 0])), [8])]
      Local_Begin 3 0 9 1) = Inr [sample_leaf [7]]"
proof -
  let ?d = "[(keyB typ_l 3 (rowkeyLeaf 5 (Some [1, 2, 3, 4])), [7]), (keyB typ_l 3 (rowkeyLeaf 9 (Some [0, 0, 0, 0])), [8])] :: db"
  obtain ltx res where deq: "LocalTx_DequeueLeaves sample_codec no_faults ?d Local_Begin 3 0 9 1 = (ltx, res)"
    by (rule prod.exhaust)
  obtain d' ltx' res' where com: "LocalTx_Commit no_faults ?d ltx = (d', ltx', res')"
    by (rule prod_cases3)
  have "queue_upto ?d 3 9 = ?d" by (simp add: queue_upto_def queue_time_row int63_def)
  then have "mapM (unmarshalLeaf sample_codec) (map snd (take (nat 1) (queue_upto ?d 3 9))) = Inr [sample_leaf [7]]"
    by (simp add: sample_codec_def)
  then show ?thesis
    using DequeueLeaves_takes_oldest [OF sample_queue_inv _ _ _ deq com] deq by (simp add: valid_tree_def int63_def)
qed

section \<open>Queueing\<close>

text \<open>The rows a call of \<open>QueueLeaves\<close> writes.\<close>

definition queue_rows :: "int \<Rightarrow> int \<Rightarrow> bytes list \<Rightarrow> bytes list \<Rightarrow> (bytes \<times> bytes) list" where
  "queue_rows t ts noise raws = zip (map (\<lambda>r. keyB typ_l t (rowkeyLeaf ts (Some r))) noise) raws"

lemma QueueLeaves_loop_ok:
  assumes "mapM (marshalLeaf cd) leaves = Inr raws" "length noise = length leaves"
    "\<forall>i < length leaves. rnd (length ops + i) = Some (noise ! i)"
  shows "QueueLeaves_loop cd rnd t ts leaves ops =
    Inr (ops @ map (\<lambda>(k, v). BatchPut k v) (queue_rows t ts noise raws))"
  using assms
proof (induction leaves arbitrary: raws noise ops)
  case Nil
  then show ?case by (simp add: queue_rows_def)
next
  case (Cons leaf leaves)
  obtain r noise' where noise: "noise = r # noise'" using Cons.prems(2) by (cases noise) auto
  obtain raw raws' where raw: "raws = raw # raws'" "marshalLeaf cd leaf = Inr raw" "mapM (marshalLeaf cd) leaves = Inr raws'"
    using Cons.prems(1) by (auto split: sum.splits)
  have "rnd (length ops) = Some r" using Cons.prems(3) noise by force
  moreover have "\<forall>i < length leaves. rnd (Suc (length ops + i)) = Some (noise' ! i)"
    using Cons.prems(3) noise by force
  ultimately show ?case
    using Cons.IH [of raws' noise' "ops @ [BatchPut (keyB typ_l t (rowkeyLeaf ts (Some r))) raw]"] Cons.prems(2) raw noise
    by (simp add: rowkeyLeaf_noise_def queue_rows_def)
qed

lemma mset_db_put_fresh: "k \<notin> fst ` set d \<Longrightarrow> mset (db_put d k v) = add_mset (k, v) (mset d)"
  by (induction d k v rule: db_put.induct) auto

lemma mset_db_write_fresh:
  assumes "distinct (map fst kvs)" "fst ` set kvs \<inter> fst ` set d = {}"
  shows "mset (db_write d (map (\<lambda>(k, v). BatchPut k v) kvs)) = mset d + mset kvs"
  using assms
proof (induction kvs arbitrary: d)
  case Nil
  then show ?case by (simp add: db_write_def)
next
  case (Cons kv kvs)
  obtain k v where kv: "kv = (k, v)" by (cases kv)
  have "fst ` set kvs \<inter> fst ` set (db_put d k v) = {}"
    using Cons.prems kv by (auto simp: set_db_put_keys)
  with Cons kv show ?case by (simp add: db_write_def mset_db_put_fresh)
qed

text \<open>A row with an unused key joins the queue of its tree and no other.\<close>

lemma queue_time_other: "valid_tree t \<Longrightarrow> valid_tree u \<Longrightarrow> u \<noteq> t \<Longrightarrow> queue_time u (keyB typ_l t z) = None"
  using queue_time_Some_keyB [of u "keyB typ_l t z"] by (cases "queue_time u (keyB typ_l t z)") (auto simp: keyB_eq_iff)

lemma queue_of_put_fresh:
  assumes "valid_tree t" "valid_tree u" "int63 ts" "length r = 4" "db_get d (keyB typ_l t (rowkeyLeaf ts (Some r))) = None"
  shows "mset (map snd (queue_of (db_put d (keyB typ_l t (rowkeyLeaf ts (Some r))) v) u)) =
    (if u = t then {#v#} else {#}) + mset (map snd (queue_of d u))"
proof -
  let ?k = "keyB typ_l t (rowkeyLeaf ts (Some r))"
  have "?k \<notin> fst ` set d" using assms(5) by (auto simp: db_get_def map_of_eq_None_iff)
  then have "mset (db_put d ?k v) = add_mset (?k, v) (mset d)" by (rule mset_db_put_fresh)
  moreover have "queue_time u ?k \<noteq> None \<longleftrightarrow> u = t"
    using assms(1-4) queue_time_other by (cases "u = t") (simp_all add: queue_time_row)
  ultimately show ?thesis by (simp add: queue_of_def)
qed

lemma db_put_present_keys: "db_wf d \<Longrightarrow> k \<in> fst ` set d \<Longrightarrow> map fst (db_put d k v) = map fst d"
proof (induction d k v rule: db_put.induct)
  case (1 k v)
  then show ?case by simp
next
  case (2 k' v' d k v)
  then show ?case by (auto simp: db_wf_def)
qed

text \<open>
  When the noise of a call's rows is distinct and unused, \<open>QueueLeaves\<close> adds exactly its leaves to the
  tree's queue and nothing to another tree's.
\<close>

theorem QueueLeaves_adds_leaves:
  assumes "db_inv d" "valid_tree t" "int63 ts"
    and "mapM (marshalLeaf cd) leaves = Inr raws"
    and "length noise = length leaves" "\<forall>i < length leaves. rnd i = Some (noise ! i)"
    and "\<forall>r \<in> set noise. length r = 4 \<and> db_get d (keyB typ_l t (rowkeyLeaf ts (Some r))) = None" "distinct noise"
    and "Local_QueueLeaves cd no_faults rnd d t ts leaves = (d', res)"
  shows "res = Inr () \<and> mset (map snd (queue_of d' t)) = mset (map snd (queue_of d t)) + mset raws \<and>
    (\<forall>u. valid_tree u \<and> u \<noteq> t \<longrightarrow> mset (queue_of d' u) = mset (queue_of d u))"
proof -
  let ?rows = "queue_rows t ts noise raws"
  have len: "length raws = length noise" using mapM_length [OF assms(4)] assms(5) by simp
  have q: "d' = db_write d (map (\<lambda>(k, v). BatchPut k v) ?rows)" "res = Inr ()"
    using assms(9) QueueLeaves_loop_ok [OF assms(4,5), of rnd "[]" t ts] assms(6) by (auto simp: Local_QueueLeaves_def)
  have keys: "map fst ?rows = map (\<lambda>r. keyB typ_l t (rowkeyLeaf ts (Some r))) noise" using len by (simp add: queue_rows_def)
  then have "distinct (map fst ?rows)" using assms(8) by (simp add: distinct_map inj_on_def rowkeyLeaf_eq)
  moreover have "fst ` set ?rows \<inter> fst ` set d = {}"
  proof -
    have "fst ` set ?rows = (\<lambda>r. keyB typ_l t (rowkeyLeaf ts (Some r))) ` set noise" using keys by (metis list.set_map)
    then show ?thesis using assms(7) by (auto simp: db_get_def map_of_eq_None_iff)
  qed
  ultimately have ms: "mset d' = mset d + mset ?rows" unfolding q(1) by (rule mset_db_write_fresh)
  have rows: "\<exists>r \<in> set noise. fst e = keyB typ_l t (rowkeyLeaf ts (Some r))" if "e \<in> set ?rows" for e
  proof -
    have "fst e \<in> set (map fst ?rows)" using that by simp
    then show ?thesis unfolding keys by auto
  qed
  have own: "filter_mset (\<lambda>e. queue_time t (fst e) \<noteq> None) (mset ?rows) = mset ?rows"
    using rows assms(3,7) by (fastforce simp: filter_mset_eq_conv queue_time_row)
  have other: "filter_mset (\<lambda>e. queue_time u (fst e) \<noteq> None) (mset ?rows) = {#}" if "valid_tree u" "u \<noteq> t" for u
    using that rows queue_time_other [OF assms(2)] by (fastforce simp: filter_mset_eq_conv)
  have "mset (queue_of d' u) = mset (queue_of d u) + filter_mset (\<lambda>e. queue_time u (fst e) \<noteq> None) (mset ?rows)" for u
    using ms by (simp add: queue_of_def)
  moreover have "image_mset snd (mset ?rows) = mset raws" using len by (simp add: queue_rows_def flip: mset_map)
  ultimately show ?thesis using own other q(2) by simp
qed

text \<open>
  When a row with the same time and noise is already queued, \<open>QueueLeaves\<close> succeeds all the same, but the new
  leaf takes the place of the queued one: the queue does not grow and the earlier leaf is lost.
\<close>

theorem QueueLeaves_collision_replaces_leaf:
  assumes "db_inv d" "valid_tree t" "int63 ts" "length r = 4"
    and "db_get d (keyB typ_l t (rowkeyLeaf ts (Some r))) = Some old"
    and "marshalLeaf cd leaf = Inr raw" "rnd 0 = Some r"
    and "Local_QueueLeaves cd no_faults rnd d t ts [leaf] = (d', res)"
  shows "res = Inr () \<and> map fst (queue_of d' t) = map fst (queue_of d t) \<and>
    db_get d' (keyB typ_l t (rowkeyLeaf ts (Some r))) = Some raw"
proof -
  let ?k = "keyB typ_l t (rowkeyLeaf ts (Some r))"
  have wf: "db_wf d" using assms(1) by (rule db_invD)
  have d': "d' = db_put d ?k raw" "res = Inr ()"
    using assms(6-8) by (auto simp: Local_QueueLeaves_def rowkeyLeaf_noise_def db_write_def)
  have "?k \<in> fst ` set d" using assms(5) by (force simp: db_get_def dest: map_of_SomeD)
  then have "map fst d' = map fst d" using wf d' by (simp add: db_put_present_keys)
  then have "filter (\<lambda>k. queue_time t k \<noteq> None) (map fst d') = filter (\<lambda>k. queue_time t k \<noteq> None) (map fst d)" by simp
  then have "map fst (queue_of d' t) = map fst (queue_of d t)"
    by (simp add: queue_of_def filter_map comp_def)
  with d' wf show ?thesis by (simp add: db_get_put)
qed

theorem QueueLeaves_adds_leaves_witness:
  "let (d', res) = Local_QueueLeaves sample_codec no_faults (\<lambda>i. Some [word_of_nat i, 0, 0, 0]) [] 3 5 [sample_leaf [7], sample_leaf [8]]
   in res = Inr () \<and> mset (map snd (queue_of d' 3)) = {#[7], [8]#}"
  using QueueLeaves_adds_leaves [of "[]" 3 5 sample_codec "[sample_leaf [7], sample_leaf [8]]" "[[7], [8]]"
      "[[0, 0, 0, 0], [1, 0, 0, 0]]" "\<lambda>i. Some [word_of_nat i, 0, 0, 0]"]
  by (auto simp: db_inv_Nil valid_tree_def int63_def sample_codec_def sample_leaf_def db_get_def queue_of_def
      less_Suc_eq nth_Cons split: prod.splits nat.splits)

theorem QueueLeaves_collision_replaces_leaf_witness:
  "let (d', res) = Local_QueueLeaves sample_codec no_faults (\<lambda>_. Some [1, 2, 3, 4])
         [(keyB typ_l 3 (rowkeyLeaf 5 (Some [1, 2, 3, 4])), [7]), (keyB typ_l 3 (rowkeyLeaf 9 (Some [0, 0, 0, 0])), [8])]
         3 5 [sample_leaf [9]]
   in res = Inr () \<and> length (queue_of d' 3) = 2 \<and> db_get d' (keyB typ_l 3 (rowkeyLeaf 5 (Some [1, 2, 3, 4]))) = Some [9]"
proof -
  let ?d = "[(keyB typ_l 3 (rowkeyLeaf 5 (Some [1, 2, 3, 4])), [7]), (keyB typ_l 3 (rowkeyLeaf 9 (Some [0, 0, 0, 0])), [8])] :: db"
  obtain d' res where q: "Local_QueueLeaves sample_codec no_faults (\<lambda>_. Some [1, 2, 3, 4]) ?d 3 5 [sample_leaf [9]] = (d', res)"
    by (rule prod.exhaust)
  have "res = Inr () \<and> map fst (queue_of d' 3) = map fst (queue_of ?d 3) \<and>
      db_get d' (keyB typ_l 3 (rowkeyLeaf 5 (Some [1, 2, 3, 4]))) = Some [9]"
    by (rule QueueLeaves_collision_replaces_leaf [OF sample_queue_inv _ _ _ _ _ _ q, where old = "[7]"])
       (simp_all add: valid_tree_def int63_def db_get_def sample_codec_def sample_leaf_def)
  moreover have "length (queue_of ?d 3) = 2" by (simp add: queue_of_def queue_time_row int63_def)
  ultimately show ?thesis by (simp add: q) (metis length_map)
qed

end
