(* ===== verification/LocalIndex.thy ===== *)
theory LocalIndex
  imports Local
begin

text \<open>
  The hash indices and the root of the local database: what a committed transaction wrote is what
  lookups return, in one tree and without effect on another.
\<close>

section \<open>The index entries of a transaction\<close>

fun index_ops :: "int \<Rightarrow> bytes list \<Rightarrow> bytes list \<Rightarrow> bytes list \<Rightarrow> batch_op list" where
  "index_ops t (raw # raws) (m # ms) (h # hs) =
     BatchPut (keyB typ_m t m) raw # BatchPut (keyB typ_i t h) raw # index_ops t raws ms hs"
| "index_ops t _ _ _ = []"

lemma PutLeaves_loop_ok:
  assumes "batch ltx = Some ops" "mapM (PutVarint 8) seqs = Inr raws"
    "length seqs = length ms" "length seqs = length hs"
  shows "PutLeaves_loop t seqs ms hs ltx = (ltx\<lparr>batch := Some (ops @ index_ops t raws ms hs)\<rparr>, Inr ())"
  using assms
proof (induction seqs arbitrary: raws ms hs ltx ops)
  case Nil
  then show ?case by auto
next
  case (Cons seq seqs)
  obtain m ms' h hs' where mh: "ms = m # ms'" "hs = h # hs'"
    using Cons.prems(3,4) by (cases ms; cases hs) auto
  obtain raw raws' where raw: "raws = raw # raws'" "PutVarint 8 seq = Inr raw" "mapM (PutVarint 8) seqs = Inr raws'"
    using Cons.prems(2) by (auto split: sum.splits)
  show ?case
    using Cons.prems raw mh
      Cons.IH [of "ltx\<lparr>batch := Some (ops @ [BatchPut (keyB typ_m t m) raw] @ [BatchPut (keyB typ_i t h) raw])\<rparr>" _ raws' ms' hs']
    by simp
qed

lemma PutLeaves_loop_error:
  assumes "batch ltx = Some ops" "mapM (PutVarint 8) seqs = Inl e"
    "length seqs = length ms" "length seqs = length hs"
  shows "snd (PutLeaves_loop t seqs ms hs ltx) = Inl e"
  using assms
proof (induction seqs arbitrary: ms hs ltx ops)
  case Nil
  then show ?case by simp
next
  case (Cons seq seqs)
  obtain m ms' h hs' where mh: "ms = m # ms'" "hs = h # hs'"
    using Cons.prems(3,4) by (cases ms; cases hs) auto
  with Cons show ?case by (auto split: sum.splits)
qed

lemma PutVarint_panic: "PutVarint n x = Inl e \<Longrightarrow> e = Panic ''index out of range''"
  by (auto simp: PutVarint_def Let_def split: if_splits)

text \<open>
  \<open>PutLeaves\<close> encodes sequence numbers into eight-byte buffers. It succeeds exactly when all of them are in
  the range [-2^55, 2^55), and panics otherwise, although a sequence number is an \<open>int64\<close>.
\<close>

theorem PutLeaves_panics_iff:
  assumes "\<forall>s \<in> set seqs. in_int64 s" "length seqs = length ms" "length seqs = length hs"
  shows "snd (LocalTx_PutLeaves Local_Begin t seqs ms hs) =
    (if \<forall>s \<in> set seqs. - (2 ^ 55) \<le> s \<and> s < 2 ^ 55 then Inr () else Inl (Panic ''index out of range''))"
proof (cases "mapM (PutVarint 8) seqs")
  case (Inl e)
  then obtain s where s: "s \<in> set seqs" "PutVarint 8 s = Inl e" using mapM_Inl_D by blast
  then have "\<not> (- (2 ^ 55) \<le> s \<and> s < 2 ^ 55)" using PutVarint_8 [of s] assms(1) by auto
  moreover have "snd (LocalTx_PutLeaves Local_Begin t seqs ms hs) = Inl e"
    using assms PutLeaves_loop_error [OF _ Inl, of Local_Begin "[]" ms hs]
    by (simp add: LocalTx_PutLeaves_def Local_Begin_def)
  ultimately show ?thesis using s PutVarint_panic by (auto simp del: not_less not_le)
next
  case (Inr raws)
  then have "\<forall>s \<in> set seqs. \<exists>raw. PutVarint 8 s = Inr raw"
    using mapM_Inr_D [OF Inr] by simp
  then have "\<forall>s \<in> set seqs. - (2 ^ 55) \<le> s \<and> s < 2 ^ 55" using assms(1) PutVarint_8 by simp
  moreover have "snd (LocalTx_PutLeaves Local_Begin t seqs ms hs) = Inr ()"
    using assms PutLeaves_loop_ok [OF _ Inr, of Local_Begin "[]" ms hs]
    by (simp add: LocalTx_PutLeaves_def Local_Begin_def)
  ultimately show ?thesis by auto
qed

theorem PutLeaves_panics_iff_witness:
  "snd (LocalTx_PutLeaves Local_Begin 1 [2 ^ 55] [[1]] [[2]]) = Inl (Panic ''index out of range'')"
  using PutLeaves_panics_iff [of "[2 ^ 55]" "[[1]]" "[[2]]" 1] by (simp add: in_int64_def)

section \<open>Lookups\<close>

text \<open>One lookup: minus one for a missing entry.\<close>

definition index_at :: "db \<Rightarrow> byte \<Rightarrow> int \<Rightarrow> bytes \<Rightarrow> int result" where
  "index_at d typ t h = (case db_get d (keyB typ t h) of None \<Rightarrow> Inr (- 1) | Some raw \<Rightarrow> decode_index raw)"

lemma getSequenceBy_loop_mapM:
  "getSequenceBy_loop no_faults d typ t hs out =
    (case mapM (index_at d typ t) hs of Inl e \<Rightarrow> Inl e | Inr l \<Rightarrow> Inr (out @ l))"
proof (induction hs arbitrary: out)
  case Nil
  then show ?case by simp
next
  case (Cons h hs)
  then show ?case
    by (auto simp: snap_Get_def index_at_def decode_index_def split_beta Let_def split: option.splits sum.splits)
qed

lemma getSequenceBy_mapM: "getSequenceBy no_faults d typ t hs = mapM (index_at d typ t) hs"
  by (simp add: getSequenceBy_def getSequenceBy_loop_mapM split: sum.splits)

lemma getSequenceBy_single: "getSequenceBy no_faults d ty t [h] = map_sum id (\<lambda>s. [s]) (index_at d ty t h)"
  by (simp add: getSequenceBy_mapM split: sum.splits)

lemma batch_effect_index:
  assumes "length raws = length ms" "length raws = length hs" "valid_tree t" "valid_tree u"
  shows "batch_effect (index_ops t raws ms hs) (keyB typ_m u k) =
      (if u = t then map_option Some (map_of (rev (zip ms raws)) k) else None)"
    "batch_effect (index_ops t raws ms hs) (keyB typ_i u k) =
      (if u = t then map_option Some (map_of (rev (zip hs raws)) k) else None)"
  using assms
proof (induction t raws ms hs rule: index_ops.induct)
  case (1 t raw raws m ms h hs)
  {
    case 1
    with "1.IH" show ?case by (auto simp: keyB_eq_iff map_add_def split: option.splits)
  next
    case 2
    with "1.IH" show ?case by (auto simp: keyB_eq_iff map_add_def split: option.splits)
  }
qed (auto)

lemma map_of_rev_zip_map:
  "length ks = length xs \<Longrightarrow> map_of (rev (zip ks (map f xs))) k = map_option f (map_of (rev (zip ks xs)) k)"
proof (induction ks xs rule: list_induct2)
  case Nil
  then show ?case by simp
next
  case (Cons k' ks x xs)
  then show ?case by (auto simp: map_add_def split: option.splits)
qed

text \<open>The decoded entries of a batch are the sequence numbers that went into it.\<close>

lemma decode_batch:
  assumes "list_all in_int64 seqs" "mapM (PutVarint 8) seqs = Inr raws" "length seqs = length ks"
  shows "(case map_option Some (map_of (rev (zip ks raws)) k) of
            None \<Rightarrow> z | Some None \<Rightarrow> Inr (- 1) | Some (Some raw) \<Rightarrow> decode_index raw) =
         (case map_of (rev (zip ks seqs)) k of None \<Rightarrow> z | Some s \<Rightarrow> Inr s)"
proof -
  have "mapM decode_index raws = Inr seqs" by (rule idx.decode_encode_list [OF assms(1,2)])
  then have "map Inr seqs = map decode_index raws"
    by (auto simp: mapM_Inr_iff list_all2_conv_all_nth intro!: nth_equalityI)
  then have "map_of (rev (zip ks (map Inr seqs))) k = map_of (rev (zip ks (map decode_index raws))) k" by simp
  then have "map_option Inr (map_of (rev (zip ks seqs)) k) = map_option decode_index (map_of (rev (zip ks raws)) k)"
    using assms(3) mapM_length [OF assms(2)] by (simp add: map_of_rev_zip_map)
  then show ?thesis by (auto split: option.splits)
qed

lemma index_at_write:
  assumes "list_all in_int64 seqs" "mapM (PutVarint 8) seqs = Inr raws" "db_wf d" "valid_tree t" "valid_tree u"
    "length seqs = length ms" "length seqs = length hs"
  shows "index_at (db_write d (index_ops t raws ms hs)) typ_m u k =
      (case if u = t then map_of (rev (zip ms seqs)) k else None of None \<Rightarrow> index_at d typ_m u k | Some s \<Rightarrow> Inr s)"
    "index_at (db_write d (index_ops t raws ms hs)) typ_i u k =
      (case if u = t then map_of (rev (zip hs seqs)) k else None of None \<Rightarrow> index_at d typ_i u k | Some s \<Rightarrow> Inr s)"
proof -
  have len: "length raws = length ms" "length raws = length hs" using mapM_length [OF assms(2)] assms(6,7) by auto
  note eff = batch_effect_index [OF len assms(4,5), of k]
  show "index_at (db_write d (index_ops t raws ms hs)) typ_m u k =
      (case if u = t then map_of (rev (zip ms seqs)) k else None of None \<Rightarrow> index_at d typ_m u k | Some s \<Rightarrow> Inr s)"
    using decode_batch [OF assms(1,2,6), where k = k and z = "index_at d typ_m u k"] assms(3)
    by (auto simp: index_at_def db_get_write eff split: option.splits)
  show "index_at (db_write d (index_ops t raws ms hs)) typ_i u k =
      (case if u = t then map_of (rev (zip hs seqs)) k else None of None \<Rightarrow> index_at d typ_i u k | Some s \<Rightarrow> Inr s)"
    using decode_batch [OF assms(1,2,7), where k = k and z = "index_at d typ_i u k"] assms(3)
    by (auto simp: index_at_def db_get_write eff split: option.splits)
qed

lemma mapM_PutVarint_ok:
  assumes "\<forall>s \<in> set seqs. - (2 ^ 55) \<le> s \<and> s < 2 ^ 55"
  obtains raws where "mapM (PutVarint 8) seqs = Inr raws" "list_all in_int64 seqs"
proof -
  have in64: "list_all in_int64 seqs" using assms by (fastforce simp: list_all_iff in_int64_def)
  show thesis
  proof (cases "mapM (PutVarint 8) seqs")
    case (Inl e)
    then obtain s where "s \<in> set seqs" "PutVarint 8 s = Inl e" using mapM_Inl_D by blast
    then show thesis using PutVarint_8 [of s] assms in64 by (auto simp: list_all_iff)
  next
    case (Inr raws)
    with in64 that show thesis by simp
  qed
qed

text \<open>Looking up all the indexed hashes of a transaction.\<close>

lemma mapM_index_own:
  assumes "length seqs = length ks" "distinct ks"
    "\<And>k. index_at d' ty t k = (case map_of (rev (zip ks seqs)) k of None \<Rightarrow> index_at d ty t k | Some s \<Rightarrow> Inr s)"
  shows "mapM (index_at d' ty t) ks = Inr seqs"
proof -
  have "map_of (rev (zip ks seqs)) (ks ! i) = Some (seqs ! i)" if "i < length ks" for i
    using that assms(1,2)
    by (subst map_of_eq_Some_iff) (auto simp: rev_map [symmetric] in_set_zip intro!: exI [of _ i])
  then show ?thesis using assms by (auto simp: mapM_Inr_iff list_all2_conv_all_nth)
qed

text \<open>
  C14. After a transaction has indexed leaves and committed, a lookup by Merkle hash or by identity hash in
  any tree gives the sequence number stored for that hash last: in this transaction if the tree and
  the hash are among the indexed ones, else whatever the lookup gave before.
\<close>

theorem PutLeaves_then_GetSequence:
  assumes "db_wf d" "valid_tree t" "valid_tree u"
    and "length seqs = length ms" "length seqs = length hs" "\<forall>s \<in> set seqs. - (2 ^ 55) \<le> s \<and> s < 2 ^ 55"
    and "LocalTx_PutLeaves Local_Begin t seqs ms hs = (ltx, res)"
    and "LocalTx_Commit no_faults d ltx = (d', ltx', res')"
  shows "getSequenceBy no_faults d' typ_m u [k] =
      (case if u = t then map_of (rev (zip ms seqs)) k else None of
         Some s \<Rightarrow> Inr [s] | None \<Rightarrow> getSequenceBy no_faults d typ_m u [k]) \<and>
    getSequenceBy no_faults d' typ_i u [k] =
      (case if u = t then map_of (rev (zip hs seqs)) k else None of
         Some s \<Rightarrow> Inr [s] | None \<Rightarrow> getSequenceBy no_faults d typ_i u [k]) \<and>
    (distinct ms \<longrightarrow> GetSequenceByMerkleHash no_faults d' t ms = Inr seqs) \<and>
    (distinct hs \<longrightarrow> GetSequenceByIdentityHash no_faults d' t hs = Inr seqs)"
proof -
  obtain raws where raws: "mapM (PutVarint 8) seqs = Inr raws" "list_all in_int64 seqs"
    using mapM_PutVarint_ok [OF assms(6)] .
  have "ltx = \<lparr>batch = Some (index_ops t raws ms hs)\<rparr>"
    using assms(4,5,7) PutLeaves_loop_ok [OF _ raws(1) assms(4,5), of Local_Begin "[]" t]
    by (simp add: LocalTx_PutLeaves_def Local_Begin_def)
  then have d': "d' = db_write d (index_ops t raws ms hs)"
    using assms(8) by (simp add: LocalTx_Commit_def)
  note at = index_at_write [OF raws(2,1) assms(1,2) _ assms(4,5), folded d']
  show ?thesis
    using at(1,2) [OF assms(3)] at(1,2) [OF assms(2)] mapM_index_own [of seqs ms d' typ_m t d] mapM_index_own [of seqs hs d' typ_i t d] assms(4,5)
    by (simp only: getSequenceBy_single, auto simp: GetSequenceByMerkleHash_def GetSequenceByIdentityHash_def
          getSequenceBy_mapM split: option.splits)
qed

theorem PutLeaves_then_GetSequence_witness:
  "let (ltx, _) = LocalTx_PutLeaves Local_Begin 3 [7, 8] [[1], [2]] [[5], [5]];
       (d', _, _) = LocalTx_Commit no_faults [] ltx
   in getSequenceBy no_faults d' typ_i 3 [[5]] = Inr [8] \<and> getSequenceBy no_faults d' typ_m 3 [[9]] = Inr [- 1]"
proof -
  obtain ltx res where put: "LocalTx_PutLeaves Local_Begin 3 [7, 8] [[1], [2]] [[5], [5]] = (ltx, res)"
    by (rule prod.exhaust)
  obtain d' ltx' res' where com: "LocalTx_Commit no_faults [] ltx = (d', ltx', res')"
    by (rule prod_cases3)
  have old: "getSequenceBy no_faults [] typ_m 3 [[9]] = Inr [- 1]"
    by (simp add: getSequenceBy_single index_at_def db_get_def)
  show ?thesis
    using PutLeaves_then_GetSequence [OF _ _ _ _ _ _ put com, of 3 "[5]"] old
      PutLeaves_then_GetSequence [OF _ _ _ _ _ _ put com, of 3 "[9]"]
    by (simp add: put com valid_tree_def)
qed

section \<open>The root\<close>

text \<open>
  After a transaction has stored a signed root and its frontier and committed, \<open>MostRecentRoot\<close> returns
  that root, its fields read from the stored log root, and that frontier; the roots of other trees stay.
\<close>

theorem StoreRoot_then_MostRecentRoot:
  assumes "codec_pair (gobEncode cd) (gobDecode cd) valid" "valid front" "gobEncode cd front = Inr raw"
    and "unmarshalLogRoot cd (contents (LogRoot root)) = Inr v1"
    and "db_wf d" "valid_tree t"
    and "LocalTx_StoreRoot cd Local_Begin t root front = (ltx, res)"
    and "LocalTx_Commit no_faults d ltx = (d', ltx', res')"
  shows "res = Inr () \<and> res' = Inr () \<and>
    MostRecentRoot cd no_faults d' t =
      Inr (\<lparr>TimestampNanos = wrap64 (V1_TimestampNanos v1), RootHash = V1_RootHash v1,
            TreeSize = wrap64 (V1_TreeSize v1), TreeRevision = wrap64 (V1_Revision v1),
            KeyHint = Some (serializeKeyHint cd t), LogRoot = Some (contents (LogRoot root)),
            LogRootSignature = Some (contents (LogRootSignature root))\<rparr>, front) \<and>
    (\<forall>u. valid_tree u \<and> u \<noteq> t \<longrightarrow> MostRecentRoot cd no_faults d' u = MostRecentRoot cd no_faults d u)"
proof -
  let ?ops = "[BatchPut (keyB typ_r t (ascii ''root'')) (contents (LogRoot root)),
    BatchPut (keyB typ_r t (ascii ''sig'')) (contents (LogRootSignature root)),
    BatchPut (keyB typ_r t (ascii ''frontier'')) raw]"
  have ltx: "ltx = \<lparr>batch = Some ?ops\<rparr>" "res = Inr ()"
    using assms(3,7) by (auto simp: LocalTx_StoreRoot_def Local_Begin_def batch_add_def keyS_eq_keyB)
  have d': "d' = db_write d ?ops" "res' = Inr ()" using assms(8) by (auto simp: ltx LocalTx_Commit_def)
  have dec: "gobDecode cd raw = Inr front"
    by (rule codec_pair.decode_encode [OF assms(1-3)])
  have "MostRecentRoot cd no_faults d' u = MostRecentRoot cd no_faults d u" if "valid_tree u" "u \<noteq> t" for u
  proof -
    have "snap_Get no_faults d' (keyS typ_r u s) = snap_Get no_faults d (keyS typ_r u s)" for s
      using that assms(5,6) by (simp add: snap_Get_def d' db_get_write keyS_eq_keyB keyB_eq_iff)
    then show ?thesis by (simp only: MostRecentRoot_def)
  qed
  then show ?thesis
    using ltx(2) d'(2) assms(4,5,6) dec
    by (simp add: MostRecentRoot_def snap_Get_def d'(1) db_get_write keyS_eq_keyB ascii_def Let_def)
qed

theorem StoreRoot_then_MostRecentRoot_witness:
  "let (ltx, _) = LocalTx_StoreRoot sample_codec Local_Begin 3 (zero_SignedLogRoot\<lparr>LogRoot := Some [1, 2]\<rparr>) \<lparr>Roots = [Some [4]]\<rparr>;
       (d', _, _) = LocalTx_Commit no_faults [] ltx
   in \<exists>sth. MostRecentRoot sample_codec no_faults d' 3 = Inr (sth, \<lparr>Roots = [Some [4]]\<rparr>) \<and> TreeSize sth = 2"
proof -
  let ?f = "\<lparr>Roots = [Some [4]]\<rparr>"
  have pair: "codec_pair (gobEncode sample_codec) (gobDecode sample_codec) (\<lambda>f. f = ?f)"
    by unfold_locales (auto simp: sample_codec_def)
  show ?thesis
    using StoreRoot_then_MostRecentRoot [OF pair, of ?f "[4]" "zero_SignedLogRoot\<lparr>LogRoot := Some [1, 2]\<rparr>"
        "\<lparr>V1_TreeSize = 2, V1_RootHash = Some [1, 2], V1_TimestampNanos = 0, V1_Revision = 0, V1_Metadata = None\<rparr>" "[]" 3]
    by (auto simp: sample_codec_def valid_tree_def in_int64_def split: prod.splits)
qed

end
