(* ===== verification/Sequencing.thy ===== *)
theory Sequencing
  imports AppendOnly LocalQueue LocalIndex RemoteLog
begin

text \<open>
  From the queue to the log: what a whole sequencing transaction does to the databases. The rows it dequeued leave the
  queue, the hashes of its leaves lead to their sequence numbers, and the remote database holds the leaves at these
  numbers, all in one commit.
\<close>

section \<open>Kinds of rows\<close>

text \<open>An operation on a row of one of the kinds \<open>A\<close> of the tree.\<close>

definition rows :: "byte set \<Rightarrow> int \<Rightarrow> batch_op \<Rightarrow> bool" where
  "rows A t op \<longleftrightarrow> (\<exists>a \<in> A. a < 0x80 \<and> (\<exists>z. batch_key op = keyB a t z))"

lemma rows_effect:
  assumes "list_all (rows A t) ops" "b \<notin> A \<or> t \<noteq> u" "b < 0x80" "valid_tree t" "valid_tree u"
  shows "batch_effect ops (keyB b u x) = None"
  unfolding batch_effect_None_iff
proof
  assume "keyB b u x \<in> batch_key ` set ops"
  then obtain op where "op \<in> set ops" "batch_key op = keyB b u x" by auto
  then obtain a z where "a \<in> A" "a < 0x80" "keyB a t z = keyB b u x" using assms(1) by (auto simp: list_all_iff rows_def)
  then show False using keyB_eq_iff [OF \<open>a < 0x80\<close> assms(3-5), of z x] assms(2) by auto
qed

lemma filter_db_put: "\<forall>v'. \<not> P (k, v') \<Longrightarrow> filter P (db_put d k v) = filter P d"
  by (induction d k v rule: db_put.induct) auto

lemma filter_db_delete: "\<forall>v'. \<not> P (k, v') \<Longrightarrow> filter P (db_delete d k) = filter P d"
  by (auto simp: db_delete_def filter_filter intro!: filter_cong)

lemma filter_db_write:
  assumes "\<forall>op \<in> set ops. \<forall>v. \<not> P (batch_key op, v)"
  shows "filter P (db_write d ops) = filter P d"
  using assms
proof (induction ops arbitrary: d)
  case (Cons op ops)
  then have "filter P (db_apply d op) = filter P d" by (cases op) (simp_all add: filter_db_put filter_db_delete)
  then show ?case using Cons.IH [of "db_apply d op"] Cons.prems by (simp add: db_write_def)
qed (simp add: db_write_def)

lemma queue_untouched:
  assumes "list_all (rows A u) ops" "typ_l \<notin> A \<or> u \<noteq> t" "valid_tree t" "valid_tree u"
  shows "queue_upto (db_write d ops) t c = queue_upto d t c"
  unfolding queue_upto_def
proof (rule filter_db_write, intro ballI allI)
  fix op v assume "op \<in> set ops"
  then obtain a z where key: "a \<in> A" "a < 0x80" "batch_key op = keyB a u z" using assms(1) by (auto simp: list_all_iff rows_def)
  have "queue_time t (keyB a u z) = None"
  proof (rule ccontr)
    assume "queue_time t (keyB a u z) \<noteq> None"
    then obtain z' where "keyB a u z = keyB typ_l t z'" using queue_time_Some_keyB by blast
    then show False using keyB_eq_iff [OF key(2) _ assms(4,3), of typ_l z z'] assms(2) key(1) by auto
  qed
  then show "\<not> (case queue_time t (fst (batch_key op, v)) of Some ts \<Rightarrow> ts \<le> c | None \<Rightarrow> False)" using key(3) by simp
qed

section \<open>What the steps put into the batch\<close>

lemma index_ops_rows: "list_all (rows {typ_m, typ_i} t) (index_ops t raws ms hs)"
  by (induction t raws ms hs rule: index_ops.induct) (auto simp: rows_def)

lemma root_puts_rows: "list_all (rows {typ_r} t) (root_puts t sth raw)"
  by (auto simp: root_puts_def rows_def keyS_eq_keyB)

lemma deletes_rows:
  assumes "\<forall>k \<in> set ks. \<exists>z. k = keyB typ_l t z"
  shows "list_all (rows {typ_l} t) (map BatchDelete ks)"
  using assms by (auto simp: list_all_iff rows_def)

lemma Update_batch:
  assumes "UpdateSequencedLeaves env w lt leaves = (w', lt', Inr ())" "batch (localTx lt) = Some ops"
  obtains raws where "mapM (PutVarint 8) (map LeafIndex leaves) = Inr raws"
    "batch (localTx lt') = Some (ops @ index_ops (treeID lt) raws (map (contents \<circ> MerkleLeafHash) leaves) (map (contents \<circ> LeafIdentityHash) leaves))"
    "w_uploads w' = w_uploads w @ fst (Remote_PutLeaves (e_codec env) (e_http env) (e_b2 env) (e_ord env) (remote lt) (treeID lt) leaves)"
proof -
  let ?lt = "fst (lt_emit lt sUpdateSequencedLeaves)"
  let ?seqs = "map LeafIndex leaves" and ?ms = "map (contents \<circ> MerkleLeafHash) leaves" and ?hs = "map (contents \<circ> LeafIdentityHash) leaves"
  have rem: "remote ?lt = remote lt" by (simp add: lt_emit_def split_beta Let_def)
  have put: "snd (LocalTx_PutLeaves (localTx lt) (treeID lt) ?seqs ?ms ?hs) = Inr ()"
      "localTx lt' = fst (LocalTx_PutLeaves (localTx lt) (treeID lt) ?seqs ?ms ?hs)"
      "w_uploads w' = w_uploads w @ fst (Remote_PutLeaves (e_codec env) (e_http env) (e_b2 env) (e_ord env) (remote lt) (treeID lt) leaves)"
    using assms(1) rem by (auto simp: UpdateSequencedLeaves_def split_beta Let_def split: option.splits sum.splits)
  obtain raws where raws: "mapM (PutVarint 8) ?seqs = Inr raws"
  proof (cases "mapM (PutVarint 8) ?seqs")
    case (Inl e)
    then show ?thesis using put(1) PutLeaves_loop_error [OF assms(2) Inl, of ?ms ?hs "treeID lt"] by (simp add: LocalTx_PutLeaves_def)
  qed
  then show thesis
    using put(2,3) PutLeaves_loop_ok [OF assms(2) raws, of ?ms ?hs "treeID lt"] by (intro that [OF raws]) (simp_all add: LocalTx_PutLeaves_def)
qed

lemma SetMerkleNodes_batch: "SetMerkleNodes sc env w lt nodes = (w', lt', res) \<Longrightarrow> localTx lt' = localTx lt"
  by (auto simp: SetMerkleNodes_def split_beta Let_def split: option.splits)

lemma StoreSignedLogRoot_batch:
  assumes "StoreSignedLogRoot env w lt sth = (w', lt', Inr ())" "batch (localTx lt) = Some ops"
  obtains raw where "batch (localTx lt') = Some (ops @ root_puts (treeID lt) sth raw)" "w' = w"
proof -
  have "localTx lt' = fst (LocalTx_StoreRoot (e_codec env) (localTx lt) (treeID lt) sth (front lt))" "w' = w"
      "snd (LocalTx_StoreRoot (e_codec env) (localTx lt) (treeID lt) sth (front lt)) = Inr ()"
    using assms(1) by (auto simp: StoreSignedLogRoot_def split_beta Let_def split: option.splits if_splits)
  moreover from this(3) obtain raw where "gobEncode (e_codec env) (front lt) = Inr raw"
    by (auto simp: LocalTx_StoreRoot_def split: sum.splits)
  ultimately show thesis using that assms(2) by (simp add: StoreRoot_effect)
qed

lemma Commit_batch:
  assumes "lt_Commit sc env w lt = (w', lt', Inr ())" "\<not> queuedLeaves lt" "batch (localTx lt) = Some ops"
  obtains ops' where "w_db w' = db_write (w_db w) (ops @ ops')" "list_all (rows {typ_s} (treeID lt)) ops'"
proof -
  let ?lt = "fst (lt_emit lt sCommit)"
  have fl: "w_db w' = fst (LocalTx_Commit (e_io env) (w_db w) (localTx (fst (lt_Flush sc env ?lt))))"
    "snd (snd (LocalTx_Commit (e_io env) (w_db w) (localTx (fst (lt_Flush sc env ?lt))))) = Inr ()"
    using assms(1,2) by (auto simp: lt_Commit_def split_beta split: option.splits if_splits sum.splits prod.splits)
  have puts: "tx_adds (rows {typ_s} t) ltx (fst (LocalTx_PutSubtrees c ltx t r ids ss))" for c ltx t r ids ss
    by (auto simp: LocalTx_PutSubtrees_def rows_def intro!: PutSubtrees_loop_adds)
  have "tx_adds (rows {typ_s} (treeID l)) (localTx l) (localTx (fst (storeSubtrees env l ss)))" for l :: "'a logTreeTX" and ss
    using puts by (auto simp: storeSubtrees_def split_beta Let_def split: sum.splits)
  from this [of "?lt\<lparr>subtreeCache := fst (scFlush sc (subtreeCache ?lt))\<rparr>"]
  have "tx_adds (rows {typ_s} (treeID lt)) (localTx lt) (localTx (fst (lt_Flush sc env ?lt)))"
    by (auto simp: lt_Flush_def split: prod.splits sum.splits option.splits)
  then obtain ops' where "batch (localTx (fst (lt_Flush sc env ?lt))) = Some (ops @ ops')" "list_all (rows {typ_s} (treeID lt)) ops'"
    using assms(3) by (auto simp: tx_adds_def intro: exI [of _ "[]"])
  then show thesis using that fl by (auto simp: LocalTx_Commit_def split: option.splits)
qed


lemma DequeueLeaves_loop_error:
  assumes "batch ltx = Some ops" "mapM (unmarshalLeaf cd) (map snd (take (nat limit - length ls) es)) = Inl e"
  shows "\<exists>e'. snd (DequeueLeaves_loop cd limit None es ltx ls) = Inl e'"
  using assms
proof (induction es arbitrary: ltx ops ls)
  case Nil
  then show ?case by simp
next
  case (Cons x es)
  obtain k v where x: "x = (k, v)" by (cases x)
  show ?case
  proof (cases "limit \<le> int (length ls)")
    case True
    then have "nat limit - length ls = 0" by simp
    then show ?thesis using Cons.prems(2) by simp
  next
    case False
    then obtain n where n: "nat limit - length ls = Suc n" "nat limit - Suc (length ls) = n"
      by (metis Suc_diff_Suc Suc_diff_le diff_Suc_Suc nat_le_iff not_le zero_less_diff Suc_leI less_nat_zero_code not_less0)
    show ?thesis
    proof (cases "unmarshalLeaf cd v")
      case (Inl e')
      then show ?thesis using False x Cons.prems(1) by simp
    next
      case (Inr leaf)
      then have "mapM (unmarshalLeaf cd) (map snd (take n es)) = Inl e" using Cons.prems(2) n(1) x by (auto split: sum.splits)
      then show ?thesis
        using Cons.IH [of "ltx\<lparr>batch := Some (ops @ [BatchDelete k])\<rparr>" "ops @ [BatchDelete k]" "ls @ [leaf]"] n(2) Inr False x Cons.prems(1)
        by simp
    qed
  qed
qed

lemma Dequeue_batch:
  assumes "lt_DequeueLeaves env w lt limit cutoff = (w', lt', Inr queued)" "db_inv (w_db w)"
    "valid_tree (treeID lt)" "int63 cutoff" "localTx lt = Local_Begin"
  shows "mapM (unmarshalLeaf (e_codec env)) (map snd (take (nat limit) (queue_upto (w_db w) (treeID lt) cutoff))) = Inr queued \<and>
    batch (localTx lt') = Some (map BatchDelete (map fst (take (nat limit) (queue_upto (w_db w) (treeID lt) cutoff))))"
proof -
  let ?Q = "queue_upto (w_db w) (treeID lt) cutoff"
  obtain seq where "LocalTx_DequeueLeaves (e_codec env) (e_io env) (w_db w) Local_Begin (treeID lt) seq cutoff limit = (localTx lt', Inr queued)"
    using assms(1,5) unfolding lt_DequeueLeaves_def by (auto simp: split_beta Let_def prod_eq_iff split: option.splits)
  from LocalTx_DequeueLeaves_success [OF this]
  have deq: "DequeueLeaves_loop (e_codec env) limit None ?Q Local_Begin [] = (localTx lt', Inr queued)"
    by (simp add: LocalTx_DequeueLeaves_def queue_range [OF assms(2-4)])
  have b: "batch Local_Begin = Some []" by (simp add: Local_Begin_def)
  obtain ls where ls: "mapM (unmarshalLeaf (e_codec env)) (map snd (take (nat limit) ?Q)) = Inr ls"
  proof (cases "mapM (unmarshalLeaf (e_codec env)) (map snd (take (nat limit) ?Q))")
    case (Inl e)
    then show ?thesis using DequeueLeaves_loop_error [OF b, of "e_codec env" limit "[]" ?Q e] deq by auto
  qed
  then show ?thesis using DequeueLeaves_loop_ok [OF b, of "e_codec env" limit "[]" ?Q ls] deq by (auto simp: comp_def)
qed

lemma Dequeue_remote: "lt_DequeueLeaves env w lt limit cutoff = (w', lt', res) \<Longrightarrow> remote lt' = remote lt"
  by (auto simp: lt_DequeueLeaves_def lt_emit_def split_beta Let_def split: if_splits option.splits)

lemma merged_append:
  assumes "map LeafIndex leaves = map int [length L..<length L + length leaves]"
  shows "merged L leaves (length L + length leaves) = L @ leaves"
proof (rule nth_equalityI)
  show "length (merged L leaves (length L + length leaves)) = length (L @ leaves)" by (simp add: merged_def)
  fix i assume "i < length (merged L leaves (length L + length leaves))"
  then have i: "i < length L + length leaves" by (simp add: merged_def)
  have ix: "LeafIndex (leaves ! j) = int (length L + j)" if "j < length leaves" for j
    using arg_cong [OF assms, of "\<lambda>xs. xs ! j"] that by simp
  show "merged L leaves (length L + length leaves) ! i = (L @ leaves) ! i"
  proof (cases "i < length L")
    case True
    then have "find (\<lambda>l. LeafIndex l = int i) leaves = None"
      using ix by (auto simp: find_None_iff in_set_conv_nth)
    then show ?thesis using True i by (simp add: merged_def nth_append)
  next
    case False
    then obtain j where j: "i = length L + j" "j < length leaves" using i by (metis add_less_cancel_left le_add_diff_inverse not_less)
    have "distinct (map LeafIndex leaves)" unfolding assms by (simp add: distinct_map)
    then have "find (\<lambda>l. LeafIndex l = LeafIndex (leaves ! j)) leaves = Some (leaves ! j)" using j(2) by (intro find_distinct) auto
    then show ?thesis using i j ix [OF j(2)] by (simp add: merged_def nth_append)
  qed
qed

lemma index_range:
  assumes "map LeafIndex leaves = map int [n..<n + length leaves]"
  shows "distinct (map LeafIndex leaves)" "\<forall>l \<in> set leaves. 0 \<le> LeafIndex l" "LeafIndex ` set leaves \<union> {0..<int n} = {0..<int (n + length leaves)}"
proof -
  have set: "LeafIndex ` set leaves = int ` {n..<n + length leaves}" using arg_cong [OF assms, of set] by simp
  show "distinct (map LeafIndex leaves)" unfolding assms by (simp add: distinct_map)
  show "\<forall>l \<in> set leaves. 0 \<le> LeafIndex l" using set by (metis (no_types) imageE image_eqI of_nat_0_le_iff)
  show "LeafIndex ` set leaves \<union> {0..<int n} = {0..<int (n + length leaves)}"
    unfolding set image_int_atLeastLessThan by auto
qed

lemma rows_mono: "list_all (rows A t) ops \<Longrightarrow> A \<subseteq> B \<Longrightarrow> list_all (rows B t) ops"
  unfolding list_all_iff rows_def by (metis subsetD)

text \<open>The batch of a sequencing transaction, applied to the store.\<close>

lemma sequencing_effects:
  fixes d t c n leaves raws sth raw S
  defines "ms \<equiv> map (contents \<circ> MerkleLeafHash) leaves" and "hs \<equiv> map (contents \<circ> LeafIdentityHash) leaves"
    and "D \<equiv> map BatchDelete (map fst (take n (queue_upto d t c)))"
  defines "d' \<equiv> db_write d (D @ index_ops t raws ms hs @ root_puts t sth raw @ S)"
  assumes "db_wf d" "valid_tree t" "mapM (PutVarint 8) (map LeafIndex leaves) = Inr raws" "list_all (rows {typ_s} t) S"
  shows "queue_upto d' t c = drop n (queue_upto d t c)"
    and "list_all in_int64 (map LeafIndex leaves) \<Longrightarrow> distinct ms \<longrightarrow> GetSequenceByMerkleHash no_faults d' t ms = Inr (map LeafIndex leaves)"
    and "list_all in_int64 (map LeafIndex leaves) \<Longrightarrow> distinct hs \<longrightarrow> GetSequenceByIdentityHash no_faults d' t hs = Inr (map LeafIndex leaves)"
proof -
  let ?I = "index_ops t raws ms hs" and ?R = "root_puts t sth raw"
  have IRS: "list_all (rows {typ_m, typ_i, typ_r, typ_s} t) (?I @ ?R @ S)"
    using rows_mono [OF index_ops_rows] rows_mono [OF root_puts_rows] rows_mono [OF assms(8)] by (auto simp: list_all_append)
  have "d' = db_write (db_write d D) (?I @ ?R @ S)" by (simp add: d'_def db_write_def)
  then show "queue_upto d' t c = drop n (queue_upto d t c)"
    using queue_untouched [OF IRS _ assms(6,6)] queue_upto_deletes [OF assms(5)] by (simp add: D_def)
  have "\<exists>z. k = keyB typ_l t z" if "k \<in> set (map fst (take n (queue_upto d t c)))" for k
    using that queue_time_Some_keyB by (auto simp: queue_upto_def split: option.splits dest!: in_set_takeD)
  then have D: "list_all (rows {typ_l} t) D" unfolding D_def by (intro deletes_rows) blast
  have get: "db_get d' (keyB ty t k) = db_get (db_write d ?I) (keyB ty t k)" if "ty \<in> {typ_m, typ_i}" for ty k
  proof -
    have "batch_effect D (keyB ty t k) = None" "batch_effect ?R (keyB ty t k) = None" "batch_effect S (keyB ty t k) = None"
      using that rows_effect [OF D _ _ assms(6,6), of ty k] rows_effect [OF root_puts_rows _ _ assms(6,6), of ty sth raw k]
        rows_effect [OF assms(8) _ _ assms(6,6), of ty k] by auto
    then show ?thesis by (simp add: d'_def db_get_write assms(5) batch_effect_append split: option.splits)
  qed
  have len: "length (map LeafIndex leaves) = length ms" "length (map LeafIndex leaves) = length hs" by (simp_all add: ms_def hs_def)
  assume in64: "list_all in_int64 (map LeafIndex leaves)"
  note at = index_at_write [OF in64 assms(7,5,6,6) len]
  have "index_at d' typ_m t k = index_at (db_write d ?I) typ_m t k" "index_at d' typ_i t k = index_at (db_write d ?I) typ_i t k" for k
    using get by (simp_all add: index_at_def)
  note at = at [folded this]
  show "distinct ms \<longrightarrow> GetSequenceByMerkleHash no_faults d' t ms = Inr (map LeafIndex leaves)"
    using mapM_index_own [OF len(1), of d' typ_m t d] at(1) by (simp add: GetSequenceByMerkleHash_def getSequenceBy_mapM)
  show "distinct hs \<longrightarrow> GetSequenceByIdentityHash no_faults d' t hs = Inr (map LeafIndex leaves)"
    using mapM_index_own [OF len(2), of d' typ_i t d] at(2) by (simp add: GetSequenceByIdentityHash_def getSequenceBy_mapM)
qed

text \<open>
  C4. From the queue to the log. A sequencing transaction that runs through and commits moves leaves: it returned the oldest rows
  of the tree's queue up to the cutoff, and exactly these have left the queue; the Merkle hashes and the identity
  hashes of the leaves it sequenced lead to their sequence numbers; and the remote database holds the log with these
  leaves appended.
\<close>

theorem sequencing_moves_leaves:
  assumes "e_codec env1 = cd" "e_codec env2 = cd"
    and "db_inv (w_db w)" "valid_tree t" "int63 cutoff"
    and "beginForTree sc env0 w r t = Inr lt"
    and "lt_DequeueLeaves env1 w lt limit cutoff = (w1, lt1, Inr queued)"
    and "UpdateSequencedLeaves env2 w1 lt1 leaves = (w2, lt2, Inr ())"
    and "SetMerkleNodes sc env3 w2 lt2 nodes = (w3, lt3, Inr ())"
    and "StoreSignedLogRoot env4 w3 lt3 sth = (w4, lt4, Inr ())"
    and "lt_Commit sc env5 w4 lt4 = (w5, lt5, Inr ())"
    and "codec_pair (jsonEncode cd) (jsonDecode cd) valid"
    and "\<forall>ls. set ls \<subseteq> set L \<union> set leaves \<longrightarrow> valid (map Some ls) \<and> (\<exists>raw. jsonEncode cd (map Some ls) = Inr raw)"
    and "serves (e_http env2) r objs" "holds_log cd (e_http env2) r t L"
    and "map LeafIndex leaves = map int [length L..<length L + length leaves]" "int (length L + length leaves) < 2 ^ 63"
    and "bucketErr (e_b2 env2) (bucket r) = None" "\<forall>name. uploadErr (e_b2 env2) name = None"
    and "mset (e_ord env2 (group_batches leaves)) = mset (group_batches leaves)"
    and "serves http' r (objs ++ map_of (drop (length (w_uploads w)) (w_uploads w2)))"
  shows "mapM (unmarshalLeaf cd) (map snd (take (nat limit) (queue_upto (w_db w) t cutoff))) = Inr queued \<and>
    queue_upto (w_db w5) t cutoff = drop (nat limit) (queue_upto (w_db w) t cutoff) \<and>
    (distinct (map (contents \<circ> MerkleLeafHash) leaves) \<longrightarrow>
       GetSequenceByMerkleHash no_faults (w_db w5) t (map (contents \<circ> MerkleLeafHash) leaves) = Inr (map LeafIndex leaves)) \<and>
    (distinct (map (contents \<circ> LeafIdentityHash) leaves) \<longrightarrow>
       GetSequenceByIdentityHash no_faults (w_db w5) t (map (contents \<circ> LeafIdentityHash) leaves) = Inr (map LeafIndex leaves)) \<and>
    holds_log cd http' r t (L @ leaves)"
proof -
  let ?d = "w_db w" and ?Q = "queue_upto (w_db w) t cutoff"
  let ?ms = "map (contents \<circ> MerkleLeafHash) leaves" and ?hs = "map (contents \<circ> LeafIdentityHash) leaves"
  have lt: "treeID lt = t" "localTx lt = Local_Begin" "\<not> queuedLeaves lt" "remote lt = r"
    using assms(6) by (auto simp: beginForTree_def Let_def split_beta split: option.splits sum.splits if_splits)
  have lt1: "treeID lt1 = t" "\<not> queuedLeaves lt1" "w1 = w" "remote lt1 = r"
    using DequeueLeaves_fields [OF assms(7)] lt Dequeue_remote [OF assms(7)] by auto
  define D where "D = map BatchDelete (map fst (take (nat limit) ?Q))"
  have deq: "mapM (unmarshalLeaf cd) (map snd (take (nat limit) ?Q)) = Inr queued" "batch (localTx lt1) = Some D"
    using Dequeue_batch [OF assms(7,3)] lt assms(1,4,5) by (simp_all add: D_def)
  obtain raws where upd: "mapM (PutVarint 8) (map LeafIndex leaves) = Inr raws" "batch (localTx lt2) = Some (D @ index_ops t raws ?ms ?hs)"
      "w_uploads w2 = w_uploads w @ fst (Remote_PutLeaves cd (e_http env2) (e_b2 env2) (e_ord env2) r t leaves)"
    using Update_batch [OF assms(8) deq(2)] assms(2) lt1 by metis
  have w2: "w_db w2 = ?d" "treeID lt2 = t" "\<not> queuedLeaves lt2" using UpdateSequencedLeaves_fields [OF assms(8)] lt1 by auto
  have w3: "w3 = w2" "treeID lt3 = t" "\<not> queuedLeaves lt3" using SetMerkleNodes_fields [OF assms(9)] w2 by auto
  obtain raw where st: "batch (localTx lt4) = Some ((D @ index_ops t raws ?ms ?hs) @ root_puts t sth raw)" "w4 = w3"
    using StoreSignedLogRoot_batch [OF assms(10)] upd(2) SetMerkleNodes_batch [OF assms(9)] w3(2) by metis
  have lt4: "treeID lt4 = t" "\<not> queuedLeaves lt4" using StoreSignedLogRoot_fields [OF assms(10)] w3 by metis+
  obtain S where S: "w_db w5 = db_write ?d (((D @ index_ops t raws ?ms ?hs) @ root_puts t sth raw) @ S)" "list_all (rows {typ_s} t) S"
    using Commit_batch [OF assms(11) lt4(2) st(1)] st(2) w3(1) w2(1) lt4(1) by metis
  have d5: "w_db w5 = db_write ?d (D @ index_ops t raws ?ms ?hs @ root_puts t sth raw @ S)" using S(1) by simp
  note effects = sequencing_effects [OF db_invD(1) [OF assms(3)] assms(4) upd(1) S(2), where c = cutoff and n = "nat limit" and sth = sth and raw = raw,
      folded D_def d5]
  have "list_all in_int64 (map LeafIndex leaves)" unfolding assms(16) using assms(17) by (auto simp: list_all_iff in_int64_def)
  note found = effects(2,3) [OF this]
  obtain uploads res where put: "Remote_PutLeaves cd (e_http env2) (e_b2 env2) (e_ord env2) r t leaves = (uploads, res)" by (rule prod.exhaust)
  have "distinct (map LeafIndex leaves)" "\<forall>l \<in> set leaves. 0 \<le> LeafIndex l"
      "LeafIndex ` set leaves \<union> {0..<int (length L)} = {0..<int (length L + length leaves)}"
    using index_range [OF assms(16)] by auto
  from PutLeaves_log [OF assms(12-15) this assms(18-20) put] assms(21) upd(3) put
  have "holds_log cd http' r t (L @ leaves)" using merged_append [OF assms(16)] by simp
  with deq(1) effects(1) found show ?thesis unfolding d5 by blast
qed


section \<open>A concrete run\<close>

text \<open>A log of one leaf, one queued leaf, and the transaction that sequences it.\<close>

definition queue_key :: bytes where
  "queue_key = keyB typ_l 5 (rowkeyLeaf 5 (Some [1, 2, 3, 4]))"

definition queued_world :: world where
  "queued_world = \<lparr>w_db = (queue_key, [7]) # w_db sample_world, w_cache = leafCache, w_uploads = []\<rparr>"

definition plain_remote :: Remote where
  "plain_remote = \<lparr>bucket = [], url = []\<rparr>"

definition one_leaf_env :: env where
  "one_leaf_env = sample_env\<lparr>e_http := sample_http plain_remote [object_name 5 0 \<mapsto> [0]]\<rparr>"

lemma queued_world_inv: "db_inv (w_db queued_world)"
proof -
  have "key_ok queue_key" using key_okI [of 5 "QueueRow 5 [1, 2, 3, 4]"] by (simp add: queue_key_def valid_tree_def int63_def)
  moreover have "key_ok (keyS typ_r 5 s)" if "s \<in> {''root'', ''sig'', ''frontier''}" for s
    using key_okI [of 5 "RootRow s"] that by (simp add: valid_tree_def)
  moreover have "queue_key < keyS typ_r 5 s" for s by (simp add: queue_key_def keyS_eq_keyB keyB_less_iff valid_tree_def)
  ultimately show ?thesis
    using sample_world_wf by (simp add: db_inv_def queued_world_def db_wf_def sample_world_def)
qed

lemma queued_world_queue: "queue_upto (w_db queued_world) 5 100 = [(queue_key, [7])]"
proof -
  have "queue_time 5 (keyS typ_r 5 s) = None" for s
  proof (rule ccontr)
    assume "queue_time 5 (keyS typ_r 5 s) \<noteq> None"
    then obtain z where "keyB typ_r 5 (ascii s) = keyB typ_l 5 z" using queue_time_Some_keyB by (metis keyS_eq_keyB not_None_eq)
    then show False using keyB_eq_iff [of typ_r typ_l 5 5 "ascii s" z] by (simp add: valid_tree_def)
  qed
  moreover have "queue_time 5 queue_key = Some 5" by (simp add: queue_key_def queue_time_row int63_def)
  ultimately show ?thesis by (simp add: queue_upto_def queued_world_def sample_world_def)
qed

lemma queued_begin: "beginForTree sample_sc sample_env queued_world plain_remote 5 = Inr (sample_lt sBegin (Some []) [] False)"
proof -
  have "keyS typ_r 5 s \<noteq> queue_key" for s by (simp add: queue_key_def keyS_eq_keyB keyB_eq_iff valid_tree_def)
  then have "db_get (w_db queued_world) (keyS typ_r 5 s) = db_get (w_db sample_world) (keyS typ_r 5 s)" for s
    by (simp add: db_get_def queued_world_def)
  then have "MostRecentRoot cd io (w_db queued_world) 5 = MostRecentRoot cd io (w_db sample_world) 5" for cd io
    by (simp only: MostRecentRoot_def snap_Get_def)
  then have "beginForTree sample_sc sample_env queued_world plain_remote 5 = beginForTree sample_sc sample_env sample_world plain_remote 5"
    by (simp only: beginForTree_def)
  then show ?thesis using sample_begin by (simp add: plain_remote_def)
qed

lemma queued_dequeue:
  "lt_DequeueLeaves sample_env queued_world (sample_lt sBegin (Some []) [] False) 10 100 =
    (queued_world, sample_lt sDequeueLeaves (Some [BatchDelete queue_key]) [] False, Inr [sample_leaf [7]])"
proof -
  have "DequeueLeaves_loop sample_codec 10 None [(queue_key, [7])] \<lparr>batch = Some []\<rparr> [] =
      (\<lparr>batch = Some [BatchDelete queue_key]\<rparr>, Inr [sample_leaf [7]])"
    by (simp add: sample_codec_def)
  moreover have "valid_tree 5" "int63 100" by (simp_all add: valid_tree_def int63_def)
  ultimately show ?thesis
    using queue_range [OF queued_world_inv, of 5 100] queued_world_queue
    by (simp add: lt_DequeueLeaves_def sample_emit allowed_iff LocalTx_DequeueLeaves_def sample_env_def) (simp add: sample_lt_def)
qed

lemma one_leaf_log: "holds_log sample_codec (e_http one_leaf_env) plain_remote 5 [sample_indexed 0]"
  by (auto simp: one_leaf_env_def holds_log_def getBatch_serves [OF serves_sample] object_name_inj)
     (auto simp: sample_codec_def sample_indexed_def)

lemma one_leaf_codable:
  "\<forall>ls. set ls \<subseteq> set [sample_indexed 0] \<union> set [sample_indexed 1] \<longrightarrow>
    list_all (\<lambda>l. \<exists>i. 0 \<le> i \<and> i < 255 \<and> l = Some (sample_indexed i)) (map Some ls) \<and> (\<exists>raw. jsonEncode sample_codec (map Some ls) = Inr raw)"
proof (intro allI impI conjI)
  fix ls assume "set ls \<subseteq> set [sample_indexed 0] \<union> set [sample_indexed 1]"
  then have "\<forall>l \<in> set ls. l = sample_indexed 0 \<or> l = sample_indexed 1" by auto
  then have "\<exists>i. 0 \<le> i \<and> i < 255 \<and> l = sample_indexed i" if "l \<in> set ls" for l
    using that by (intro exI [of _ "if l = sample_indexed 0 then 0 else 1"]) auto
  then show "list_all (\<lambda>l. \<exists>i. 0 \<le> i \<and> i < 255 \<and> l = Some (sample_indexed i)) (map Some ls)"
    by (simp add: list_all_iff)
  show "\<exists>raw. jsonEncode sample_codec (map Some ls) = Inr raw" by (simp add: sample_codec_def)
qed

lemma one_leaf_put:
  obtains uploads where "Remote_PutLeaves sample_codec (e_http one_leaf_env) (e_b2 one_leaf_env) id plain_remote 5 [sample_indexed 1] = (uploads, Inr ())"
proof -
  obtain uploads res where put: "Remote_PutLeaves sample_codec (e_http one_leaf_env) (e_b2 one_leaf_env) id plain_remote 5 [sample_indexed 1] = (uploads, res)"
    by (rule prod.exhaust)
  have ix: "map LeafIndex [sample_indexed 1] = map int [length [sample_indexed 0]..<length [sample_indexed 0] + length [sample_indexed 1]]"
    by (simp add: sample_indexed_def)
  have "serves (e_http one_leaf_env) plain_remote [object_name 5 0 \<mapsto> [0]]" by (simp add: one_leaf_env_def serves_sample)
  from PutLeaves_log [OF sample_json one_leaf_codable this one_leaf_log index_range [OF ix] _ _ _ put serves_sample]
  show thesis using put that by (simp add: one_leaf_env_def sample_env_def)
qed

lemma queued_update:
  obtains w' ops where "UpdateSequencedLeaves one_leaf_env queued_world (sample_lt sDequeueLeaves (Some [BatchDelete queue_key]) [] False) [sample_indexed 1] =
    (w', sample_lt sUpdateSequencedLeaves (Some ops) [Some [1]] False, Inr ())"
proof -
  obtain uploads where up: "Remote_PutLeaves sample_codec (e_http one_leaf_env) (e_b2 one_leaf_env) id plain_remote 5 [sample_indexed 1] = (uploads, Inr ())"
    by (rule one_leaf_put)
  have "Append \<lparr>Roots = []\<rparr> (Some [1]) = \<lparr>Roots = [Some [1]]\<rparr>" by (simp add: Append_def Append_loop.simps)
  moreover obtain raw where "PutVarint 8 1 = Inr raw" using PutVarint_8 [of 1] by (auto simp: in_int64_def)
  moreover have "e_codec one_leaf_env = sample_codec" "e_ord one_leaf_env = id" by (simp_all add: one_leaf_env_def sample_env_def)
  ultimately show thesis
    using up that by (simp add: UpdateSequencedLeaves_def sample_emit allowed_iff)
      (simp add: sample_lt_def LocalTx_PutLeaves_def sample_indexed_def sample_leaf_def plain_remote_def)
qed

theorem sequencing_moves_leaves_witness:
  "\<exists>(w5 :: world) http'. queue_upto (w_db queued_world) 5 100 \<noteq> [] \<and> queue_upto (w_db w5) 5 100 = [] \<and>
     GetSequenceByMerkleHash no_faults (w_db w5) 5 [[1]] = Inr [1] \<and>
     holds_log sample_codec http' plain_remote 5 [sample_indexed 0, sample_indexed 1]"
proof -
  obtain w2 ops where upd: "UpdateSequencedLeaves one_leaf_env queued_world (sample_lt sDequeueLeaves (Some [BatchDelete queue_key]) [] False) [sample_indexed 1] =
      (w2, sample_lt sUpdateSequencedLeaves (Some ops) [Some [1]] False, Inr ())"
    by (rule queued_update)
  let ?w5 = "w2\<lparr>w_db := db_write (w_db w2) (ops @ root_puts 5 (head_of 1) [1])\<rparr>"
  let ?http = "sample_http plain_remote ([object_name 5 0 \<mapsto> [0]] ++ map_of (drop (length (w_uploads queued_world)) (w_uploads w2)))"
  have ix: "map LeafIndex [sample_indexed 1] = map int [length [sample_indexed 0]..<length [sample_indexed 0] + length [sample_indexed 1]]"
    by (simp add: sample_indexed_def)
  have serves: "serves (e_http one_leaf_env) plain_remote [object_name 5 0 \<mapsto> [0]]" by (simp add: one_leaf_env_def serves_sample)
  have "(1 :: 8 word) \<noteq> 0" by simp
  note store = step_store [OF this]
  have env: "e_codec sample_env = sample_codec" "e_codec one_leaf_env = sample_codec" "e_io sample_env = no_faults"
      "bucketErr (e_b2 one_leaf_env) (bucket plain_remote) = None" "\<forall>name. uploadErr (e_b2 one_leaf_env) name = None"
      "mset (e_ord one_leaf_env (group_batches [sample_indexed 1])) = mset (group_batches [sample_indexed 1])"
    by (simp_all add: one_leaf_env_def sample_env_def)
  have bounds: "valid_tree 5" "int63 100" "int (length [sample_indexed 0] + length [sample_indexed 1]) < 2 ^ 63"
    by (simp_all add: valid_tree_def int63_def)
  from sequencing_moves_leaves [OF env(1,2) queued_world_inv bounds(1,2) queued_begin queued_dequeue upd sample_nodes store sample_commit
      sample_json one_leaf_codable serves one_leaf_log ix bounds(3) env(4,5,6) serves_sample]
  have run: "queue_upto (w_db ?w5) 5 100 = [] \<and> GetSequenceByMerkleHash no_faults (w_db ?w5) 5 [[1]] = Inr [1] \<and>
      holds_log sample_codec ?http plain_remote 5 [sample_indexed 0, sample_indexed 1]"
    using queued_world_queue by (simp add: sample_indexed_def)
  show ?thesis
    by (rule exI [of _ ?w5], rule exI [of _ ?http]) (use run queued_world_queue in simp)
qed

end
