(* ===== verification/Transactions.thy ===== *)
theory Transactions
  imports PublishedRoots
begin

text \<open>
  All or nothing: a sequencing callback run by \<open>ReadWriteTransaction\<close> either leaves the local database as it was or
  applies one batch, and the latter only for the sequences of operations that leave a complete log behind.
  Uploads to the remote database are not part of the transaction and stay.
\<close>

section \<open>Callbacks\<close>

text \<open>The sequencing operations a callback may perform; it stops at the first one that fails.\<close>

datatype tx_op =
    TDequeueLeaves int int
  | TUpdateSequencedLeaves "LogLeaf list"
  | TSetMerkleNodes "Node list"
  | TStoreSignedLogRoot SignedLogRoot

fun tx_kind :: "tx_op \<Rightarrow> fsmState" where
  "tx_kind (TDequeueLeaves n c) = sDequeueLeaves"
| "tx_kind (TUpdateSequencedLeaves ls) = sUpdateSequencedLeaves"
| "tx_kind (TSetMerkleNodes ns) = sSetMerkleNodes"
| "tx_kind (TStoreSignedLogRoot sth) = sStoreSignedLogRoot"

fun tx_do ::
  "'sc subtree_cache_ops \<Rightarrow> env \<Rightarrow> world \<Rightarrow> 'sc logTreeTX \<Rightarrow> tx_op \<Rightarrow> world \<times> 'sc logTreeTX \<times> unit result" where
  "tx_do sc env w lt (TDequeueLeaves n c) =
    (let (w, lt, res) = lt_DequeueLeaves env w lt n c in (w, lt, map_sum id (\<lambda>_. ()) res))"
| "tx_do sc env w lt (TUpdateSequencedLeaves ls) = UpdateSequencedLeaves env w lt ls"
| "tx_do sc env w lt (TSetMerkleNodes ns) = SetMerkleNodes sc env w lt ns"
| "tx_do sc env w lt (TStoreSignedLogRoot sth) = StoreSignedLogRoot env w lt sth"

fun tx_prog ::
  "'sc subtree_cache_ops \<Rightarrow> (nat \<Rightarrow> env) \<Rightarrow> tx_op list \<Rightarrow> world \<Rightarrow> 'sc logTreeTX \<Rightarrow> world \<times> 'sc logTreeTX \<times> unit result" where
  "tx_prog sc envs [] w lt = (w, lt, Inr ())"
| "tx_prog sc envs (op # ops) w lt =
    (case tx_do sc (envs (length ops)) w lt op of
       (w, lt, Inl e) \<Rightarrow> (w, lt, Inl e)
     | (w, lt, Inr _) \<Rightarrow> tx_prog sc envs ops w lt)"

section \<open>What one operation leaves alone\<close>

lemma lt_emit_fsm: "lt_emit lt st = (lt', None) \<Longrightarrow> emit (lt_fsm lt) st = (lt_fsm lt', None)"
  by (cases "emit (lt_fsm lt) st") (auto simp: lt_emit_def)

lemma tx_do_keeps:
  assumes "tx_do sc env w lt op = (w', lt', res)"
  shows "w_db w' = w_db w" "w_cache w' = w_cache w" "queuedLeaves lt' = queuedLeaves lt"
    "res = Inr () \<Longrightarrow> emit (lt_fsm lt) (tx_kind op) = (lt_fsm lt', None)"
proof -
  obtain lt1 e where em: "lt_emit lt (tx_kind op) = (lt1, e)" by (rule prod.exhaust)
  have "queuedLeaves lt1 = queuedLeaves lt" using lt_emit_fields(4) [of lt "tx_kind op"] em by simp
  then have "w_db w' = w_db w \<and> w_cache w' = w_cache w \<and> queuedLeaves lt' = queuedLeaves lt \<and>
      (res = Inr () \<longrightarrow> e = None \<and> lt_fsm lt' = lt_fsm lt1)"
    using assms em
    by (cases op)
       (auto simp: lt_DequeueLeaves_def UpdateSequencedLeaves_def SetMerkleNodes_def StoreSignedLogRoot_def split_beta Let_def
         split: option.splits sum.splits if_splits)
  then show "w_db w' = w_db w" "w_cache w' = w_cache w" "queuedLeaves lt' = queuedLeaves lt"
    "res = Inr () \<Longrightarrow> emit (lt_fsm lt) (tx_kind op) = (lt_fsm lt', None)"
    using lt_emit_fsm [of lt "tx_kind op" lt1] em by auto
qed

lemma tx_prog_keeps:
  assumes "tx_prog sc envs ops w lt = (w', lt', res)"
  shows "w_db w' = w_db w \<and> w_cache w' = w_cache w \<and> queuedLeaves lt' = queuedLeaves lt \<and>
    (res = Inr () \<longrightarrow> fsm_run (lt_fsm lt) (map tx_kind ops) (lt_fsm lt'))"
  using assms
proof (induction ops arbitrary: w lt)
  case Nil
  then show ?case by simp
next
  case (Cons op ops)
  obtain w1 lt1 r1 where op: "tx_do sc (envs (length ops)) w lt op = (w1, lt1, r1)" by (rule prod_cases3)
  note keeps = tx_do_keeps [OF op]
  show ?case
  proof (cases r1)
    case (Inl e)
    then show ?thesis using Cons.prems op keeps by auto
  next
    case (Inr u)
    then have "tx_prog sc envs ops w1 lt1 = (w', lt', res)" using Cons.prems op by simp
    from Cons.IH [OF this] keeps Inr show ?thesis by (auto intro: fsm_run_Cons)
  qed
qed

lemma lt_Commit_keeps:
  assumes "lt_Commit sc env w lt = (w', lt', res)"
  shows "w_cache w' = w_cache w" "res \<noteq> Inr () \<Longrightarrow> w_db w' = w_db w" "\<exists>b. w_db w' = db_write (w_db w) b"
    "res = Inr () \<Longrightarrow> \<exists>m. emit (lt_fsm lt) sCommit = (m, None)"
proof -
  obtain lt1 e where em: "lt_emit lt sCommit = (lt1, e)" by (rule prod.exhaust)
  have nop: "w_db w = db_write (w_db w) []" by (simp add: db_write_def)
  have "(\<exists>b. fst (LocalTx_Commit io d ltx) = db_write d b) \<and> (snd (snd (LocalTx_Commit io d ltx)) \<noteq> Inr () \<longrightarrow> fst (LocalTx_Commit io d ltx) = d)"
    for io d ltx
    by (auto simp: LocalTx_Commit_def split: option.splits intro: exI [of _ "[]"] simp: db_write_def)
  note com = this
  have "w_cache w' = w_cache w \<and> (res \<noteq> Inr () \<longrightarrow> w_db w' = w_db w) \<and> (\<exists>b. w_db w' = db_write (w_db w) b) \<and> (res = Inr () \<longrightarrow> e = None)"
  proof (cases e)
    case (Some err)
    then show ?thesis using assms em nop by (auto simp: lt_Commit_def)
  next
    case None
    obtain lt2 r2 where fl: "lt_Flush sc env lt1 = (lt2, r2)" by (rule prod.exhaust)
    obtain d ltx r3 where c: "LocalTx_Commit (e_io env) (w_db w) (localTx lt2) = (d, ltx, r3)" by (rule prod_cases3)
    have "(\<exists>b. d = db_write (w_db w) b) \<and> (r3 \<noteq> Inr () \<longrightarrow> d = w_db w)" using com [of "e_io env" "w_db w" "localTx lt2"] c by simp
    then show ?thesis
      using assms em None fl c nop by (auto simp: lt_Commit_def split: if_splits sum.splits)
  qed
  then show "w_cache w' = w_cache w" "res \<noteq> Inr () \<Longrightarrow> w_db w' = w_db w" "\<exists>b. w_db w' = db_write (w_db w) b"
    "res = Inr () \<Longrightarrow> \<exists>m. emit (lt_fsm lt) sCommit = (m, None)"
    using lt_emit_fsm [of lt sCommit lt1] em by auto
qed

lemma failed_transaction_keeps_db:
  assumes "ReadWriteTransaction sc env env' w r t (tx_prog sc envs ops) = (w', lt', Inl e)"
  shows "w_db w' = w_db w"
proof (cases "beginForTree sc env w r t")
  case (Inl e)
  then show ?thesis using assms by (simp add: ReadWriteTransaction_def)
next
  case (Inr lt)
  obtain w1 lt1 r1 where prog: "tx_prog sc envs ops w lt = (w1, lt1, r1)" by (rule prod_cases3)
  show ?thesis
    using assms Inr prog tx_prog_keeps [OF prog] lt_Commit_keeps(2) [of sc env' w1 lt1]
    by (auto simp: ReadWriteTransaction_def split: sum.splits error.splits prod.splits)
qed



end
