(* ===== verification/MergeDelay.thy ===== *)
theory MergeDelay
  imports Sequencing Transactions "HOL-Library.Sublist"
begin

text \<open>
  How long a leaf waits. A log promises to sequence a submitted leaf within a bounded time. What the storage
  contributes is an order: every pass of the sequencer takes the oldest leaves, so that a leaf waits for the
  leaves queued before it and for no other, however many arrive later, whatever fails in between, and whatever the passes
  over other trees do.
\<close>

section \<open>Histories of passes\<close>

text \<open>
  Submissions, to any tree; those to the tree \<open>t\<close> have a queue time after \<open>c\<close>.
\<close>

inductive submissions :: "'sc subtree_cache_ops \<Rightarrow> int \<Rightarrow> int \<Rightarrow> world \<Rightarrow> world \<Rightarrow> bool" for sc t c where
  no_submission: "submissions sc t c w w"
| submission: "submissions sc t c w w' \<Longrightarrow> LogStorage_QueueLeaves (scNew sc) env envs w' r u leaves ts = (w'', res) \<Longrightarrow>
    valid_tree u \<Longrightarrow> int63 ts \<Longrightarrow> (u = t \<longrightarrow> c < ts) \<Longrightarrow> (\<forall>j. case e_noise (envs j) 0 of None \<Rightarrow> True | Some r \<Rightarrow> length r = 4) \<Longrightarrow>
    submissions sc t c w w''"

text \<open>
  A pass over the tree \<open>u\<close> that gets through, with submissions between any two of its calls: the transaction returned
  \<open>queued\<close> from the queue, and Trillian's sequencer has numbered these leaves and left their identity hashes alone.
\<close>

inductive sequencing_pass ::
  "'sc subtree_cache_ops \<Rightarrow> codec \<Rightarrow> int \<Rightarrow> int \<Rightarrow> int \<Rightarrow> int \<Rightarrow> int \<Rightarrow> world \<Rightarrow> LogLeaf list \<Rightarrow> world \<Rightarrow> bool" for sc cd t c u limit cutoff where
  runs_through: "beginForTree sc env0 w r u = Inr lt \<Longrightarrow> int63 (wrap64 (TreeRevision (root lt) + 1)) \<Longrightarrow> submissions sc t c w w1 \<Longrightarrow>
    lt_DequeueLeaves env1 w1 lt limit cutoff = (w1', lt1, Inr queued) \<Longrightarrow> e_codec env1 = cd \<Longrightarrow> submissions sc t c w1' w2 \<Longrightarrow>
    UpdateSequencedLeaves env2 w2 lt1 leaves = (w2', lt2, Inr ()) \<Longrightarrow> map LeafIdentityHash leaves = map LeafIdentityHash queued \<Longrightarrow>
    (\<forall>l \<in> set leaves. 0 \<le> LeafIndex l \<and> in_int64 (LeafIndex l)) \<Longrightarrow> submissions sc t c w2' w3 \<Longrightarrow>
    SetMerkleNodes sc env3 w3 lt2 nodes = (w3', lt3, Inr ()) \<Longrightarrow> submissions sc t c w3' w4 \<Longrightarrow>
    StoreSignedLogRoot env4 w4 lt3 sth = (w4', lt4, Inr ()) \<Longrightarrow> submissions sc t c w4' w5 \<Longrightarrow>
    lt_Commit sc env5 w5 lt4 = (w', lt5, Inr ()) \<Longrightarrow> sequencing_pass sc cd t c u limit cutoff w queued w'"

text \<open>
  Histories as a waiting leaf of the tree \<open>t\<close> sees them: \<open>handed\<close> are the leaves of the passes over \<open>t\<close> that got through, each with
  the same limit and a cutoff not before \<open>c\<close>. Restarts lose the cache.
\<close>

inductive pass_history :: "'sc subtree_cache_ops \<Rightarrow> codec \<Rightarrow> int \<Rightarrow> int \<Rightarrow> int \<Rightarrow> world \<Rightarrow> LogLeaf list list \<Rightarrow> world \<Rightarrow> bool"
  for sc cd t c limit w0 where
  at_first: "pass_history sc cd t c limit w0 [] w0"
| submitted: "pass_history sc cd t c limit w0 handed w \<Longrightarrow> submissions sc t c w w' \<Longrightarrow> pass_history sc cd t c limit w0 handed w'"
| restart: "pass_history sc cd t c limit w0 handed w \<Longrightarrow> pass_history sc cd t c limit w0 handed (w\<lparr>w_cache := cache\<rparr>)"
| failed: "pass_history sc cd t c limit w0 handed w \<Longrightarrow>
    ReadWriteTransaction sc env env' w r u (tx_prog sc envs ops) = (w', lt, Inl e) \<Longrightarrow> pass_history sc cd t c limit w0 handed w'"
| other_tree: "pass_history sc cd t c limit w0 handed w \<Longrightarrow> sequencing_pass sc cd t c u n cutoff w queued w' \<Longrightarrow>
    u \<noteq> t \<Longrightarrow> valid_tree u \<Longrightarrow> int63 cutoff \<Longrightarrow> pass_history sc cd t c limit w0 handed w'"
| own_tree: "pass_history sc cd t c limit w0 handed w \<Longrightarrow> sequencing_pass sc cd t c t limit cutoff w queued w' \<Longrightarrow>
    c \<le> cutoff \<Longrightarrow> int63 cutoff \<Longrightarrow> pass_history sc cd t c limit w0 (handed @ [queued]) w'"

section \<open>What submissions do to the database\<close>

definition later_put :: "int \<Rightarrow> int \<Rightarrow> batch_op \<Rightarrow> bool" where
  "later_put t c op \<longleftrightarrow> (\<exists>u ts r v. op = BatchPut (keyB typ_l u (rowkeyLeaf ts (Some r))) v \<and> valid_tree u \<and> int63 ts \<and> length r = 4 \<and>
     (u = t \<longrightarrow> c < ts))"

definition grows :: "int \<Rightarrow> int \<Rightarrow> db \<Rightarrow> db \<Rightarrow> bool" where
  "grows t c d d' \<longleftrightarrow> (\<exists>ops. list_all (later_put t c) ops \<and> d' = db_write d ops)"

lemma grows_refl [simp]: "grows t c d d"
  unfolding grows_def by (intro exI [of _ "[]"]) (simp add: db_write_def)

lemma grows_trans [trans]: "grows t c d1 d2 \<Longrightarrow> grows t c d2 d3 \<Longrightarrow> grows t c d1 d3"
  unfolding grows_def by (metis db_write_def foldl_append list_all_append)

lemma queueLeaf_grows:
  assumes "queueLeaf env w lt leaf ts = (w', res)" "valid_tree (treeID lt)" "int63 ts" "treeID lt = t \<longrightarrow> c < ts"
    "case e_noise env 0 of None \<Rightarrow> True | Some r \<Rightarrow> length r = 4"
  shows "grows t c (w_db w) (w_db w')"
proof -
  let ?q = "Local_QueueLeaves (e_codec env) (e_io env) (e_noise env) (w_db w) (treeID lt) ts [leaf]"
  have "grows t c (w_db w) (fst ?q)"
  proof (cases "snd ?q")
    case (Inl e)
    then have "fst ?q = w_db w"
      by (auto simp: Local_QueueLeaves_def rowkeyLeaf_noise_def split: sum.splits option.splits)
    then show ?thesis by simp
  next
    case (Inr u)
    then obtain r v where "e_noise env 0 = Some r" "fst ?q = db_write (w_db w) [BatchPut (keyB typ_l (treeID lt) (rowkeyLeaf ts (Some r))) v]"
      by (auto simp: Local_QueueLeaves_def rowkeyLeaf_noise_def split: sum.splits option.splits)
    then show ?thesis
      unfolding grows_def using assms(2-5) by (intro exI [of _ "[BatchPut (keyB typ_l (treeID lt) (rowkeyLeaf ts (Some r))) v]"])
        (auto simp: later_put_def)
  qed
  then show ?thesis
    using assms(1) by (auto simp: queueLeaf_def split_beta Let_def split: option.splits sum.splits if_splits)
qed

lemma QueueLeaves_grows:
  "LogStorage_QueueLeaves_loop envs w lt leaves ts out = (w', res) \<Longrightarrow> valid_tree (treeID lt) \<Longrightarrow> int63 ts \<Longrightarrow> (treeID lt = t \<longrightarrow> c < ts) \<Longrightarrow>
   (\<forall>j. case e_noise (envs j) 0 of None \<Rightarrow> True | Some r \<Rightarrow> length r = 4) \<Longrightarrow> grows t c (w_db w) (w_db w')"
proof (induction envs w lt leaves ts out rule: LogStorage_QueueLeaves_loop.induct)
  case (1 envs w lt ts out)
  then show ?case by simp
next
  case (2 envs w lt leaf leaves ts out)
  obtain w1 r1 where q: "queueLeaf (envs (length out)) w lt leaf ts = (w1, r1)" by (rule prod.exhaust)
  from 2(4-7) queueLeaf_grows [OF q] have step: "grows t c (w_db w) (w_db w1)" by blast
  have rest: "grows t c (w_db w1) (w_db w')"
  proof (cases r1)
    case (Inl e)
    then show ?thesis using 2(3) q by simp
  next
    case (Inr dup)
    then show ?thesis using 2(1,2) [OF q [symmetric] Inr] 2(3-7) q by (cases dup) auto
  qed
  from grows_trans [OF step rest] show ?case .
qed

lemma submissions_grow: "submissions sc t c w w' \<Longrightarrow> grows t c (w_db w) (w_db w')"
proof (induction rule: submissions.induct)
  case (submission w w' env envs r u leaves ts w'' res)
  have "grows t c (w_db w') (w_db w'')"
  proof (cases "MostRecentRoot (e_codec env) (e_io env) (w_db w') u")
    case (Inl e)
    then show ?thesis using submission(2) by (simp add: LogStorage_QueueLeaves_def)
  next
    case (Inr sf)
    show ?thesis
      by (rule QueueLeaves_grows [OF submission(2) [unfolded LogStorage_QueueLeaves_def Inr sum.case split_beta]])
         (simp_all add: submission(3-6))
  qed
  then show ?case by (rule grows_trans [OF submission(7)])
qed simp

lemma later_put_key: "later_put t c op \<Longrightarrow> key_ok (batch_key op) \<and> (\<exists>u z. valid_tree u \<and> batch_key op = keyB typ_l u z)"
  using key_okI [of _ "QueueRow ts r" for ts r] by (fastforce simp: later_put_def)

lemma grows_db_inv: "grows t c d d' \<Longrightarrow> db_inv d \<Longrightarrow> db_inv d'"
  unfolding grows_def using db_inv_write later_put_key by (metis (no_types, lifting) list.pred_mono_strong)

lemma grows_index:
  assumes "grows t c d d'" "db_wf d" "valid_tree t"
  shows "index_at d' typ_i t k = index_at d typ_i t k"
proof -
  obtain ops where ops: "list_all (later_put t c) ops" "d' = db_write d ops" using assms(1) by (auto simp: grows_def)
  have "batch_effect ops (keyB typ_i t k) = None"
    unfolding batch_effect_None_iff
  proof
    assume "keyB typ_i t k \<in> batch_key ` set ops"
    then obtain u z where "valid_tree u" "keyB typ_i t k = keyB typ_l u z"
      using ops(1) later_put_key by (fastforce simp: list_all_iff)
    then show False using keyB_eq_iff [of typ_i typ_l t u k z] assms(3) by simp
  qed
  then show ?thesis using ops(2) assms(2) by (simp add: index_at_def db_get_write)
qed

lemma grows_queue:
  assumes "grows t c d d'" "valid_tree t"
  shows "queue_upto d' t c = queue_upto d t c"
proof -
  let ?P = "\<lambda>e. case queue_time t (fst e) of Some ts \<Rightarrow> ts \<le> c | None \<Rightarrow> False"
  obtain ops where ops: "list_all (later_put t c) ops" "d' = db_write d ops" using assms(1) by (auto simp: grows_def)
  have late: "\<not> ?P (batch_key op, v)" if "later_put t c op" for op v
  proof -
    from that obtain u ts r v' where op: "batch_key op = keyB typ_l u (rowkeyLeaf ts (Some r))" "valid_tree u" "int63 ts" "length r = 4" "u = t \<longrightarrow> c < ts"
      by (auto simp: later_put_def)
    show ?thesis
    proof (cases "u = t")
      case True
      then show ?thesis using op by (simp add: queue_time_row)
    next
      case False
      then have "queue_time t (keyB typ_l u (rowkeyLeaf ts (Some r))) = None" using op queue_time_other assms(2) by blast
      then show ?thesis using op(1) by simp
    qed
  qed
  then have "filter ?P (db_write d ops) = filter ?P d" using ops(1) by (intro filter_db_write) (auto simp: list_all_iff)
  then show ?thesis using ops(2) by (simp add: queue_upto_def)
qed

section \<open>What a pass does to the database\<close>

text \<open>The keys of the batch are well-shaped, and so are the subtree rows to come.\<close>

definition tx_shaped :: "'sc logTreeTX \<Rightarrow> bool" where
  "tx_shaped lt \<longleftrightarrow> tx_inv (localTx lt) \<and> valid_tree (treeID lt) \<and> int63 (wrap64 (TreeRevision (root lt) + 1))"

lemma tx_shaped_emit [simp]: "tx_shaped (fst (lt_emit lt st)) = tx_shaped lt"
  by (simp add: tx_shaped_def lt_emit_def split_beta Let_def)

lemma tx_shaped_localTx: "tx_shaped lt \<Longrightarrow> tx_inv ltx \<Longrightarrow> tx_shaped (lt\<lparr>localTx := ltx\<rparr>)"
  by (simp add: tx_shaped_def)

lemma tx_shaped_begin:
  "beginForTree sc env w r u = Inr lt \<Longrightarrow> valid_tree u \<Longrightarrow> int63 (wrap64 (TreeRevision (root lt) + 1)) \<Longrightarrow> tx_shaped lt"
  by (auto simp: tx_shaped_def beginForTree_def Local_Begin_def tx_inv_def split_beta Let_def split: option.splits sum.splits if_splits)

lemma tx_shaped_Dequeue:
  assumes "lt_DequeueLeaves env w lt n c = (w', lt', res)" "tx_shaped lt" "db_inv (w_db w)"
  shows "tx_shaped lt'"
  using assms tx_inv_DequeueLeaves [OF assms(3), of "localTx lt"] tx_shaped_emit [of lt sDequeueLeaves]
  by (auto simp: lt_DequeueLeaves_def split_beta Let_def split: option.splits intro!: tx_shaped_localTx) (simp add: tx_shaped_def)

lemma tx_shaped_Update:
  assumes "UpdateSequencedLeaves env w lt leaves = (w', lt', res)" "tx_shaped lt"
  shows "tx_shaped lt'"
proof -
  have "tx_inv (fst (LocalTx_PutLeaves (localTx lt) (treeID lt) seqs ms hs))" for seqs ms hs
    using assms(2) tx_inv_PutLeaves by (simp add: tx_shaped_def)
  then show ?thesis
    using assms tx_shaped_emit [of lt sUpdateSequencedLeaves]
    by (auto simp: UpdateSequencedLeaves_def split_beta Let_def tx_shaped_def split: option.splits sum.splits)
qed

lemma tx_shaped_SetMerkleNodes: "SetMerkleNodes sc env w lt nodes = (w', lt', res) \<Longrightarrow> tx_shaped lt \<Longrightarrow> tx_shaped lt'"
  using tx_shaped_emit [of lt sSetMerkleNodes]
  by (auto simp: SetMerkleNodes_def split_beta Let_def tx_shaped_def split: option.splits)

lemma tx_shaped_StoreSignedLogRoot:
  assumes "StoreSignedLogRoot env w lt sth = (w', lt', res)" "tx_shaped lt"
  shows "tx_shaped lt'"
proof -
  have "tx_inv (fst (LocalTx_StoreRoot cd (localTx lt) (treeID lt) root' f))" for cd root' f
    using assms(2) tx_inv_StoreRoot by (simp add: tx_shaped_def)
  then show ?thesis
    using assms tx_shaped_emit [of lt sStoreSignedLogRoot]
    by (auto simp: StoreSignedLogRoot_def split_beta Let_def tx_shaped_def split: option.splits if_splits)
qed

lemma Commit_db_inv:
  assumes "lt_Commit sc env w lt = (w', lt', res)" "tx_shaped lt" "db_inv (w_db w)"
  shows "db_inv (w_db w')"
proof -
  obtain lt1 err where em: "lt_emit lt sCommit = (lt1, err)" by (rule prod.exhaust)
  then have lt1: "tx_shaped lt1" using assms(2) tx_shaped_emit [of lt sCommit] by simp
  have "tx_inv (localTx (fst (storeSubtrees env l ss)))" if "tx_shaped l" for l :: "'a logTreeTX" and ss
    using that tx_inv_PutSubtrees by (auto simp: tx_shaped_def storeSubtrees_def WriteRevision_def split_beta Let_def split: sum.splits)
  moreover have "tx_shaped (lt1\<lparr>subtreeCache := x\<rparr>)" for x using lt1 by (simp add: tx_shaped_def)
  ultimately have "tx_inv (localTx (fst (lt_Flush sc env lt1)))"
    using lt1 by (simp add: lt_Flush_def tx_shaped_def split: prod.splits sum.splits option.splits)
  then have "db_inv (fst (LocalTx_Commit (e_io env) (w_db w) (localTx (fst (lt_Flush sc env lt1)))))"
    by (rule db_inv_Commit [OF assms(3)])
  then show ?thesis
    using assms(1,3) em by (auto simp: lt_Commit_def split_beta split: option.splits if_splits sum.splits prod.splits)
qed

text \<open>A pass that gets through: the queue it found, and the one batch it wrote later.\<close>

lemma pass_effects:
  assumes "sequencing_pass sc cd t c u limit cutoff w queued w'" "db_inv (w_db w)" "valid_tree u" "int63 cutoff"
  obtains d1 d2 and leaves :: "LogLeaf list" and raws M where "grows t c (w_db w) d1" "grows t c d1 d2" "db_inv d1" "db_inv (w_db w')"
    "mapM (unmarshalLeaf cd) (map snd (take (nat limit) (queue_upto d1 u cutoff))) = Inr queued"
    "mapM (PutVarint 8) (map LeafIndex leaves) = Inr raws" "map LeafIdentityHash leaves = map LeafIdentityHash queued"
    "\<forall>l \<in> set leaves. 0 \<le> LeafIndex l \<and> in_int64 (LeafIndex l)"
    "w_db w' = db_write d2 (map BatchDelete (map fst (take (nat limit) (queue_upto d1 u cutoff))) @
       index_ops u raws (map (contents \<circ> MerkleLeafHash) leaves) (map (contents \<circ> LeafIdentityHash) leaves) @ M)"
    "list_all (rows {typ_r, typ_s} u) M"
  using assms(1)
proof cases
  case (runs_through env0 r lt w1 env1 w1' lt1 w2 env2 leaves w2' lt2 w3 env3 nodes w3' lt3 w4 env4 sth w4' lt4 w5 env5 lt5)
  note grow = runs_through(3,6,10,12,14) [THEN submissions_grow]
  let ?D = "map BatchDelete (map fst (take (nat limit) (queue_upto (w_db w1) u cutoff)))"
  let ?ms = "map (contents \<circ> MerkleLeafHash) leaves" and ?hs = "map (contents \<circ> LeafIdentityHash) leaves"
  have inv1: "db_inv (w_db w1)" by (rule grows_db_inv [OF grow(1) assms(2)])
  have lt: "treeID lt = u" "localTx lt = Local_Begin" "\<not> queuedLeaves lt"
    using runs_through(1) by (auto simp: beginForTree_def Let_def split_beta split: option.splits sum.splits if_splits)
  have lt1: "treeID lt1 = u" "\<not> queuedLeaves lt1" "w1' = w1" using DequeueLeaves_fields [OF runs_through(4)] lt by auto
  have deq: "mapM (unmarshalLeaf cd) (map snd (take (nat limit) (queue_upto (w_db w1) u cutoff))) = Inr queued" "batch (localTx lt1) = Some ?D"
    using Dequeue_batch [OF runs_through(4) inv1 _ assms(4) lt(2)] lt(1) assms(3) runs_through(5) by simp_all
  obtain raws where upd: "mapM (PutVarint 8) (map LeafIndex leaves) = Inr raws" "batch (localTx lt2) = Some (?D @ index_ops u raws ?ms ?hs)"
    using Update_batch [OF runs_through(7) deq(2)] lt1 by metis
  have w2: "w_db w2' = w_db w2" "treeID lt2 = u" "\<not> queuedLeaves lt2" using UpdateSequencedLeaves_fields [OF runs_through(7)] lt1 by auto
  have w3: "w3' = w3" "treeID lt3 = u" "\<not> queuedLeaves lt3" using SetMerkleNodes_fields [OF runs_through(11)] w2 by auto
  obtain raw where st: "batch (localTx lt4) = Some ((?D @ index_ops u raws ?ms ?hs) @ root_puts u sth raw)" "w4' = w4"
    using StoreSignedLogRoot_batch [OF runs_through(13)] upd(2) SetMerkleNodes_batch [OF runs_through(11)] w3(2) by metis
  have lt4: "treeID lt4 = u" "\<not> queuedLeaves lt4" using StoreSignedLogRoot_fields [OF runs_through(13)] w3 by metis+
  obtain S where S: "w_db w' = db_write (w_db w5) (((?D @ index_ops u raws ?ms ?hs) @ root_puts u sth raw) @ S)" "list_all (rows {typ_s} u) S"
    using Commit_batch [OF runs_through(15) lt4(2) st(1)] lt4(1) by metis
  have grown: "grows t c (w_db w1) (w_db w5)"
    using grow(2-5) lt1(3) w2(1) w3(1) st(2) by (metis grows_trans)
  have "tx_shaped lt4"
    using tx_shaped_begin [OF runs_through(1) assms(3) runs_through(2)] tx_shaped_Dequeue [OF runs_through(4) _ inv1]
      tx_shaped_Update [OF runs_through(7)] tx_shaped_SetMerkleNodes [OF runs_through(11)] tx_shaped_StoreSignedLogRoot [OF runs_through(13)] by blast
  then have "db_inv (w_db w')" by (rule Commit_db_inv [OF runs_through(15) _ grows_db_inv [OF grown inv1]])
  moreover have "list_all (rows {typ_r, typ_s} u) (root_puts u sth raw @ S)"
    using rows_mono [OF root_puts_rows] rows_mono [OF S(2)] by (auto simp: list_all_append)
  moreover have "w_db w' = db_write (w_db w5) (?D @ index_ops u raws ?ms ?hs @ root_puts u sth raw @ S)" using S(1) by simp
  ultimately show thesis
    using grow(1) grown inv1 deq(1) upd(1) runs_through(8,9)
    by (intro that [of "w_db w1" "w_db w5" leaves raws "root_puts u sth raw @ S"]) simp_all
qed

lemma queue_rows: "k \<in> fst ` set (queue_upto d t c) \<Longrightarrow> \<exists>z. k = keyB typ_l t z"
  using queue_time_Some_keyB by (fastforce simp: queue_upto_def split: option.splits)

lemma taken_rows: "list_all (rows {typ_l} t) (map BatchDelete (map fst (take n (queue_upto d t c))))"
  using queue_rows by (intro deletes_rows) (metis image_set in_set_takeD take_map)

text \<open>The index after a pass.\<close>

lemma pass_index:
  assumes "sequencing_pass sc cd t c u limit cutoff w queued w'" "db_inv (w_db w)" "valid_tree u" "valid_tree t" "int63 cutoff"
  shows "\<exists>seqs. length seqs = length queued \<and> (\<forall>s \<in> set seqs. 0 \<le> s) \<and>
    (\<forall>k. index_at (w_db w') typ_i t k =
      (case if t = u then map_of (rev (zip (map (contents \<circ> LeafIdentityHash) queued) seqs)) k else None of
         None \<Rightarrow> index_at (w_db w) typ_i t k | Some s \<Rightarrow> Inr s))"
proof -
  obtain d1 d2 and leaves :: "LogLeaf list" and raws M where eff: "grows t c (w_db w) d1" "grows t c d1 d2" "mapM (PutVarint 8) (map LeafIndex leaves) = Inr raws"
      "map LeafIdentityHash leaves = map LeafIdentityHash queued" "\<forall>l \<in> set leaves. 0 \<le> LeafIndex l \<and> in_int64 (LeafIndex l)"
      "list_all (rows {typ_r, typ_s} u) M" "db_inv d1"
      "w_db w' = db_write d2 (map BatchDelete (map fst (take (nat limit) (queue_upto d1 u cutoff))) @
         index_ops u raws (map (contents \<circ> MerkleLeafHash) leaves) (map (contents \<circ> LeafIdentityHash) leaves) @ M)"
    using pass_effects [OF assms(1-3,5)] by metis
  let ?ms = "map (contents \<circ> MerkleLeafHash) leaves" and ?hs = "map (contents \<circ> LeafIdentityHash) leaves"
  have hs: "?hs = map (contents \<circ> LeafIdentityHash) queued" using arg_cong [OF eff(4), of "map contents"] by simp
  have wf: "db_wf (w_db w)" "db_wf d1" "db_wf d2" using assms(2) eff(7) grows_db_inv [OF eff(2,7)] by (simp_all add: db_invD)
  have in64: "list_all in_int64 (map LeafIndex leaves)" using eff(5) by (simp add: list_all_iff)
  have batch: "index_at (w_db w') typ_i t k = index_at (db_write d2 (index_ops u raws ?ms ?hs)) typ_i t k" for k
    using rows_effect [OF taken_rows, of typ_i u t "nat limit" d1 cutoff k] rows_effect [OF eff(6), of typ_i t k] assms(3,4) wf(3)
    by (auto simp: index_at_def eff(8) db_get_write batch_effect_append split: option.splits)
  have before: "index_at d2 typ_i t k = index_at (w_db w) typ_i t k" for k
    using grows_index [OF eff(2) wf(2) assms(4)] grows_index [OF eff(1) wf(1) assms(4)] by simp
  show ?thesis
  proof (intro exI [of _ "map LeafIndex leaves"] conjI allI)
    show "length (map LeafIndex leaves) = length queued" using arg_cong [OF eff(4), of length] by simp
    show "\<forall>s \<in> set (map LeafIndex leaves). 0 \<le> s" using eff(5) by simp
    show "index_at (w_db w') typ_i t k = (case if t = u then map_of (rev (zip (map (contents \<circ> LeafIdentityHash) queued) (map LeafIndex leaves))) k
        else None of None \<Rightarrow> index_at (w_db w) typ_i t k | Some s \<Rightarrow> Inr s)" for k
      unfolding batch before [symmetric] hs [symmetric]
      by (rule index_at_write(2) [OF in64 eff(3) wf(3) assms(3,4)]) simp_all
  qed
qed

text \<open>The queue up to a later time goes on after the queue up to an earlier one.\<close>

lemma sorted_filter_split: "sorted (map f xs) \<Longrightarrow> xs = filter (\<lambda>x. f x \<le> c) xs @ filter (\<lambda>x. \<not> f x \<le> c) xs" for c :: "'a :: linorder"
proof (induction xs)
  case (Cons x xs)
  show ?case
  proof (cases "f x \<le> c")
    case True
    then show ?thesis using Cons by simp
  next
    case False
    then have "filter (\<lambda>x. f x \<le> c) xs = []" "filter (\<lambda>x. \<not> f x \<le> c) xs = xs" using Cons.prems by (auto simp: filter_empty_conv filter_id_conv)
    then show ?thesis using False by simp
  qed
qed simp

lemma queue_upto_split:
  assumes "db_inv d" "valid_tree t" "c \<le> c'"
  obtains B where "queue_upto d t c' = queue_upto d t c @ B"
proof -
  let ?f = "\<lambda>e. the (queue_time t (fst e))"
  have "filter (\<lambda>e. ?f e \<le> c) (queue_upto d t c') = queue_upto d t c"
    using assms(3) by (auto simp: queue_upto_def filter_filter intro!: filter_cong split: option.splits)
  with sorted_filter_split [OF queue_upto_sorted [OF assms(1,2)], of c' c] that show thesis by metis
qed

lemma queue_upto_distinct: "db_inv d \<Longrightarrow> distinct (map fst (queue_upto d t c))"
  by (simp add: db_inv_def db_wf_def strict_sorted_iff queue_upto_def distinct_map_filter)

lemma filter_not_taken_before:
  assumes "distinct (map fst (A @ B))"
  shows "filter (\<lambda>e. fst e \<notin> fst ` set (take n (A @ B))) A = drop n A"
proof -
  have "fst e \<in> fst ` set (take n (A @ B)) \<longleftrightarrow> fst e \<in> fst ` set (take n A)" if "e \<in> set A" for e
  proof -
    have "fst e \<notin> fst ` set (take (n - length A) B)" using that assms set_take_subset [of "n - length A" B] by (auto simp: disjoint_iff)
    then show ?thesis by (simp add: image_Un)
  qed
  then have "filter (\<lambda>e. fst e \<notin> fst ` set (take n (A @ B))) A = filter (\<lambda>e. fst e \<notin> fst ` set (take n A)) A"
    by (intro filter_cong) auto
  with filter_not_taken [of A n] assms show ?thesis by simp
qed

lemma mapM_take_append:
  assumes "mapM f (map g (take n (A @ B))) = Inr ys"
  obtains xs zs where "ys = xs @ zs" "mapM f (map g (take n A)) = Inr xs" "n < length A \<longrightarrow> zs = []"
proof
  let ?m = "length (take n A)"
  show "ys = take ?m ys @ drop ?m ys" by simp
  have all: "list_all2 (\<lambda>x y. f x = Inr y) (map g (take n A) @ map g (take (n - length A) B)) ys"
    using assms by (simp add: mapM_Inr_iff)
  then show "mapM f (map g (take n A)) = Inr (take ?m ys)"
    using list_all2_takeI [OF all, of ?m] by (simp add: mapM_Inr_iff)
  show "n < length A \<longrightarrow> drop ?m ys = []" using list_all2_lengthD [OF all] by auto
qed

lemma own_pass_queue:
  assumes "sequencing_pass sc cd t c t limit cutoff w queued w'" "db_inv (w_db w)" "valid_tree t" "c \<le> cutoff" "int63 cutoff"
  defines "Q \<equiv> queue_upto (w_db w) t c"
  obtains xs zs where "db_inv (w_db w')" "queue_upto (w_db w') t c = drop (nat limit) Q" "queued = xs @ zs"
    "mapM (unmarshalLeaf cd) (map snd (take (nat limit) Q)) = Inr xs" "nat limit < length Q \<longrightarrow> zs = []"
proof -
  obtain d1 d2 and leaves :: "LogLeaf list" and raws M where eff: "grows t c (w_db w) d1" "grows t c d1 d2" "db_inv d1" "db_inv (w_db w')"
      "mapM (unmarshalLeaf cd) (map snd (take (nat limit) (queue_upto d1 t cutoff))) = Inr queued" "list_all (rows {typ_r, typ_s} t) M"
      "w_db w' = db_write d2 (map BatchDelete (map fst (take (nat limit) (queue_upto d1 t cutoff))) @
         index_ops t raws (map (contents \<circ> MerkleLeafHash) leaves) (map (contents \<circ> LeafIdentityHash) leaves) @ M)"
    using pass_effects [OF assms(1-3,5)] by metis
  let ?D = "map BatchDelete (map fst (take (nat limit) (queue_upto d1 t cutoff)))"
  let ?I = "index_ops t raws (map (contents \<circ> MerkleLeafHash) leaves) (map (contents \<circ> LeafIdentityHash) leaves)"
  have Q: "queue_upto d1 t c = Q" "queue_upto d2 t c = Q"
    using grows_queue [OF eff(1) assms(3)] grows_queue [OF eff(2) assms(3)] by (simp_all add: Q_def)
  obtain B where B: "queue_upto d1 t cutoff = Q @ B" using queue_upto_split [OF eff(3) assms(3,4)] Q(1) by metis
  have "list_all (rows {typ_m, typ_i, typ_r, typ_s} t) (?I @ M)"
    using rows_mono [OF index_ops_rows] rows_mono [OF eff(6)] by (auto simp: list_all_append)
  from queue_untouched [OF this _ assms(3,3)]
  have "queue_upto (w_db w') t c = queue_upto (db_write d2 ?D) t c" by (simp add: eff(7) db_write_def)
  also have "\<dots> = filter (\<lambda>e. fst e \<notin> fst ` set (take (nat limit) (Q @ B))) Q"
    unfolding queue_upto_delete_keys B Q(2) by (simp only: set_map)
  also have "\<dots> = drop (nat limit) Q" using queue_upto_distinct [OF eff(3), of t cutoff] B by (intro filter_not_taken_before) simp
  finally have "queue_upto (w_db w') t c = drop (nat limit) Q" .
  with mapM_take_append [OF eff(5) [unfolded B]] that eff(4) show thesis by metis
qed

lemma other_pass_queue:
  assumes "sequencing_pass sc cd t c u limit cutoff w queued w'" "db_inv (w_db w)" "valid_tree u" "valid_tree t" "u \<noteq> t" "int63 cutoff"
  shows "db_inv (w_db w')" "queue_upto (w_db w') t c = queue_upto (w_db w) t c"
proof -
  obtain d1 d2 and leaves :: "LogLeaf list" and raws M where eff: "grows t c (w_db w) d1" "grows t c d1 d2" "db_inv (w_db w')" "list_all (rows {typ_r, typ_s} u) M"
      "w_db w' = db_write d2 (map BatchDelete (map fst (take (nat limit) (queue_upto d1 u cutoff))) @
         index_ops u raws (map (contents \<circ> MerkleLeafHash) leaves) (map (contents \<circ> LeafIdentityHash) leaves) @ M)"
    using pass_effects [OF assms(1-3,6)] by metis
  then show "db_inv (w_db w')" by simp
  have "list_all (rows UNIV u) (map BatchDelete (map fst (take (nat limit) (queue_upto d1 u cutoff))) @
      index_ops u raws (map (contents \<circ> MerkleLeafHash) leaves) (map (contents \<circ> LeafIdentityHash) leaves) @ M)"
    unfolding list_all_append by (intro conjI rows_mono [OF taken_rows] rows_mono [OF index_ops_rows] rows_mono [OF eff(4)] subset_UNIV)
  from queue_untouched [OF this _ assms(4,3)] assms(5)
  show "queue_upto (w_db w') t c = queue_upto (w_db w) t c"
    using grows_queue [OF eff(1) assms(4)] grows_queue [OF eff(2) assms(4)] by (simp add: eff(5))
qed

section \<open>Nothing starves\<close>

lemma map_of_rev_zip_None:
  assumes "map_of (rev (zip ks vs)) k = None" "length ks = length vs"
  shows "k \<notin> set ks"
proof -
  have "set (map fst (rev (zip ks vs))) = set ks" using assms(2) by (simp add: rev_map [symmetric])
  then show ?thesis using assms(1) by (metis list.set_map map_of_eq_None_iff)
qed

lemma history_queue:
  assumes "pass_history sc cd t c limit w0 handed w" "db_inv (w_db w0)" "valid_tree t"
  defines "Q \<equiv> queue_upto (w_db w0) t c"
  shows "db_inv (w_db w) \<and> queue_upto (w_db w) t c = drop (length handed * nat limit) Q \<and>
    (\<exists>xs. mapM (unmarshalLeaf cd) (map snd (take (length handed * nat limit) Q)) = Inr xs \<and> prefix xs (concat handed) \<and>
       (length handed * nat limit < length Q \<longrightarrow> xs = concat handed))"
  using assms(1)
proof (induction rule: pass_history.induct)
  case at_first
  then show ?case using assms(2) by (simp add: Q_def)
next
  case (submitted handed w w')
  note grow = submissions_grow [OF submitted(2)]
  show ?case using submitted(3) grows_db_inv [OF grow] grows_queue [OF grow assms(3)] by simp
next
  case (failed handed w env env' r u envs ops w' lt e)
  then show ?case using failed_transaction_keeps_db [OF failed(2)] by simp
next
  case (other_tree handed w u n cutoff queued w')
  then show ?case using other_pass_queue [OF other_tree(2) _ other_tree(4) assms(3) other_tree(3,5)] by simp
next
  case (own_tree handed w cutoff queued w')
  let ?k = "length handed * nat limit" and ?n = "nat limit"
  from own_tree(5) obtain xs where xs: "mapM (unmarshalLeaf cd) (map snd (take ?k Q)) = Inr xs" "prefix xs (concat handed)" "?k < length Q \<longrightarrow> xs = concat handed"
    by blast
  have w: "db_inv (w_db w)" "queue_upto (w_db w) t c = drop ?k Q" using own_tree(5) by simp_all
  obtain ys zs where pass: "db_inv (w_db w')" "queue_upto (w_db w') t c = drop ?n (drop ?k Q)" "queued = ys @ zs"
      "mapM (unmarshalLeaf cd) (map snd (take ?n (drop ?k Q))) = Inr ys" "?n < length (drop ?k Q) \<longrightarrow> zs = []"
    using own_pass_queue [OF own_tree(2) w(1) assms(3) own_tree(3,4)] w(2) by metis
  have k: "length (handed @ [queued]) * ?n = ?k + ?n" by simp
  have taken: "mapM (unmarshalLeaf cd) (map snd (take (?k + ?n) Q)) = Inr (xs @ ys)"
    using xs(1) pass(4) unfolding mapM_Inr_iff take_add map_append by (rule list_all2_appendI)
  have "prefix (xs @ ys) (concat (handed @ [queued]))"
  proof (cases "?k < length Q")
    case True
    then show ?thesis using xs(3) pass(3) by simp
  next
    case False
    then have "ys = []" using pass(4) by simp
    then show ?thesis using xs(2) by (simp add: prefix_prefix)
  qed
  moreover have "xs @ ys = concat (handed @ [queued])" if "?k + ?n < length Q"
    using that xs(3) pass(3,5) by simp
  moreover have "queue_upto (w_db w') t c = drop (?k + ?n) Q" using pass(2) by (simp add: add.commute)
  ultimately show ?case unfolding k using taken pass(1) by blast
qed simp

lemma history_index:
  assumes "pass_history sc cd t c limit w0 handed w" "db_inv (w_db w0)" "valid_tree t"
  shows "\<forall>l \<in> set (concat handed). \<exists>s \<ge> 0. index_at (w_db w) typ_i t (contents (LeafIdentityHash l)) = Inr s"
  using assms(1)
proof (induction rule: pass_history.induct)
  case (submitted handed w w')
  have "db_wf (w_db w)" using history_queue [OF submitted(1) assms(2,3)] db_invD by blast
  then show ?case using submitted(3) grows_index [OF submissions_grow [OF submitted(2)] _ assms(3)] by simp
next
  case (failed handed w env env' r u envs ops w' lt e)
  then show ?case using failed_transaction_keeps_db [OF failed(2)] by simp
next
  case (other_tree handed w u n cutoff queued w')
  have "db_inv (w_db w)" using history_queue [OF other_tree(1) assms(2,3)] by blast
  from pass_index [OF other_tree(2) this other_tree(4) assms(3) other_tree(5)]
  have "index_at (w_db w') typ_i t k = index_at (w_db w) typ_i t k" for k using other_tree(3) by auto
  then show ?case using other_tree(6) by simp
next
  case (own_tree handed w cutoff queued w')
  have "db_inv (w_db w)" using history_queue [OF own_tree(1) assms(2,3)] by blast
  from pass_index [OF own_tree(2) this assms(3,3) own_tree(4)]
  obtain seqs where seqs: "length seqs = length queued" "\<forall>s \<in> set seqs. 0 \<le> s"
      "\<forall>k. index_at (w_db w') typ_i t k = (case map_of (rev (zip (map (contents \<circ> LeafIdentityHash) queued) seqs)) k of
         None \<Rightarrow> index_at (w_db w) typ_i t k | Some s \<Rightarrow> Inr s)"
    by auto
  show ?case
  proof
    fix l assume l: "l \<in> set (concat (handed @ [queued]))"
    let ?k = "contents (LeafIdentityHash l)" and ?m = "map_of (rev (zip (map (contents \<circ> LeafIdentityHash) queued) seqs))"
    show "\<exists>s \<ge> 0. index_at (w_db w') typ_i t ?k = Inr s"
    proof (cases "?m ?k")
      case None
      then have "?k \<notin> set (map (contents \<circ> LeafIdentityHash) queued)" by (rule map_of_rev_zip_None) (simp add: seqs(1))
      then have "l \<in> set (concat handed)" using l by auto
      with own_tree(5) have "\<exists>s \<ge> 0. index_at (w_db w) typ_i t ?k = Inr s" by blast
      then show ?thesis using seqs(3) None by simp
    next
      case (Some s)
      then have "s \<in> set seqs" by (auto dest!: map_of_SomeD set_zip_rightD)
      then show ?thesis using seqs(2,3) Some by auto
    qed
  qed
qed simp_all

text \<open>
  C8. Leaves are sequenced in the order of their queue times, and none starves. Of the leaves queued up to the time \<open>c\<close>, every pass over
  the tree takes the \<open>limit\<close> oldest ones left, so that after \<open>k\<close> passes the first \<open>k * limit\<close> of them have been handed to the sequencer,
  in order and before any other leaf, are gone from the queue, and are found in the identity index; the others still wait. It does not matter how
  many leaves are submitted later, between the calls of a pass too, which attempts fail, where the process restarts, and what the passes over
  other trees do.
\<close>

theorem waiting_leaves_are_sequenced_in_order:
  assumes "pass_history sc cd t c limit w handed w'" "db_inv (w_db w)" "valid_tree t"
  shows "queue_upto (w_db w') t c = drop (length handed * nat limit) (queue_upto (w_db w) t c) \<and>
    (\<exists>leaves. mapM (unmarshalLeaf cd) (map snd (take (length handed * nat limit) (queue_upto (w_db w) t c))) = Inr leaves \<and>
       prefix leaves (concat handed) \<and>
       (\<forall>l \<in> set leaves. \<exists>s \<ge> 0. GetSequenceByIdentityHash no_faults (w_db w') t [contents (LeafIdentityHash l)] = Inr [s]))"
proof -
  obtain leaves where leaves: "mapM (unmarshalLeaf cd) (map snd (take (length handed * nat limit) (queue_upto (w_db w) t c))) = Inr leaves"
      "prefix leaves (concat handed)" "queue_upto (w_db w') t c = drop (length handed * nat limit) (queue_upto (w_db w) t c)"
    using history_queue [OF assms] by blast
  have "\<exists>s \<ge> 0. GetSequenceByIdentityHash no_faults (w_db w') t [contents (LeafIdentityHash l)] = Inr [s]" if "l \<in> set leaves" for l
  proof -
    have "l \<in> set (concat handed)" using that leaves(2) set_mono_prefix by blast
    then obtain s where "s \<ge> 0" "index_at (w_db w') typ_i t (contents (LeafIdentityHash l)) = Inr s" using history_index [OF assms] by blast
    then show ?thesis by (intro exI [of _ s]) (simp add: GetSequenceByIdentityHash_def getSequenceBy_single)
  qed
  with leaves show ?thesis by blast
qed

section \<open>A concrete pass\<close>

text \<open>The run of \<open>Sequencing\<close> as a pass, and a restart after it.\<close>

lemma queued_pass: obtains w' where "sequencing_pass sample_sc sample_codec 5 100 5 10 100 queued_world [sample_leaf [7]] w'"
proof -
  obtain w2 ops where upd: "UpdateSequencedLeaves one_leaf_env queued_world (sample_lt sDequeueLeaves (Some [BatchDelete queue_key]) [] False) [sample_indexed 1] =
      (w2, sample_lt sUpdateSequencedLeaves (Some ops) [Some [1]] False, Inr ())"
    by (rule queued_update)
  have "(1 :: 8 word) \<noteq> 0" by simp
  note store = step_store [OF this]
  have "int63 (wrap64 (TreeRevision (root (sample_lt sBegin (Some []) [] False)) + 1))" "e_codec sample_env = sample_codec"
      "map LeafIdentityHash [sample_indexed 1] = map LeafIdentityHash [sample_leaf [7]]"
      "\<forall>l \<in> set [sample_indexed 1]. 0 \<le> LeafIndex l \<and> in_int64 (LeafIndex l)"
    by (simp_all add: sample_lt_def int63_def sample_env_def sample_indexed_def sample_leaf_def in_int64_def)
  from runs_through [OF queued_begin this(1) no_submission queued_dequeue this(2) no_submission upd this(3,4) no_submission sample_nodes no_submission
      store no_submission sample_commit]
  show thesis by (rule that)
qed

theorem waiting_leaves_are_sequenced_in_order_witness:
  "\<exists>w' :: world. queue_upto (w_db queued_world) 5 100 \<noteq> [] \<and> queue_upto (w_db w') 5 100 = [] \<and>
     (\<exists>s \<ge> 0. GetSequenceByIdentityHash no_faults (w_db w') 5 [[]] = Inr [s])"
proof -
  obtain w' where pass: "sequencing_pass sample_sc sample_codec 5 100 5 10 100 queued_world [sample_leaf [7]] w'" by (rule queued_pass)
  have bounds: "valid_tree 5" "int63 100" by (simp_all add: valid_tree_def int63_def)
  have "pass_history sample_sc sample_codec 5 100 10 queued_world ([] @ [[sample_leaf [7]]]) w'"
    by (rule own_tree [OF at_first pass _ bounds(2)]) simp
  then have "pass_history sample_sc sample_codec 5 100 10 queued_world [[sample_leaf [7]]] (w'\<lparr>w_cache := leafCache\<rparr>)"
    using restart by fastforce
  from waiting_leaves_are_sequenced_in_order [OF this queued_world_inv bounds(1)]
  have "queue_upto (w_db w') 5 100 = []" "\<exists>s \<ge> 0. GetSequenceByIdentityHash no_faults (w_db w') 5 [[]] = Inr [s]"
    by (simp_all add: queued_world_queue sample_codec_def sample_leaf_def)
  then show ?thesis using queued_world_queue by auto
qed

end
