(* ===== verification/ReadProps.thy ===== *)
theory ReadProps
  imports ReadTreeTx RemoteLog LocalIndex
begin

text \<open>
  What the read paths check and return: leaves read by index are compared with the tree's nodes and come
  back in index order; leaves read by hash are compared with the requested hashes position by position,
  which only works when the request is in sequence order.
\<close>

section \<open>Reading by index\<close>

lemma check_indexes_Inr: "check_indexes n xs = Inr () \<longleftrightarrow> (\<forall>x \<in> set xs. 0 \<le> x \<and> x < n)"
  by (induction xs) auto

lemma fst_GetLeaves: "fst (Remote_GetLeaves cd http r t seqs) = sort seqs"
  by (auto simp: Remote_GetLeaves_def Let_def sort_key_id_if_sorted sorted_sort_id)

lemma check_hashes_Inr:
  "length nodes = length leaves \<Longrightarrow> check_hashes nodes leaves indexes = Inr () \<Longrightarrow>
   list_all2 (\<lambda>n l. \<exists>leaf. l = Some leaf \<and> contents (Hash n) = contents (MerkleLeafHash leaf)) nodes leaves"
proof (induction nodes leaves indexes rule: check_hashes.induct)
  case (2 node nodes leaf leaves indexes)
  then show ?case by (auto simp: bytes_Equal_def split: if_splits list.splits)
qed auto

lemma leaf_node_id: "int63 i \<Longrightarrow> NewNodeIDForTreeCoords 0 i 64 = Inr \<lparr>Path = be8 i, PrefixLenBits = 64\<rparr>"
  by (simp add: NewNodeIDForTreeCoords_def int63_def take_bit_int_eq_self)

text \<open>
  C20. Whatever the remote database returns, leaves that \<open>GetLeavesByIndex\<close> passes on are within the tree, in increasing
  index order, and each has the Merkle leaf hash of the tree node at its index; the caller's slice of
  indexes is sorted on the way.
\<close>

theorem GetLeavesByIndex_verifies_leaves:
  assumes "GetLeavesByIndex sc env w rolt indexes = (indexes', rolt', Inr leaves)" "in_int64 (TreeSize (root rolt))"
  shows "indexes' = sort indexes \<and> (\<forall>i \<in> set indexes. 0 \<le> i \<and> i < TreeSize (root rolt)) \<and>
    (\<exists>c nodes. scGetNodes sc (subtreeCache rolt) (map (\<lambda>i. \<lparr>Path = be8 i, PrefixLenBits = 64\<rparr>) (sort indexes))
         (rolt_getSubtrees env w rolt (TreeRevision (root rolt))) = (c, Inr nodes) \<and>
       list_all2 (\<lambda>n l. \<exists>leaf. l = Some leaf \<and> contents (Hash n) = contents (MerkleLeafHash leaf)) nodes leaves)"
proof -
  have range: "\<forall>i \<in> set indexes. 0 \<le> i \<and> i < TreeSize (root rolt)"
    using assms(1) check_indexes_Inr [of "TreeSize (root rolt)" indexes]
    by (cases "check_indexes (TreeSize (root rolt)) indexes") (auto simp: GetLeavesByIndex_def)
  then have "int63 i" if "i \<in> set indexes" for i using that assms(2) by (force simp: int63_def in_int64_def)
  then have ids: "mapM (\<lambda>i. NewNodeIDForTreeCoords 0 i 64) (sort indexes) =
      Inr (map (\<lambda>i. \<lparr>Path = be8 i, PrefixLenBits = 64\<rparr>) (sort indexes))"
    by (intro mapM_map_Inr) (simp add: leaf_node_id)
  obtain got where got: "Remote_GetLeaves (e_codec env) (e_http env) (remote rolt) (treeID rolt) indexes = (sort indexes, got)"
    using fst_GetLeaves prod.collapse by metis
  obtain c res where nodes: "scGetNodes sc (subtreeCache rolt) (map (\<lambda>i. \<lparr>Path = be8 i, PrefixLenBits = 64\<rparr>) (sort indexes))
      (rolt_getSubtrees env w rolt (TreeRevision (root rolt))) = (c, res)" by (rule prod.exhaust)
  have chk: "check_indexes (TreeSize (root rolt)) indexes = Inr ()" using range check_indexes_Inr by blast
  have "indexes' = sort indexes \<and> (\<exists>ns. res = Inr ns \<and> length ns = length leaves \<and> check_hashes ns leaves (sort indexes) = Inr ())"
    using assms(1) unfolding GetLeavesByIndex_def chk got GetMerkleNodes_def ReadRevision_def
    by (auto simp: ids nodes Let_def split: sum.splits if_splits)
  then show ?thesis using range nodes check_hashes_Inr by blast
qed

section \<open>Reading by hash\<close>

text \<open>The check of \<open>GetLeavesByHash\<close> on the hashes that have an index in bounds.\<close>

lemma check_requested_iff:
  assumes "length hs = length temp" "length leaves = length (filter (in_bounds n) temp)"
  shows "check_requested n hs temp (map Some leaves) = Inr [] \<longleftrightarrow>
    map fst (filter (\<lambda>p. in_bounds n (snd p)) (zip hs temp)) = map (contents \<circ> MerkleLeafHash) leaves"
    "check_requested n hs temp (map Some leaves) = Inr rest \<Longrightarrow> rest = []"
  using assms
proof (induction hs temp arbitrary: leaves rule: list_induct2)
  case Nil
  { case 1 then show ?case by simp next case 2 then show ?case by simp }
next
  case (Cons h hs i temp)
  {
    case 1
    show ?case
    proof (cases "in_bounds n i")
      case True
      then show ?thesis using Cons.IH(1) 1 by (cases leaves) (auto simp: bytes_Equal_def)
    next
      case False
      then show ?thesis using Cons.IH(1) [of leaves] 1 by simp
    qed
  next
    case 2
    show ?case
    proof (cases "in_bounds n i")
      case True
      then show ?thesis using Cons.IH(2) 2 by (cases leaves) (auto simp: bytes_Equal_def split: if_splits)
    next
      case False
      then show ?thesis using Cons.IH(2) [of leaves] 2 by simp
    qed
  }
qed

lemma zip_filter_hashes:
  "length hs = length temp \<Longrightarrow> (\<forall>(h, i) \<in> set (zip hs temp). P i \<longrightarrow> g i = h) \<Longrightarrow>
   map fst (filter (\<lambda>p. P (snd p)) (zip hs temp)) = map g (filter P temp)"
  by (induction hs temp rule: list_induct2) auto

text \<open>
  C21. Suppose the index and the stored log are right: every requested hash that has a sequence number in bounds is the
  Merkle leaf hash of the leaf stored there, and leaves have different hashes. Then \<open>GetLeavesByHash\<close> succeeds exactly when
  these sequence numbers are increasing in the order of the request; any other order of the same valid
  hashes is answered with an error about an unexpected Merkle hash.
\<close>

theorem GetLeavesByHash_needs_sequence_order:
  assumes "holds_log (e_codec env) (e_http env) (remote rolt) (treeID rolt) L"
    and "TreeSize (root rolt) \<le> int (length L)" "in_int64 (TreeSize (root rolt))"
    and "GetSequenceByMerkleHash (e_io env) (w_db w) (treeID rolt) hashes = Inr temp" "length temp = length hashes"
    and "\<forall>(h, i) \<in> set (zip hashes temp). in_bounds (TreeSize (root rolt)) i \<longrightarrow> contents (MerkleLeafHash (L ! nat i)) = h"
    and "distinct (map (contents \<circ> MerkleLeafHash) L)"
  shows "if sorted (filter (in_bounds (TreeSize (root rolt))) temp)
    then GetLeavesByHash env w rolt hashes b =
      Inr (map (\<lambda>i. Some (L ! nat i)) (filter (in_bounds (TreeSize (root rolt))) temp))
    else \<exists>e. GetLeavesByHash env w rolt hashes b = Inl e"
proof -
  let ?n = "TreeSize (root rolt)"
  let ?I = "filter (in_bounds ?n) temp"
  let ?H = "\<lambda>i. contents (MerkleLeafHash (L ! nat i))"
  have I: "\<forall>i \<in> set ?I. 0 \<le> i \<and> i < int (length L) \<and> i < 2 ^ 63"
    using assms(2,3) by (auto simp: in_bounds_def in_int64_def)
  then have got: "snd (Remote_GetLeaves (e_codec env) (e_http env) (remote rolt) (treeID rolt) ?I) =
      Inr (map Some (map (\<lambda>i. L ! nat i) (sort ?I)))"
    using GetLeaves_log [OF assms(1), of ?I] by (simp add: comp_def)
  have inj: "inj_on ?H (set ?I)"
  proof (rule inj_onI)
    fix x y assume xy: "x \<in> set ?I" "y \<in> set ?I" "?H x = ?H y"
    then have "nat x = nat y"
      using I assms(7) by (auto simp: distinct_conv_nth) (metis nat_less_iff)
    moreover have "0 \<le> x" "0 \<le> y" using xy I by blast+
    ultimately show "x = y" by (simp add: eq_nat_nat_iff)
  qed
  let ?chk = "check_requested ?n hashes temp (map Some (map (\<lambda>i. L ! nat i) (sort ?I)))"
  have "?chk = Inr [] \<longleftrightarrow> map ?H ?I = map ?H (sort ?I)"
    using check_requested_iff(1) [of hashes temp "map (\<lambda>i. L ! nat i) (sort ?I)" ?n] assms(5)
      zip_filter_hashes [of hashes temp "in_bounds ?n" ?H] assms(6) by (simp add: comp_def)
  also have "\<dots> \<longleftrightarrow> ?I = sort ?I" using inj map_inj_on [of ?H ?I "sort ?I"] by (metis set_sort sup.idem)
  also have "\<dots> \<longleftrightarrow> sorted ?I" by (metis sorted_sort sorted_sort_id)
  finally have chk: "?chk = Inr [] \<longleftrightarrow> sorted ?I" .
  have rest: "rest = []" if "?chk = Inr rest" for rest
    using check_requested_iff(2) [of hashes temp "map (\<lambda>i. L ! nat i) (sort ?I)" ?n rest] assms(5) that by simp
  have eq: "GetLeavesByHash env w rolt hashes b = (case ?chk of Inl e \<Rightarrow> Inl e | Inr _ \<Rightarrow> Inr (map Some (map (\<lambda>i. L ! nat i) (sort ?I))))"
    unfolding GetLeavesByHash_def assms(4) by (simp add: got Let_def split: sum.splits) (use rest in auto)
  show ?thesis
    unfolding eq using chk rest by (auto simp: comp_def sorted_sort_id split: sum.splits)
qed

definition sample_reader :: "int \<Rightarrow> unit readOnlyLogTreeTX" where
  "sample_reader n =
    \<lparr>remote = sample_remote, subtreeCache = (), treeID = 5, root = zero_SignedLogRoot\<lparr>TreeSize := n\<rparr>,
     front = empty_frontier, closed = False\<rparr>"

definition sample_index_world :: world where
  "sample_index_world =
    \<lparr>w_db = [(keyB typ_m 5 [0], [0]), (keyB typ_m 5 [1], [2])], w_cache = leafCache, w_uploads = []\<rparr>"

definition sample_read_env :: env where
  "sample_read_env =
    \<lparr>e_codec = sample_codec, e_io = no_faults, e_http = sample_http sample_remote [object_name 5 0 \<mapsto> [0, 1]],
     e_b2 = \<lparr>bucketErr = \<lambda>_. None, uploadErr = \<lambda>_. None\<rparr>, e_ord = id, e_now = 0, e_noise = \<lambda>_. None, e_evict = Inr []\<rparr>"

lemma sample_reader_log:
  "holds_log (e_codec sample_read_env) (e_http sample_read_env) (remote (sample_reader n)) (treeID (sample_reader n))
     [sample_indexed 0, sample_indexed 1]"
  by (auto simp: holds_log_def sample_read_env_def sample_reader_def getBatch_serves [OF serves_sample] object_name_inj less_Suc_eq)
     (auto simp: sample_codec_def sample_indexed_def)

lemma sample_sequences:
  "GetSequenceByMerkleHash (e_io sample_read_env) (w_db sample_index_world) (treeID (sample_reader n)) [[1], [0]] = Inr [1, 0]"
proof -
  have "PutVarint 8 0 = Inr [0]" "PutVarint 8 1 = Inr [2]"
    by (simp_all add: PutVarint_def zigzag_def uvarint_bytes.simps)
  then have "decode_index [0] = Inr 0" "decode_index [2] = Inr 1"
    using idx.decode_encode [of 0 "[0]"] idx.decode_encode [of 1 "[2]"] by (simp_all add: in_int64_def)
  then show ?thesis
    by (simp add: GetSequenceByMerkleHash_def getSequenceBy_mapM index_at_def sample_read_env_def sample_index_world_def
        sample_reader_def db_get_def)
qed

theorem GetLeavesByHash_needs_sequence_order_witness:
  "\<exists>e. GetLeavesByHash sample_read_env sample_index_world (sample_reader 2) [[1], [0]] False = Inl e"
  using GetLeavesByHash_needs_sequence_order [OF sample_reader_log _ _ sample_sequences, of 2 False]
  by (simp add: sample_reader_def in_bounds_def in_int64_def sample_indexed_def)

text \<open>A subtree cache whose node at a leaf position has the last byte of the path as its hash.\<close>

definition sample_node_cache :: "unit subtree_cache_ops" where
  "sample_node_cache =
    \<lparr>scHasher = None, scNew = (), scSetNodeHash = \<lambda>_ _ _ _. ((), Inr ()),
     scGetNodes = \<lambda>_ ids _. ((), Inr (map (\<lambda>i. \<lparr>Node_NodeID = i, Hash = Some [last (Path i)], NodeRevision = 0\<rparr>) ids)),
     scFlush = \<lambda>_. ((), Inr None)\<rparr>"

theorem GetLeavesByIndex_verifies_leaves_witness:
  "\<exists>rolt'. GetLeavesByIndex sample_node_cache sample_read_env sample_index_world (sample_reader 2) [1, 0] =
     ([0, 1], rolt', Inr [Some (sample_indexed 0), Some (sample_indexed 1)]) \<and>
     (\<exists>nodes :: Node list. list_all2 (\<lambda>n l. \<exists>leaf. l = Some leaf \<and> contents (Hash n) = contents (MerkleLeafHash leaf)) nodes
       [Some (sample_indexed 0), Some (sample_indexed 1)])"
proof -
  let ?out = "[Some (sample_indexed 0), Some (sample_indexed 1)]"
  let ?nodes = "[\<lparr>Node_NodeID = \<lparr>Path = be8 0, PrefixLenBits = 64\<rparr>, Hash = Some [0], NodeRevision = 0\<rparr>,
     \<lparr>Node_NodeID = \<lparr>Path = be8 1, PrefixLenBits = 64\<rparr>, Hash = Some [1], NodeRevision = 0\<rparr>]"
  have got: "Remote_GetLeaves (e_codec sample_read_env) (e_http sample_read_env) (remote (sample_reader 2))
      (treeID (sample_reader 2)) [1, 0] = ([0, 1], Inr ?out)"
    using GetLeaves_log [OF sample_reader_log, of "[1, 0]"] by (simp add: prod_eq_iff)
  have nodes: "GetMerkleNodes sample_node_cache sample_read_env sample_index_world (sample_reader 2) r
      [\<lparr>Path = be8 0, PrefixLenBits = 64\<rparr>, \<lparr>Path = be8 1, PrefixLenBits = 64\<rparr>] = ((sample_reader 2)\<lparr>subtreeCache := ()\<rparr>, Inr ?nodes)" for r
    by (simp add: GetMerkleNodes_def sample_node_cache_def eval_nat_numeral)
  have "check_indexes (TreeSize (root (sample_reader 2))) [1, 0] = Inr ()" by (simp add: sample_reader_def)
  moreover have "check_hashes ?nodes ?out [0, 1] = Inr ()" by (simp add: bytes_Equal_def sample_indexed_def)
  ultimately obtain rolt' where call:
    "GetLeavesByIndex sample_node_cache sample_read_env sample_index_world (sample_reader 2) [1, 0] = ([0, 1], rolt', Inr ?out)"
    unfolding GetLeavesByIndex_def ReadRevision_def by (simp add: got leaf_node_id int63_def nodes del: posenc.simps)
  have "in_int64 (TreeSize (root (sample_reader 2)))" by (simp add: sample_reader_def in_int64_def)
  from GetLeavesByIndex_verifies_leaves [OF call this] obtain ns :: "Node list" where
    "list_all2 (\<lambda>n l. \<exists>leaf. l = Some leaf \<and> contents (Hash n) = contents (MerkleLeafHash leaf)) ns ?out"
    by blast
  with call show ?thesis by (intro exI conjI)
qed

end
