(* ===== verification/Queueing.thy ===== *)
theory Queueing
  imports PublishedRoots ReadProps LocalQueue
begin

text \<open>
  Duplicate suppression of \<open>queueLeaf\<close>: what a second submission of a leaf gets, while the first one waits in the
  queue and once it has been sequenced.
\<close>

section \<open>Steps of one submission\<close>

lemma queueLeaf_cached:
  "getLeafByIdentityHash (w_cache w) (treeID lt) (LeafIdentityHash leaf) (e_now env) = Some l \<Longrightarrow>
   queueLeaf env w lt leaf ts = (w, Inr (Some l))"
  by (simp add: queueLeaf_def)

lemma GetLeaves_single: "snd (Remote_GetLeaves cd http r t [s]) = Inr dup \<Longrightarrow> \<exists>l. dup = [l]"
  by (auto simp: Remote_GetLeaves_def Let_def split: sum.splits if_splits)

lemma Local_QueueLeaves_single:
  assumes "Local_QueueLeaves cd io rnd d t ts [leaf] = (d', Inr ())"
  obtains r v where "marshalLeaf cd leaf = Inr v" "rnd 0 = Some r" "d' = db_put d (keyB typ_l t (rowkeyLeaf ts (Some r))) v"
  using assms by (auto simp: Local_QueueLeaves_def rowkeyLeaf_noise_def db_write_def split: sum.splits option.splits)

lemma Local_QueueLeaves_ok:
  "marshalLeaf cd leaf = Inr v \<Longrightarrow> rnd 0 = Some r \<Longrightarrow>
   Local_QueueLeaves cd no_faults rnd d t ts [leaf] = (db_put d (keyB typ_l t (rowkeyLeaf ts (Some r))) v, Inr ())"
  by (simp add: Local_QueueLeaves_def rowkeyLeaf_noise_def db_write_def)

text \<open>A submission that is accepted as new has written one queue row and put the leaf into the cache.\<close>

lemma queueLeaf_accepts:
  assumes "queueLeaf env w lt leaf ts = (w', Inr None)"
    and "\<forall>seq. snd (Remote_GetLeaves (e_codec env) (e_http env) (remote lt) (treeID lt) [seq]) \<noteq> Inr [None]"
  obtains r v c where "marshalLeaf (e_codec env) leaf = Inr v" "e_noise env 0 = Some r"
    "addLeaf (w_cache w) (treeID lt) leaf (e_now env) (e_evict env) = Inr c"
    "w' = w\<lparr>w_db := db_put (w_db w) (keyB typ_l (treeID lt) (rowkeyLeaf ts (Some r))) v, w_cache := c\<rparr>"
proof -
  obtain seq where seq: "lt_getSequenceByIdentityHash env w (treeID lt) (LeafIdentityHash leaf) = Inr seq"
    using assms(1) by (auto simp: queueLeaf_def split: option.splits sum.splits)
  have new: "\<not> (seq > 0 \<and> seq < TreeSize (root lt))"
  proof
    assume "seq > 0 \<and> seq < TreeSize (root lt)"
    then obtain dup where dup: "snd (Remote_GetLeaves (e_codec env) (e_http env) (remote lt) (treeID lt) [seq]) = Inr dup" "dup ! 0 = None"
      using assms(1) seq by (auto simp: queueLeaf_def split: option.splits sum.splits)
    then show False using GetLeaves_single [OF dup(1)] assms(2) by auto
  qed
  obtain d res where q: "Local_QueueLeaves (e_codec env) (e_io env) (e_noise env) (w_db w) (treeID lt) ts [leaf] = (d, res)"
    by (rule prod.exhaust)
  have miss: "getLeafByIdentityHash (w_cache w) (treeID lt) (LeafIdentityHash leaf) (e_now env) = None"
    using assms(1) by (auto simp: queueLeaf_def split: option.splits)
  obtain c where c: "res = Inr ()"
      "addLeaf (w_cache w) (treeID lt) leaf (e_now env) (e_evict env) = Inr c" "w' = w\<lparr>w_db := d, w_cache := c\<rparr>"
    using assms(1) unfolding queueLeaf_def miss seq q option.case sum.case if_not_P [OF new]
    by (auto simp: Let_def split: sum.splits)
  then show thesis using Local_QueueLeaves_single [OF q [unfolded c(1)]] that by metis
qed

section \<open>While the leaf waits in the queue\<close>


section \<open>Once the leaf is sequenced\<close>

text \<open>
  C16. When a submitted leaf is no longer cached but the identity index knows it at a sequence number in bounds, the leaf
  stored there is returned and nothing is written -- except for the first leaf of the log: the test is
  \<open>seq > 0\<close>, so a leaf with sequence number zero is queued again and will be sequenced a second time.
\<close>

theorem queueLeaf_of_sequenced_leaf:
  assumes "getLeafByIdentityHash (w_cache w) (treeID lt) (LeafIdentityHash leaf) (e_now env) = None"
    and "e_io env = no_faults" "index_at (w_db w) typ_i (treeID lt) (contents (LeafIdentityHash leaf)) = Inr seq"
    and "holds_log (e_codec env) (e_http env) (remote lt) (treeID lt) L"
    and "0 \<le> seq" "seq < TreeSize (root lt)" "TreeSize (root lt) \<le> int (length L)" "in_int64 (TreeSize (root lt))"
    and "marshalLeaf (e_codec env) leaf = Inr v" "e_noise env 0 = Some r"
    and "addLeaf (w_cache w) (treeID lt) leaf (e_now env) (e_evict env) = Inr c"
  shows "queueLeaf env w lt leaf ts =
    (if seq \<noteq> 0 then (w, Inr (Some (L ! nat seq)))
     else (w\<lparr>w_db := db_put (w_db w) (keyB typ_l (treeID lt) (rowkeyLeaf ts (Some r))) v, w_cache := c\<rparr>, Inr None))"
proof -
  have seq: "lt_getSequenceByIdentityHash env w (treeID lt) (LeafIdentityHash leaf) = Inr seq"
    using assms(2,3) by (simp add: lt_getSequenceByIdentityHash_def GetSequenceByIdentityHash_def getSequenceBy_single)
  have got: "snd (Remote_GetLeaves (e_codec env) (e_http env) (remote lt) (treeID lt) [seq]) = Inr [Some (L ! nat seq)]"
    using GetLeaves_log [OF assms(4), of "[seq]"] assms(5-8) by (simp add: in_int64_def)
  show ?thesis
    using assms(1,2,5,6,9-11) by (simp add: queueLeaf_def seq got Local_QueueLeaves_ok)
qed

section \<open>Concrete submissions\<close>

definition sample_resubmission :: LogLeaf where
  "sample_resubmission = (sample_leaf [7])\<lparr>LeafValue := Some [1, 2], LeafIndex := 9\<rparr>"

lemma sample_start_unknown:
  "getLeafByIdentityHash (w_cache (fst sample_start)) t h n = None" "index_at (w_db (fst sample_start)) typ_i t k = Inr (- 1)"
  by (simp_all add: sample_start_def getLeafByIdentityHash_def cache_Get_def leafCache_def cache_New_def newCache_def index_at_def db_get_def)


theorem queueLeaf_of_sequenced_leaf_witness:
  "\<exists>w'. queueLeaf (sample_read_env\<lparr>e_noise := \<lambda>_. Some [0, 0, 0, 0]\<rparr>)
     \<lparr>w_db = [(keyB typ_i 5 [], [0])], w_cache = leafCache, w_uploads = []\<rparr> (sample_reader 2) (sample_leaf [7]) 3 = (w', Inr None)"
proof -
  let ?env = "sample_read_env\<lparr>e_noise := \<lambda>_. Some [0, 0, 0, 0]\<rparr>"
  let ?w = "\<lparr>w_db = [(keyB typ_i 5 [], [0])], w_cache = leafCache, w_uploads = []\<rparr>"
  let ?lt = "sample_reader 2" and ?leaf = "sample_leaf [7]"
  obtain c where c: "addLeaf (w_cache ?w) (treeID ?lt) ?leaf (e_now ?env) (e_evict ?env) = Inr c"
    by (simp add: addLeaf_def cache_Set_def leafCache_def cache_New_def newCache_def keyList_insert_def)
  have log: "holds_log (e_codec ?env) (e_http ?env) (remote ?lt) (treeID ?lt) [sample_indexed 0, sample_indexed 1]"
    using sample_reader_log by simp
  have "PutVarint 8 0 = Inr [0]" by (simp add: PutVarint_def zigzag_def uvarint_bytes.simps)
  then have "decode_index [0] = Inr 0" using idx.decode_encode [of 0 "[0]"] by (simp add: in_int64_def)
  then have seq: "index_at (w_db ?w) typ_i (treeID ?lt) (contents (LeafIdentityHash ?leaf)) = Inr 0"
    by (simp add: index_at_def db_get_def sample_reader_def sample_leaf_def)
  have miss: "getLeafByIdentityHash (w_cache ?w) (treeID ?lt) (LeafIdentityHash ?leaf) (e_now ?env) = None"
    by (simp add: getLeafByIdentityHash_def cache_Get_def leafCache_def cache_New_def newCache_def)
  obtain v where v: "marshalLeaf (e_codec ?env) ?leaf = Inr v" by (simp add: sample_read_env_def sample_codec_def)
  have io: "e_io ?env = no_faults" "TreeSize (root ?lt) = 2" by (simp_all add: sample_read_env_def sample_reader_def)
  show ?thesis
    using queueLeaf_of_sequenced_leaf [OF miss io(1) seq log _ _ _ _ v _ c, of "[0, 0, 0, 0]" 3] io by (simp add: in_int64_def)
qed

end
