(* ===== verification/QueueSteps.thy ===== *)
theory QueueSteps
  imports Queueing
begin

text \<open>
  Submissions that run at the same time. No lock is held over \<open>queueLeaf\<close> (\<open>ct/tree_tx.go\<close>): the lookup in the cache, the
  lookup in the index, the read of the remote leaf, the write to the queue and the update of the cache are five
  atomic actions, and the calls of different requests interleave between them.
\<close>

section \<open>The actions of one call\<close>

datatype queue_pc =
  LooksInCache | AsksIndex | ReadsRemote int | WritesQueue | AddsToCache | Returned "LogLeaf option result"

fun queueLeaf_action ::
  "env \<Rightarrow> world \<Rightarrow> ('sc, 'a) readOnlyLogTreeTX_scheme \<Rightarrow> LogLeaf \<Rightarrow> int \<Rightarrow> queue_pc \<Rightarrow> world \<times> queue_pc" where
  "queueLeaf_action env w lt leaf ts LooksInCache =
    (w, case getLeafByIdentityHash (w_cache w) (treeID lt) (LeafIdentityHash leaf) (e_now env) of
          Some cachedLeaf \<Rightarrow> Returned (Inr (Some cachedLeaf))
        | None \<Rightarrow> AsksIndex)"
| "queueLeaf_action env w lt leaf ts AsksIndex =
    (w, case lt_getSequenceByIdentityHash env w (treeID lt) (LeafIdentityHash leaf) of
          Inl e \<Rightarrow> Returned (Inl e)
        | Inr seq \<Rightarrow> if seq > 0 \<and> seq < TreeSize (root lt) then ReadsRemote seq else WritesQueue)"
| "queueLeaf_action env w lt leaf ts (ReadsRemote seq) =
    (w, case snd (Remote_GetLeaves (e_codec env) (e_http env) (remote lt) (treeID lt) [seq]) of
          Inl e \<Rightarrow> Returned (Inl e)
        | Inr dup \<Rightarrow> Returned (Inr (dup ! 0)))"
| "queueLeaf_action env w lt leaf ts WritesQueue =
    (let (d, res) = Local_QueueLeaves (e_codec env) (e_io env) (e_noise env) (w_db w) (treeID lt) ts [leaf]
     in (w\<lparr>w_db := d\<rparr>, case res of Inl e \<Rightarrow> Returned (Inl e) | Inr _ \<Rightarrow> AddsToCache))"
| "queueLeaf_action env w lt leaf ts AddsToCache =
    (case addLeaf (w_cache w) (treeID lt) leaf (e_now env) (e_evict env) of
       Inl p \<Rightarrow> (w, Returned (Inl p))
     | Inr c \<Rightarrow> (w\<lparr>w_cache := c\<rparr>, Returned (Inr None)))"
| "queueLeaf_action env w lt leaf ts (Returned r) = (w, Returned r)"

section \<open>Interleaving\<close>

record 'sc submission =
  sub_lt :: "'sc readOnlyLogTreeTX"
  sub_leaf :: LogLeaf
  sub_ts :: int
  sub_pc :: queue_pc

text \<open>One turn: call \<open>i\<close> takes its next action, in the surroundings \<open>env\<close>.\<close>

fun turn :: "world \<times> 'sc submission list \<Rightarrow> nat \<times> env \<Rightarrow> world \<times> 'sc submission list" where
  "turn (w, subs) (i, env) =
    (if i < length subs
     then let s = subs ! i; (w', pc) = queueLeaf_action env w (sub_lt s) (sub_leaf s) (sub_ts s) (sub_pc s)
          in (w', subs[i := s\<lparr>sub_pc := pc\<rparr>])
     else (w, subs))"

definition turns :: "world \<times> 'sc submission list \<Rightarrow> (nat \<times> env) list \<Rightarrow> world \<times> 'sc submission list" where
  "turns = foldl turn"

lemma turns_simps [simp]: "turns st [] = st" "turns st (t # sched) = turns (turn st t) sched"
  by (simp_all add: turns_def)

lemma turns_append: "turns st (xs @ ys) = turns (turns st xs) ys"
  by (simp add: turns_def)

text \<open>Four turns without interruption are the call as a whole.\<close>

lemma queueLeaf_is_its_actions:
  fixes subs :: "'sc submission list"
  assumes "i < length subs" "sub_pc (subs ! i) = LooksInCache"
    and "queueLeaf env w (sub_lt (subs ! i)) (sub_leaf (subs ! i)) (sub_ts (subs ! i)) = (w', res)"
  shows "turns (w, subs) (replicate 4 (i, env)) = (w', subs[i := (subs ! i)\<lparr>sub_pc := Returned res\<rparr>])"
  using assms
  by (auto simp: numeral_eq_Suc queueLeaf_def Let_def split: option.splits sum.splits prod.splits if_splits)

section \<open>Progress\<close>

text \<open>The turns a call still needs.\<close>

fun actions_left :: "queue_pc \<Rightarrow> nat" where
  "actions_left LooksInCache = 4"
| "actions_left AsksIndex = 3"
| "actions_left (ReadsRemote seq) = 1"
| "actions_left WritesQueue = 2"
| "actions_left AddsToCache = 1"
| "actions_left (Returned r) = 0"

lemma actions_left_0: "actions_left pc = 0 \<longleftrightarrow> (\<exists>r. pc = Returned r)"
  by (cases pc) auto

lemma actions_left_decrease:
  "actions_left (snd (queueLeaf_action env w lt leaf ts pc)) \<le> actions_left pc - 1"
  by (cases pc) (auto simp: Let_def split: option.splits sum.splits prod.splits)

lemma length_turns [simp]: "length (snd (turns st sched)) = length (snd st)"
proof (induction sched arbitrary: st)
  case (Cons t sched)
  have "length (snd (turn st t)) = length (snd st)"
    by (cases st; cases t) (auto simp: Let_def split: prod.splits)
  with Cons show ?case by simp
qed simp

lemma turn_frame:
  "length (snd (turn st t)) = length (snd st)"
  "j \<noteq> fst t \<Longrightarrow> snd (turn st t) ! j = snd st ! j"
  by (cases st; cases t; auto simp: Let_def split: prod.splits)+

lemma turn_fields:
  assumes "j < length (snd st)"
  shows "sub_lt (snd (turn st t) ! j) = sub_lt (snd st ! j)" "sub_leaf (snd (turn st t) ! j) = sub_leaf (snd st ! j)"
    "sub_ts (snd (turn st t) ! j) = sub_ts (snd st ! j)"
  using assms by (cases st; cases t; auto simp: Let_def nth_list_update split: prod.splits)+

lemma turn_own:
  assumes "i < length subs"
  shows "turn (w, subs) (i, env) =
    (fst (queueLeaf_action env w (sub_lt (subs ! i)) (sub_leaf (subs ! i)) (sub_ts (subs ! i)) (sub_pc (subs ! i))),
     subs[i := (subs ! i)\<lparr>sub_pc :=
       snd (queueLeaf_action env w (sub_lt (subs ! i)) (sub_leaf (subs ! i)) (sub_ts (subs ! i)) (sub_pc (subs ! i)))\<rparr>])"
  using assms by (simp add: Let_def split_beta)

declare turn.simps [simp del]

lemma actions_left_turns:
  assumes "i < length (snd st)"
  shows "actions_left (sub_pc (snd (turns st sched) ! i)) \<le> actions_left (sub_pc (snd st ! i)) - count_list (map fst sched) i"
  using assms
proof (induction sched arbitrary: st)
  case (Cons t sched)
  obtain w subs j env where st: "st = (w, subs)" "t = (j, env)" by (metis prod.exhaust)
  have "actions_left (sub_pc (snd (turn st t) ! i)) \<le> actions_left (sub_pc (snd st ! i)) - (if j = i then 1 else 0)"
    using Cons.prems actions_left_decrease turn_frame(2) [of i t st] st by (cases "j = i") (auto simp: turn_own)
  moreover have "actions_left (sub_pc (snd (turns st (t # sched)) ! i)) \<le> actions_left (sub_pc (snd (turn st t) ! i)) - count_list (map fst sched) i"
    using Cons.IH [of "turn st t"] Cons.prems by (simp add: turn_frame(1))
  ultimately show ?case using st by (simp split: if_splits)
qed simp

text \<open>
  However the submissions interleave, and whatever the databases do, a call has returned once it has had four turns:
  no submission waits for another one.
\<close>

theorem submissions_are_wait_free:
  assumes "i < length subs" "4 \<le> count_list (map fst sched) i"
  shows "\<exists>res. sub_pc (snd (turns (w, subs) sched) ! i) = Returned res"
proof -
  have "actions_left pc \<le> 4" for pc by (cases pc) auto
  then have "actions_left (sub_pc (subs ! i)) - count_list (map fst sched) i = 0"
    using assms(2) by (metis diff_is_0_eq order_trans)
  then show ?thesis using actions_left_turns [of i "(w, subs)" sched] assms(1) by (simp add: actions_left_0)
qed

section \<open>What interleaved submissions queue\<close>

text \<open>
  The random bytes of a row are unused when they are drawn: otherwise the new row takes the place of a queued one.
\<close>

fun draws_fresh :: "world \<times> 'sc submission list \<Rightarrow> nat \<times> env \<Rightarrow> bool" where
  "draws_fresh (w, subs) (i, env) =
    (i < length subs \<and> sub_pc (subs ! i) = WritesQueue \<longrightarrow>
     (case e_noise env 0 of None \<Rightarrow> True
      | Some r \<Rightarrow> length r = 4 \<and>
          db_get (w_db w) (keyB typ_l (treeID (sub_lt (subs ! i))) (rowkeyLeaf (sub_ts (subs ! i)) (Some r))) = None))"

fun all_fresh :: "world \<times> 'sc submission list \<Rightarrow> (nat \<times> env) list \<Rightarrow> bool" where
  "all_fresh st [] = True"
| "all_fresh st (t # sched) = (draws_fresh st t \<and> all_fresh (turn st t) sched)"

text \<open>Before its write, and never without one again.\<close>

fun before_write :: "queue_pc \<Rightarrow> bool" where
  "before_write (Returned r) = False"
| "before_write AddsToCache = False"
| "before_write pc = True"

text \<open>Where a call may get to: after its write it never reports a duplicate, without it it never reports success.\<close>

definition written_pc :: "queue_pc \<Rightarrow> bool" where
  "written_pc pc \<longleftrightarrow> pc = AddsToCache \<or> pc = Returned (Inr None) \<or> (\<exists>e. pc = Returned (Inl e))"

definition unwritten_pc :: "queue_pc \<Rightarrow> bool" where
  "unwritten_pc pc \<longleftrightarrow> before_write pc \<or> (\<exists>l. pc = Returned (Inr (Some l))) \<or> (\<exists>e. pc = Returned (Inl e))"

definition keeps_side :: "queue_pc \<Rightarrow> queue_pc \<Rightarrow> bool" where
  "keeps_side pc pc' \<longleftrightarrow> (unwritten_pc pc \<longrightarrow> unwritten_pc pc') \<and> (written_pc pc \<longrightarrow> written_pc pc') \<and> (before_write pc' \<longrightarrow> before_write pc)"

lemmas side_defs = unwritten_pc_def written_pc_def keeps_side_def

lemma keeps_side_refl [simp]: "keeps_side pc pc"
  by (simp add: keeps_side_def)

lemma keeps_side_trans: "keeps_side a b \<Longrightarrow> keeps_side b c \<Longrightarrow> keeps_side a c"
  by (simp add: keeps_side_def)

lemma written_not_before: "written_pc pc \<Longrightarrow> \<not> before_write pc"
  by (auto simp: written_pc_def)

lemma Local_QueueLeaves_one:
  "Local_QueueLeaves cd io rnd d t ts [leaf] = (d', res) \<Longrightarrow>
   (case res of
      Inl e \<Rightarrow> d' = d
    | Inr _ \<Rightarrow> \<exists>r v. marshalLeaf cd leaf = Inr v \<and> rnd 0 = Some r \<and> d' = db_put d (keyB typ_l t (rowkeyLeaf ts (Some r))) v)"
  by (auto simp: Local_QueueLeaves_def rowkeyLeaf_noise_def db_write_def split: sum.splits option.splits)

text \<open>One action writes one row and leaves the database as it is otherwise.\<close>

lemma action_cases:
  assumes "queueLeaf_action env w lt leaf ts pc = (w', pc')"
    and "\<forall>seq. snd (Remote_GetLeaves (e_codec env) (e_http env) (remote lt) (treeID lt) [seq]) \<noteq> Inr [None]"
  shows "pc = WritesQueue \<and> pc' = AddsToCache \<and> (\<exists>r v. marshalLeaf (e_codec env) leaf = Inr v \<and> e_noise env 0 = Some r \<and>
       w_db w' = db_put (w_db w) (keyB typ_l (treeID lt) (rowkeyLeaf ts (Some r))) v) \<or>
    w_db w' = w_db w \<and> keeps_side pc pc'"
proof (cases pc)
  case (ReadsRemote seq)
  have "dup ! 0 \<noteq> None" if "snd (Remote_GetLeaves (e_codec env) (e_http env) (remote lt) (treeID lt) [seq]) = Inr dup" for dup
    using GetLeaves_single [OF that] assms(2) that by (metis nth_Cons_0)
  with assms(1) ReadsRemote show ?thesis
    by (auto simp: side_defs split: sum.splits)
next
  case WritesQueue
  obtain d res where q: "Local_QueueLeaves (e_codec env) (e_io env) (e_noise env) (w_db w) (treeID lt) ts [leaf] = (d, res)"
    by (rule prod.exhaust)
  from Local_QueueLeaves_one [OF q] assms(1) WritesQueue q show ?thesis
    by (auto simp: side_defs split: sum.splits)
qed (use assms(1) in \<open>auto simp: side_defs split: option.splits sum.splits if_splits\<close>)

definition valid_submissions :: "'sc submission list \<Rightarrow> bool" where
  "valid_submissions subs \<longleftrightarrow> (\<forall>j < length subs. valid_tree (treeID (sub_lt (subs ! j))) \<and> int63 (sub_ts (subs ! j)))"

text \<open>All turns use one encoding of leaves, and the leaves of the remote database are there.\<close>

definition sound_turn :: "codec \<Rightarrow> 'sc submission list \<Rightarrow> env \<Rightarrow> bool" where
  "sound_turn cd subs env \<longleftrightarrow> e_codec env = cd \<and>
    (\<forall>j < length subs. \<forall>seq.
       snd (Remote_GetLeaves cd (e_http env) (remote (sub_lt (subs ! j))) (treeID (sub_lt (subs ! j))) [seq]) \<noteq> Inr [None])"

text \<open>The bytes of the leaves of the calls \<open>W\<close> that are for tree \<open>t\<close>.\<close>

definition leaves_of_calls :: "codec \<Rightarrow> 'sc submission list \<Rightarrow> nat set \<Rightarrow> int \<Rightarrow> bytes multiset" where
  "leaves_of_calls cd subs W t =
    image_mset (\<lambda>i. projr (marshalLeaf cd (sub_leaf (subs ! i)))) (mset_set {i \<in> W. treeID (sub_lt (subs ! i)) = t})"

lemma leaves_of_calls_single:
  "leaves_of_calls cd subs {i} t = (if treeID (sub_lt (subs ! i)) = t then {#projr (marshalLeaf cd (sub_leaf (subs ! i)))#} else {#})"
proof -
  have "{j \<in> {i}. treeID (sub_lt (subs ! j)) = t} = (if treeID (sub_lt (subs ! i)) = t then {i} else {})" by auto
  then show ?thesis by (simp add: leaves_of_calls_def)
qed

lemma leaves_of_calls_Un:
  assumes "finite V" "finite W" "V \<inter> W = {}"
  shows "leaves_of_calls cd subs (V \<union> W) t = leaves_of_calls cd subs V t + leaves_of_calls cd subs W t"
proof -
  have "{i \<in> V \<union> W. treeID (sub_lt (subs ! i)) = t} = {i \<in> V. treeID (sub_lt (subs ! i)) = t} \<union> {i \<in> W. treeID (sub_lt (subs ! i)) = t}"
    by auto
  moreover have "{i \<in> V. treeID (sub_lt (subs ! i)) = t} \<inter> {i \<in> W. treeID (sub_lt (subs ! i)) = t} = {}" using assms(3) by auto
  ultimately show ?thesis using assms(1,2) by (simp add: leaves_of_calls_def mset_set_Union)
qed

lemma turn_invariants:
  assumes "W \<subseteq> {..<length subs}"
  shows "valid_submissions (snd (turn (w, subs) t)) = valid_submissions subs"
    "sound_turn cd (snd (turn (w, subs) t)) env = sound_turn cd subs env"
    "leaves_of_calls cd (snd (turn (w, subs) t)) W u = leaves_of_calls cd subs W u"
proof -
  note fields = turn_frame(1) [of "(w, subs)" t] turn_fields [of _ "(w, subs)" t]
  show "valid_submissions (snd (turn (w, subs) t)) = valid_submissions subs"
    "sound_turn cd (snd (turn (w, subs) t)) env = sound_turn cd subs env"
    using fields by (simp_all add: valid_submissions_def sound_turn_def)
  have same: "{i \<in> W. treeID (sub_lt (snd (turn (w, subs) t) ! i)) = u} = {i \<in> W. treeID (sub_lt (subs ! i)) = u}"
    using assms fields by auto
  have "finite W" using assms finite_subset by blast
  then show "leaves_of_calls cd (snd (turn (w, subs) t)) W u = leaves_of_calls cd subs W u"
    unfolding leaves_of_calls_def same using assms fields by (intro image_mset_cong) auto
qed

text \<open>One turn: the calls of \<open>W\<close> (none or the one whose turn it is) have put their leaves into the queues.\<close>

definition queue_effect ::
  "codec \<Rightarrow> world \<times> 'sc submission list \<Rightarrow> world \<times> 'sc submission list \<Rightarrow> nat set \<Rightarrow> bool" where
  "queue_effect cd st st' W \<longleftrightarrow> W \<subseteq> {..<length (snd st)} \<and>
    (\<forall>t. valid_tree t \<longrightarrow>
       mset (map snd (queue_of (w_db (fst st')) t)) = mset (map snd (queue_of (w_db (fst st)) t)) + leaves_of_calls cd (snd st) W t) \<and>
    (\<forall>i < length (snd st).
       (if i \<in> W then before_write (sub_pc (snd st ! i)) \<and> written_pc (sub_pc (snd st' ! i))
        else keeps_side (sub_pc (snd st ! i)) (sub_pc (snd st' ! i))))"

lemma queue_effect_idle:
  "w_db (fst st') = w_db (fst st) \<Longrightarrow> \<forall>i < length (snd st). keeps_side (sub_pc (snd st ! i)) (sub_pc (snd st' ! i)) \<Longrightarrow>
   queue_effect cd st st' {}"
  by (simp add: queue_effect_def leaves_of_calls_def)

lemma turn_effect:
  assumes "valid_submissions subs" "sound_turn cd subs env" "draws_fresh (w, subs) (i, env)"
  shows "\<exists>W. queue_effect cd (w, subs) (turn (w, subs) (i, env)) W"
proof (cases "i < length subs")
  case False
  then show ?thesis by (intro exI [of _ "{}"] queue_effect_idle) (simp_all add: turn.simps)
next
  case True
  let ?s = "subs ! i"
  obtain w' pc where act: "queueLeaf_action env w (sub_lt ?s) (sub_leaf ?s) (sub_ts ?s) (sub_pc ?s) = (w', pc)"
    by (rule prod.exhaust)
  have st': "turn (w, subs) (i, env) = (w', subs[i := ?s\<lparr>sub_pc := pc\<rparr>])" using True act by (simp add: turn_own)
  have cd: "e_codec env = cd" using assms(2) by (simp add: sound_turn_def)
  have "\<forall>seq. snd (Remote_GetLeaves (e_codec env) (e_http env) (remote (sub_lt ?s)) (treeID (sub_lt ?s)) [seq]) \<noteq> Inr [None]"
    using assms(2) True by (simp add: sound_turn_def)
  from action_cases [OF act this] show ?thesis
  proof
    assume a: "sub_pc ?s = WritesQueue \<and> pc = AddsToCache \<and> (\<exists>r v. marshalLeaf (e_codec env) (sub_leaf ?s) = Inr v \<and>
      e_noise env 0 = Some r \<and> w_db w' = db_put (w_db w) (keyB typ_l (treeID (sub_lt ?s)) (rowkeyLeaf (sub_ts ?s) (Some r))) v)"
    then obtain r v where v: "marshalLeaf cd (sub_leaf ?s) = Inr v" "e_noise env 0 = Some r"
        "w_db w' = db_put (w_db w) (keyB typ_l (treeID (sub_lt ?s)) (rowkeyLeaf (sub_ts ?s) (Some r))) v"
      using cd by auto
    have "length r = 4" "db_get (w_db w) (keyB typ_l (treeID (sub_lt ?s)) (rowkeyLeaf (sub_ts ?s) (Some r))) = None"
      using assms(3) True a v(2) by simp_all
    then have "mset (map snd (queue_of (w_db w') t)) =
        (if t = treeID (sub_lt ?s) then {#v#} else {#}) + mset (map snd (queue_of (w_db w) t))" if "valid_tree t" for t
      using assms(1) True that unfolding v(3) valid_submissions_def by (intro queue_of_put_fresh) auto
    moreover have "leaves_of_calls cd subs {i} t = (if t = treeID (sub_lt ?s) then {#v#} else {#})" for t
      using v(1) by (simp add: leaves_of_calls_single)
    ultimately have "queue_effect cd (w, subs) (turn (w, subs) (i, env)) {i}"
      using True a st' by (auto simp: queue_effect_def written_pc_def nth_list_update)
    then show ?thesis by blast
  next
    assume "w_db w' = w_db w \<and> keeps_side (sub_pc ?s) pc"
    then have "queue_effect cd (w, subs) (turn (w, subs) (i, env)) {}"
      using True st' by (intro queue_effect_idle) (auto simp: nth_list_update)
    then show ?thesis by blast
  qed
qed

lemma queue_effect_trans:
  assumes "queue_effect cd st st1 V" "queue_effect cd st1 st2 W" "length (snd st1) = length (snd st)"
    and "\<And>t. leaves_of_calls cd (snd st1) W t = leaves_of_calls cd (snd st) W t"
  shows "queue_effect cd st st2 (V \<union> W)"
proof -
  have sub: "V \<subseteq> {..<length (snd st)}" "W \<subseteq> {..<length (snd st)}"
    using assms(1-3) unfolding queue_effect_def by simp_all
  have first: "if i \<in> V then before_write (sub_pc (snd st ! i)) \<and> written_pc (sub_pc (snd st1 ! i))
      else keeps_side (sub_pc (snd st ! i)) (sub_pc (snd st1 ! i))" if "i < length (snd st)" for i
    using assms(1) that unfolding queue_effect_def by blast
  have second: "if i \<in> W then before_write (sub_pc (snd st1 ! i)) \<and> written_pc (sub_pc (snd st2 ! i))
      else keeps_side (sub_pc (snd st1 ! i)) (sub_pc (snd st2 ! i))" if "i < length (snd st)" for i
    using assms(2,3) that unfolding queue_effect_def by simp
  have disj: "V \<inter> W = {}"
  proof (rule equals0I)
    fix i assume i: "i \<in> V \<inter> W"
    then have "i < length (snd st)" using sub(1) by auto
    then show False using first [of i] second [of i] i written_not_before by auto
  qed
  have fin: "finite V" "finite W" using sub finite_subset by blast+
  have "mset (map snd (queue_of (w_db (fst st2)) t)) =
      mset (map snd (queue_of (w_db (fst st)) t)) + leaves_of_calls cd (snd st) (V \<union> W) t" if "valid_tree t" for t
    using assms(1,2,4) that unfolding queue_effect_def by (simp add: leaves_of_calls_Un [OF fin disj])
  moreover have "if i \<in> V \<union> W then before_write (sub_pc (snd st ! i)) \<and> written_pc (sub_pc (snd st2 ! i))
      else keeps_side (sub_pc (snd st ! i)) (sub_pc (snd st2 ! i))" if i: "i < length (snd st)" for i
    using first [OF i] second [OF i] keeps_side_trans disj
    by (cases "i \<in> V"; cases "i \<in> W") (auto simp: keeps_side_def)
  ultimately show ?thesis using sub unfolding queue_effect_def by simp
qed

lemma turns_effect:
  assumes "valid_submissions subs" "\<forall>(i, env) \<in> set sched. sound_turn cd subs env" "all_fresh (w, subs) sched"
  shows "\<exists>W. queue_effect cd (w, subs) (turns (w, subs) sched) W"
  using assms
proof (induction sched arbitrary: w subs)
  case Nil
  then show ?case by (intro exI [of _ "{}"] queue_effect_idle) simp_all
next
  case (Cons t sched)
  obtain i env where t: "t = (i, env)" by (cases t)
  obtain w1 subs1 where st1: "turn (w, subs) t = (w1, subs1)" by (cases "turn (w, subs) t")
  note inv = turn_invariants [where subs = subs and w = w and t = t, unfolded st1 snd_conv]
  have len: "length subs1 = length subs" using turn_frame(1) [of "(w, subs)" t] st1 by simp
  obtain V where V: "queue_effect cd (w, subs) (w1, subs1) V"
    using turn_effect [of subs cd env w i] Cons.prems t st1 by auto
  have "\<exists>W. queue_effect cd (w1, subs1) (turns (w1, subs1) sched) W"
    using Cons.prems st1 inv(1,2) [OF empty_subsetI] by (intro Cons.IH) auto
  then obtain W where W: "queue_effect cd (w1, subs1) (turns (w1, subs1) sched) W" by blast
  then have "W \<subseteq> {..<length subs}" using len by (simp add: queue_effect_def)
  then have "queue_effect cd (w, subs) (turns (w1, subs1) sched) (V \<union> W)"
    using inv(3) len by (intro queue_effect_trans [OF V W]) simp_all
  then show ?case using st1 by auto
qed

text \<open>
  C17. However submissions interleave, and whichever of their database operations fail, the queues grow by the leaves of
  some of the calls, each once: of every call that was answered with success, and of none that was answered with a
  duplicate -- as long as the random bytes of a new row are not those of a row queued at the same time.
\<close>

theorem interleaved_submissions_are_queued:
  assumes "valid_submissions subs" "\<forall>s \<in> set subs. sub_pc s = LooksInCache"
    and "\<forall>(i, env) \<in> set sched. sound_turn cd subs env" "all_fresh (w, subs) sched"
    and "turns (w, subs) sched = (w', subs')"
  shows "\<exists>W \<subseteq> {..<length subs}.
    (\<forall>t. valid_tree t \<longrightarrow>
       mset (map snd (queue_of (w_db w') t)) = mset (map snd (queue_of (w_db w) t)) + leaves_of_calls cd subs W t) \<and>
    (\<forall>i < length subs. sub_pc (subs' ! i) = Returned (Inr None) \<longrightarrow> i \<in> W) \<and>
    (\<forall>i < length subs. \<forall>l. sub_pc (subs' ! i) = Returned (Inr (Some l)) \<longrightarrow> i \<notin> W)"
proof -
  obtain W where W: "queue_effect cd (w, subs) (w', subs') W"
    using turns_effect [OF assms(1,3,4)] assms(5) by auto
  have side: "if i \<in> W then written_pc (sub_pc (subs' ! i)) else unwritten_pc (sub_pc (subs' ! i))" if "i < length subs" for i
  proof -
    have "unwritten_pc (sub_pc (subs ! i))" using assms(2) that by (simp add: unwritten_pc_def)
    then show ?thesis using W that unfolding queue_effect_def keeps_side_def by auto
  qed
  have "i \<in> W" if "i < length subs" "sub_pc (subs' ! i) = Returned (Inr None)" for i
    using side [OF that(1)] that(2) by (simp add: unwritten_pc_def split: if_splits)
  moreover have "i \<notin> W" if "i < length subs" "sub_pc (subs' ! i) = Returned (Inr (Some l))" for i l
    using side [OF that(1)] that(2) by (auto simp: written_pc_def)
  ultimately show ?thesis using W unfolding queue_effect_def by auto
qed

section \<open>Two submissions of one leaf\<close>

text \<open>A leaf that neither the cache nor the index knows is accepted.\<close>

lemma queueLeaf_new:
  assumes "getLeafByIdentityHash (w_cache w) (treeID lt) (LeafIdentityHash leaf) (e_now env) = None"
    and "lt_getSequenceByIdentityHash env w (treeID lt) (LeafIdentityHash leaf) = Inr (- 1)"
    and "e_io env = no_faults" "marshalLeaf (e_codec env) leaf = Inr v" "e_noise env 0 = Some r"
    and "addLeaf (w_cache w) (treeID lt) leaf (e_now env) (e_evict env) = Inr c"
  shows "queueLeaf env w lt leaf ts =
    (w\<lparr>w_db := db_put (w_db w) (keyB typ_l (treeID lt) (rowkeyLeaf ts (Some r))) v, w_cache := c\<rparr>, Inr None)"
  using assms by (simp add: queueLeaf_def Local_QueueLeaves_ok)

lemma overlapping_turns:
  assumes "sub_pc s1 = LooksInCache" "sub_pc s2 = LooksInCache"
    and "\<And>s env. s \<in> {s1, s2} \<Longrightarrow> env \<in> {env1, env2} \<Longrightarrow>
      getLeafByIdentityHash (w_cache w) (treeID (sub_lt s)) (LeafIdentityHash (sub_leaf s)) (e_now env) = None \<and>
      lt_getSequenceByIdentityHash env w (treeID (sub_lt s)) (LeafIdentityHash (sub_leaf s)) = Inr (- 1)"
    and "Local_QueueLeaves (e_codec env1) (e_io env1) (e_noise env1) (w_db w) (treeID (sub_lt s1)) (sub_ts s1) [sub_leaf s1] = (d1, Inr ())"
    and "Local_QueueLeaves (e_codec env2) (e_io env2) (e_noise env2) d1 (treeID (sub_lt s2)) (sub_ts s2) [sub_leaf s2] = (d2, Inr ())"
    and "addLeaf (w_cache w) (treeID (sub_lt s1)) (sub_leaf s1) (e_now env1) (e_evict env1) = Inr c1"
    and "addLeaf c1 (treeID (sub_lt s2)) (sub_leaf s2) (e_now env2) (e_evict env2) = Inr c2"
  shows "turns (w, [s1, s2]) (concat (replicate 4 [(0, env1), (1, env2)])) =
    (w\<lparr>w_db := d2, w_cache := c2\<rparr>, [s1\<lparr>sub_pc := Returned (Inr None)\<rparr>, s2\<lparr>sub_pc := Returned (Inr None)\<rparr>])"
  using assms by (simp add: numeral_eq_Suc turn_own)

text \<open>
  C18. The duplicate check of \<open>queueLeaf\<close> is not one step with the write it guards. Of two submissions of one leaf that is
  neither cached nor indexed, the second is answered with the leaf of the first when it starts after the first has
  ended; but when both look into the cache and the index before either has written, both are accepted and the
  leaf is queued twice.
\<close>

theorem overlapping_submissions_are_queued_twice:
  fixes s1 s2 :: "'sc submission"
  assumes "sub_pc s1 = LooksInCache" "sub_pc s2 = LooksInCache" "treeID (sub_lt s1) = t" "treeID (sub_lt s2) = t"
    and "LeafIdentityHash (sub_leaf s1) = h" "LeafIdentityHash (sub_leaf s2) = h"
    and "valid_tree t" "int63 (sub_ts s1)" "int63 (sub_ts s2)"
    and "getLeafByIdentityHash (w_cache w) t h (e_now env) = None" "index_at (w_db w) typ_i t (contents h) = Inr (- 1)"
    and "e_io env = no_faults" "marshalLeaf (e_codec env) (sub_leaf s1) = Inr v1" "marshalLeaf (e_codec env) (sub_leaf s2) = Inr v2"
    and "e_noise env = (\<lambda>_. Some r1)" "env2 = env\<lparr>e_noise := \<lambda>_. Some r2\<rparr>" "length r1 = 4" "length r2 = 4" "r1 \<noteq> r2"
    and "db_get (w_db w) (keyB typ_l t (rowkeyLeaf (sub_ts s1) (Some r1))) = None"
    and "db_get (w_db w) (keyB typ_l t (rowkeyLeaf (sub_ts s2) (Some r2))) = None"
    and "addLeaf (w_cache w) t (sub_leaf s1) (e_now env) (e_evict env) = Inr c1"
    and "addLeaf c1 t (sub_leaf s2) (e_now env) (e_evict env) = Inr c2"
    and "defaultExpiration (w_cache w) = 3600 * 10 ^ 9" "0 \<le> e_now env" "e_now env + 3600 * 10 ^ 9 < 2 ^ 63"
  shows "(\<exists>w'. turns (w, [s1, s2]) (replicate 4 (0, env) @ replicate 4 (1, env2)) =
        (w', [s1\<lparr>sub_pc := Returned (Inr None)\<rparr>, s2\<lparr>sub_pc := Returned (Inr (Some (dupLeaf (sub_leaf s1))))\<rparr>]) \<and>
      mset (map snd (queue_of (w_db w') t)) = mset (map snd (queue_of (w_db w) t)) + {#v1#}) \<and>
    (\<exists>w'. turns (w, [s1, s2]) (concat (replicate 4 [(0, env), (1, env2)])) =
        (w', [s1\<lparr>sub_pc := Returned (Inr None)\<rparr>, s2\<lparr>sub_pc := Returned (Inr None)\<rparr>]) \<and>
      mset (map snd (queue_of (w_db w') t)) = mset (map snd (queue_of (w_db w) t)) + {#v1, v2#})"
proof (intro conjI exI)
  let ?k1 = "keyB typ_l t (rowkeyLeaf (sub_ts s1) (Some r1))" and ?k2 = "keyB typ_l t (rowkeyLeaf (sub_ts s2) (Some r2))"
  let ?d1 = "db_put (w_db w) ?k1 v1"
  have look: "lt_getSequenceByIdentityHash e w t h = Inr (- 1)" if "e_io e = no_faults" for e
    using that assms(11) by (simp add: lt_getSequenceByIdentityHash_def GetSequenceByIdentityHash_def getSequenceBy_single)
  have env2: "e_codec env2 = e_codec env" "e_io env2 = no_faults" "e_now env2 = e_now env" "e_evict env2 = e_evict env"
    using assms(12,16) by simp_all
  have q1: "mset (map snd (queue_of ?d1 t)) = {#v1#} + mset (map snd (queue_of (w_db w) t))"
    using queue_of_put_fresh [OF assms(7,7,8,17,20)] by simp
  have "?k1 \<noteq> ?k2" using assms(7,17-19) by (simp add: rowkeyLeaf_eq keyB_eq_iff)
  then have "db_get ?d1 ?k2 = None"
    using assms(21) by (auto simp: db_get_def map_of_eq_None_iff set_db_put_keys)
  then have q2: "mset (map snd (queue_of (db_put ?d1 ?k2 v2) t)) = {#v2#} + mset (map snd (queue_of ?d1 t))"
    using queue_of_put_fresh [OF assms(7,7,9,18)] by simp
  have "set_expiry (w_cache w) DefaultExpiration (e_now env) = e_now env + 3600 * 10 ^ 9"
    using assms(24-26) by (simp add: set_expiry_def in_int64_def)
  then have hit: "getLeafByIdentityHash c1 t h (e_now env) = Some (dupLeaf (sub_leaf s1))"
    using addLeaf_own [OF assms(22), of h] assms(5) by simp
  let ?w1 = "w\<lparr>w_db := ?d1, w_cache := c1\<rparr>"
  let ?t1 = "s1\<lparr>sub_pc := Returned (Inr None)\<rparr>"
  have "queueLeaf env w (sub_lt s1) (sub_leaf s1) (sub_ts s1) = (?w1, Inr None)"
    using queueLeaf_new [where env = env and lt = "sub_lt s1" and leaf = "sub_leaf s1"] look [OF assms(12)] assms(3,5,10,12,13,15,22) by simp
  then have first: "turns (w, [s1, s2]) (replicate 4 (0, env)) = (?w1, [?t1, s2])"
    using queueLeaf_is_its_actions [of 0 "[s1, s2]" env w] assms(1) by simp
  have "queueLeaf env2 ?w1 (sub_lt s2) (sub_leaf s2) (sub_ts s2) = (?w1, Inr (Some (dupLeaf (sub_leaf s1))))"
    using hit env2 assms(4,6) by (intro queueLeaf_cached) simp
  then have "turns (?w1, [?t1, s2]) (replicate 4 (1, env2)) = (?w1, [?t1, s2\<lparr>sub_pc := Returned (Inr (Some (dupLeaf (sub_leaf s1))))\<rparr>])"
    using queueLeaf_is_its_actions [of 1 "[?t1, s2]" env2 ?w1] assms(2) by simp
  with first show "turns (w, [s1, s2]) (replicate 4 (0, env) @ replicate 4 (1, env2)) =
      (?w1, [?t1, s2\<lparr>sub_pc := Returned (Inr (Some (dupLeaf (sub_leaf s1))))\<rparr>])"
    by (simp only: turns_append)
  show "mset (map snd (queue_of (w_db ?w1) t)) = mset (map snd (queue_of (w_db w) t)) + {#v1#}" using q1 by simp
  let ?w2 = "w\<lparr>w_db := db_put ?d1 ?k2 v2, w_cache := c2\<rparr>"
  have "Local_QueueLeaves (e_codec env) (e_io env) (e_noise env) (w_db w) t (sub_ts s1) [sub_leaf s1] = (?d1, Inr ())"
    "Local_QueueLeaves (e_codec env2) (e_io env2) (e_noise env2) ?d1 t (sub_ts s2) [sub_leaf s2] = (db_put ?d1 ?k2 v2, Inr ())"
    using assms(12-16) by (simp_all add: Local_QueueLeaves_ok)
  then show "turns (w, [s1, s2]) (concat (replicate 4 [(0, env), (1, env2)])) = (?w2, [?t1, s2\<lparr>sub_pc := Returned (Inr None)\<rparr>])"
    using assms(1-6,10,12,22,23) look env2 by (intro overlapping_turns) auto
  show "mset (map snd (queue_of (w_db ?w2) t)) = mset (map snd (queue_of (w_db w) t)) + {#v1, v2#}" using q1 q2 by simp
qed

section \<open>Concrete schedules\<close>

definition sample_submission :: "unit submission" where
  "sample_submission = \<lparr>sub_lt = sample_reader 0, sub_leaf = sample_leaf [7], sub_ts = 3, sub_pc = LooksInCache\<rparr>"

definition sample_env2 :: env where
  "sample_env2 = sample_env\<lparr>e_noise := \<lambda>_. Some [1, 0, 0, 0]\<rparr>"

lemma sample_env_fields:
  "e_noise sample_env = (\<lambda>_. Some [0, 0, 0, 0])" "e_codec sample_env = sample_codec" "e_io sample_env = no_faults"
  "e_now sample_env = 0" "e_evict sample_env = Inr []"
  by (simp_all add: sample_env_def)

lemma sample_fields:
  "sub_pc sample_submission = LooksInCache" "treeID (sub_lt sample_submission) = 5" "sub_leaf sample_submission = sample_leaf [7]"
  "sub_ts sample_submission = 3" "w_cache (fst sample_start) = leafCache" "w_db (fst sample_start) = []"
  "marshalLeaf sample_codec (sample_leaf [7]) = Inr [7]" "defaultExpiration leafCache = 3600 * 10 ^ 9"
  by (simp_all add: sample_submission_def sample_reader_def sample_start_def sample_codec_def sample_leaf_def leafCache_def cache_New_def newCache_def)

lemma sample_unknown: "getLeafByIdentityHash leafCache t h n = None" "index_at [] typ_i t k = Inr (- 1)"
  using sample_start_unknown by (simp_all add: sample_fields)

lemma sample_caches:
  "\<exists>c1 c2. addLeaf leafCache 5 (sample_leaf [7]) 0 (Inr []) = Inr c1 \<and> addLeaf c1 5 (sample_leaf [7]) 0 (Inr []) = Inr c2"
  by (simp add: addLeaf_def cache_Set_def leafCache_def cache_New_def newCache_def keyList_insert_def)

theorem overlapping_submissions_are_queued_twice_witness:
  "\<exists>w'. turns (fst sample_start, [sample_submission, sample_submission]) (concat (replicate 4 [(0, sample_env), (1, sample_env2)])) =
      (w', replicate 2 (sample_submission\<lparr>sub_pc := Returned (Inr None)\<rparr>)) \<and>
    mset (map snd (queue_of (w_db w') 5)) = {#[7], [7]#}"
proof -
  obtain c1 c2 where c: "addLeaf leafCache 5 (sample_leaf [7]) 0 (Inr []) = Inr c1" "addLeaf c1 5 (sample_leaf [7]) 0 (Inr []) = Inr c2"
    using sample_caches by blast
  show ?thesis
    using overlapping_submissions_are_queued_twice [of sample_submission sample_submission 5 "LeafIdentityHash (sample_leaf [7])"
        "fst sample_start" sample_env "[7]" "[7]" "[0, 0, 0, 0]" sample_env2 "[1, 0, 0, 0]" c1 c2] c sample_unknown
    by (simp add: sample_fields sample_env_fields sample_env2_def valid_tree_def int63_def db_get_def queue_of_def numeral_2_eq_2)
qed

theorem interleaved_submissions_are_queued_witness:
  "\<exists>w' subs' W. turns (fst sample_start, [sample_submission, sample_submission]) (concat (replicate 4 [(0, sample_env), (1, sample_env2)])) = (w', subs') \<and>
     W \<subseteq> {..<2} \<and> mset (map snd (queue_of (w_db w') 5)) = leaves_of_calls sample_codec [sample_submission, sample_submission] W 5"
proof -
  let ?sched = "concat (replicate 4 [(0 :: nat, sample_env), (1, sample_env2)])" and ?subs = "[sample_submission, sample_submission]"
  obtain w' subs' where st: "turns (fst sample_start, ?subs) ?sched = (w', subs')" by (rule prod.exhaust)
  have seq: "lt_getSequenceByIdentityHash env (fst sample_start) 5 h = Inr (- 1)" if "e_io env = no_faults" for env h
    using that by (simp add: lt_getSequenceByIdentityHash_def GetSequenceByIdentityHash_def getSequenceBy_single sample_start_unknown)
  obtain c1 c2 where c: "addLeaf leafCache 5 (sample_leaf [7]) 0 (Inr []) = Inr c1" "addLeaf c1 5 (sample_leaf [7]) 0 (Inr []) = Inr c2"
    using sample_caches by blast
  have env: "e_noise sample_env2 = (\<lambda>_. Some [1, 0, 0, 0])" "e_codec sample_env2 = sample_codec" "e_io sample_env2 = no_faults"
    "e_now sample_env2 = 0" "e_evict sample_env2 = Inr []"
    by (simp_all add: sample_env2_def sample_env_fields)
  have ne: "keyB typ_l 5 (rowkeyLeaf 3 (Some [0, 0, 0, 0])) \<noteq> keyB typ_l 5 (rowkeyLeaf 3 (Some [1, 0, 0, 0]))"
    by (simp add: keyB_eq_iff valid_tree_def rowkeyLeaf_eq)
  have fresh: "all_fresh (fst sample_start, ?subs) ?sched"
    using ne by (simp add: numeral_eq_Suc turn_own sample_fields sample_env_fields env seq c sample_unknown Local_QueueLeaves_ok
        db_get_def)
  have sound: "\<forall>(i, env) \<in> set ?sched. sound_turn sample_codec ?subs env"
    by (simp add: sound_turn_def env sample_env_fields) (simp add: Remote_GetLeaves_def getBatch_def sample_env2_def sample_env_def)
  have "valid_submissions ?subs"
    by (simp add: valid_submissions_def sample_fields valid_tree_def int63_def nth_Cons split: nat.splits)
  moreover have "\<forall>s \<in> set ?subs. sub_pc s = LooksInCache" by (simp add: sample_fields)
  ultimately obtain W where "W \<subseteq> {..<length ?subs}" "\<forall>t. valid_tree t \<longrightarrow>
      mset (map snd (queue_of (w_db w') t)) = mset (map snd (queue_of (w_db (fst sample_start)) t)) + leaves_of_calls sample_codec ?subs W t"
    using interleaved_submissions_are_queued [OF _ _ sound fresh st] by metis
  moreover have "valid_tree 5" by (simp add: valid_tree_def)
  ultimately show ?thesis using st by (auto simp: sample_fields queue_of_def intro!: exI [of _ W])
qed

theorem submissions_are_wait_free_witness:
  "\<exists>res. sub_pc (snd (turns (fst sample_start, [sample_submission, sample_submission])
     (concat (replicate 4 [(0, sample_env), (1, sample_env2)]))) ! 1) = Returned res"
  by (rule submissions_are_wait_free) (simp_all add: numeral_eq_Suc)

end
