(* ===== verification/LocalSubtrees.thy ===== *)
theory LocalSubtrees
  imports Local
begin

text \<open>
  The subtree part of the local database: every write of a subtree adds a row with its revision, and a
  read at a revision sees the latest row not above it. The theory shows that the search by
  one iterator over the whole store finds that row, that what a transaction wrote is read back,
  and that reads at earlier revisions are not disturbed by it.
\<close>

section \<open>Subtree revisions\<close>

definition subtree_at :: "db \<Rightarrow> int \<Rightarrow> NodeID \<Rightarrow> int \<Rightarrow> bytes option" where
  "subtree_at d t nid r = db_get d (keyB typ_s t (node_row nid @ be8 r))"

text \<open>The parsed form of a stored row, as \<open>getSubtree\<close> returns it.\<close>

definition parse_subtree :: "codec \<Rightarrow> bytes \<Rightarrow> SubtreeProto option result" where
  "parse_subtree cd raw =
    (case unmarshalSubtree cd raw of Inl e \<Rightarrow> Inl e
     | Inr s \<Rightarrow> Inr (Some (if Prefix s = None then s\<lparr>Prefix := Some []\<rparr> else s)))"

lemma key_ok_subtree:
  assumes "key_ok (keyB typ_s t z)" "valid_tree t"
  obtains nid r where "valid_node nid" "int63 r" "z = node_row nid @ be8 r"
proof -
  obtain u row where u: "valid_tree u" "row_ok row" "keyB typ_s t z = row_key u row"
    using assms(1) by (auto simp: key_ok_def)
  then obtain nid r where "row = SubtreeRow nid r"
    by (cases row) (simp_all add: keyS_eq_keyB)
  with u assms(2) that [of nid r] show ?thesis by (simp add: keyB_eq_iff)
qed

text \<open>Above the stop row, at or below the start row: only revisions of this subtree.\<close>

lemma subtree_row_between:
  assumes "key_ok k" "valid_tree t" "valid_node nid" "int63 r" "rangeNodeID r nid = Inr (start, stop)"
    "keyB typ_s t stop < k" "k \<le> keyB typ_s t start"
  shows "\<exists>r'. int63 r' \<and> r' \<le> r \<and> k = keyB typ_s t (node_row nid @ be8 r')"
proof -
  obtain p where p: "\<forall>z. keyB typ_s t z = p @ z" using keyB_prefix by blast
  then obtain z where z: "k = keyB typ_s t z" "stop < z" "z \<le> start"
    using between_prefix [of p stop k start] assms(6,7) by auto
  obtain nid' r' where n: "valid_node nid'" "int63 r'" "z = node_row nid' @ be8 r'"
    using key_ok_subtree assms(1,2) z(1) by metis
  then have "node_row nid' = node_row nid \<and> r' \<le> r"
    using rangeNodeID_exact [OF assms(3) n(1) assms(4) n(2) assms(5)] z by simp
  with n z show ?thesis by auto
qed

lemma getSubtree_none:
  assumes "db_inv d" "valid_tree t" "int63 r" "valid_node nid" "snapErr io = None" "iter_Error io = None"
    "\<forall>r'. int63 r' \<and> r' \<le> r \<longrightarrow> subtree_at d t nid r' = None"
  shows "getSubtree cd io d t r nid = Inr None"
proof -
  obtain start stop where rg: "rangeNodeID r nid = Inr (start, stop)"
    using node_row_split [OF assms(4)] rangeNodeID_valid [OF assms(4)] by metis
  have "\<not> (k \<le> keyB typ_s t start \<and> keyB typ_s t stop < k)" if "(k, v) \<in> set d" for k v
    using subtree_row_between [OF _ assms(2,4,3) rg, of k] db_invD(2) [OF assms(1) that] assms(7)
      db_get_iff [OF db_invD(1) [OF assms(1)]] that by (auto simp: subtree_at_def)
  then have "\<not> (\<not> k > keyB typ_s t start \<and> keyB typ_s t stop < k)"
    if "db_seek_back d (keyB typ_s t start) = Some (k, v)" for k v
    using db_seek_back_Some [OF db_invD(1) [OF assms(1)] that] by (auto simp: not_less)
  with assms(5,6) rg show ?thesis
    by (auto simp: getSubtree_def Let_def split: option.splits)
qed

lemma getSubtree_some:
  assumes "db_inv d" "valid_tree t" "int63 r" "valid_node nid" "snapErr io = None" "iter_Error io = None"
    "subtree_at d t nid r' = Some raw" "int63 r'" "r' \<le> r" "iter_Value io raw = Some raw"
    "\<forall>q. r' < q \<and> q \<le> r \<longrightarrow> subtree_at d t nid q = None"
  shows "getSubtree cd io d t r nid = parse_subtree cd raw"
proof -
  have wf: "db_wf d" using assms(1) by (rule db_invD)
  obtain start stop where rg: "rangeNodeID r nid = Inr (start, stop)"
    using node_row_split [OF assms(4)] rangeNodeID_valid [OF assms(4)] by metis
  let ?k = "keyB typ_s t (node_row nid @ be8 r')"
  have in_d: "(?k, raw) \<in> set d" using assms(7) wf by (simp add: subtree_at_def db_get_iff)
  have k: "stop < node_row nid @ be8 r'" "node_row nid @ be8 r' \<le> start"
    using rangeNodeID_exact [OF assms(4,4,3,8) rg] assms(9) by auto
  have "db_seek_back d (keyB typ_s t start) = Some (?k, raw)"
  proof (rule db_seek_back_eq [OF wf in_d])
    show "?k \<le> keyB typ_s t start" using k by simp
    fix e assume e: "e \<in> set d" "fst e \<le> keyB typ_s t start"
    show "fst e \<le> ?k"
    proof (rule ccontr)
      assume "\<not> fst e \<le> ?k"
      then have gt: "?k < fst e" by simp
      then have "keyB typ_s t stop < fst e" using k(1) by (meson keyB_same_less less_trans)
      then obtain q where q: "int63 q" "q \<le> r" "fst e = keyB typ_s t (node_row nid @ be8 q)"
        using subtree_row_between [OF _ assms(2,4,3) rg _ e(2)] assms(1) e(1) by (auto simp: db_inv_def)
      then have "r' < q" using gt assms(8) by (simp add: be8_less_iff)
      moreover have "subtree_at d t nid q = Some (snd e)"
        using e(1) q(3) wf by (metis db_get_iff prod.collapse subtree_at_def)
      ultimately show False using assms(11) q(2) by simp
    qed
  qed
  with assms(5,6,10) rg k show ?thesis
    by (auto simp: getSubtree_def parse_subtree_def not_less split: sum.splits)
qed

text \<open>
  C12. Of a database whose keys have the shape every run maintains, \<open>getSubtree\<close> finds the subtree with
  the latest revision not above the requested one, and nothing when there is none, although it searches
  with one iterator over rows of all kinds and trees.
\<close>

theorem getSubtree_latest_revision:
  assumes "db_inv d" "valid_tree t" "int63 r" "valid_node nid"
  shows "((\<forall>r'. int63 r' \<and> r' \<le> r \<longrightarrow> subtree_at d t nid r' = None) \<longrightarrow>
            getSubtree cd no_faults d t r nid = Inr None) \<and>
         (\<forall>r' raw. int63 r' \<and> r' \<le> r \<and> subtree_at d t nid r' = Some raw \<and>
            (\<forall>q. r' < q \<and> q \<le> r \<longrightarrow> subtree_at d t nid q = None) \<longrightarrow>
            getSubtree cd no_faults d t r nid = parse_subtree cd raw)"
proof (intro conjI allI impI)
  show "getSubtree cd no_faults d t r nid = Inr None"
    if "\<forall>r'. int63 r' \<and> r' \<le> r \<longrightarrow> subtree_at d t nid r' = None"
    by (rule getSubtree_none [OF assms _ _ that]) simp_all
  fix r' raw
  assume "int63 r' \<and> r' \<le> r \<and> subtree_at d t nid r' = Some raw \<and>
    (\<forall>q. r' < q \<and> q \<le> r \<longrightarrow> subtree_at d t nid q = None)"
  then show "getSubtree cd no_faults d t r nid = parse_subtree cd raw"
    by (intro getSubtree_some [OF assms, where r' = r']) simp_all
qed

theorem getSubtree_latest_revision_witness:
  "getSubtree sample_codec no_faults
     [(keyB typ_s 7 (node_row \<lparr>Path = [], PrefixLenBits = 0\<rparr> @ be8 1), [10]),
      (keyB typ_s 7 (node_row \<lparr>Path = [], PrefixLenBits = 0\<rparr> @ be8 3), [30])]
     7 2 \<lparr>Path = [], PrefixLenBits = 0\<rparr> = parse_subtree sample_codec [10]"
proof -
  let ?n = "\<lparr>Path = [], PrefixLenBits = 0\<rparr>"
  let ?d = "[(keyB typ_s 7 (node_row ?n @ be8 1), [10]), (keyB typ_s 7 (node_row ?n @ be8 3), [30])] :: db"
  have n: "valid_node ?n" by (simp add: valid_node_def)
  have "key_ok (row_key 7 (SubtreeRow ?n q))" if "int63 q" for q
    using n that by (intro key_okI) (simp_all add: valid_tree_def)
  then have "db_inv ?d"
    by (simp add: db_inv_def db_wf_def int63_def be8_less_iff)
  moreover have "subtree_at ?d 7 ?n 1 = Some [10]"
    by (simp add: subtree_at_def db_get_def)
  moreover have "\<forall>q. 1 < q \<and> q \<le> 2 \<longrightarrow> subtree_at ?d 7 ?n q = None"
  proof (intro allI impI)
    fix q :: int assume "1 < q \<and> q \<le> 2"
    then have "q = 2" by simp
    then show "subtree_at ?d 7 ?n q = None"
      by (simp add: subtree_at_def db_get_def be8_eq_iff int63_def)
  qed
  ultimately show ?thesis
    using getSubtree_latest_revision [THEN conjunct2, rule_format, of ?d 7 2 ?n 1 "[10]" sample_codec] n
    by (simp add: valid_tree_def int63_def)
qed

section \<open>Writing subtrees\<close>

lemma PutSubtrees_loop_ok:
  assumes "batch ltx = Some ops" "list_all valid_node ids" "length ids = length raws"
    "mapM (marshalSubtree cd) subtrees = Inr raws"
  shows "PutSubtrees_loop cd t r i ids subtrees ltx =
    (ltx\<lparr>batch := Some (ops @ map (\<lambda>(k, v). BatchPut k v)
       (zip (map (\<lambda>nid. keyB typ_s t (node_row nid @ be8 r)) ids) raws))\<rparr>, Inr ())"
  using assms
proof (induction ids arbitrary: subtrees raws ltx ops i)
  case Nil
  then show ?case by simp
next
  case (Cons nid ids)
  then obtain raw raws' where raws: "raws = raw # raws'" by (cases raws) auto
  then obtain s subtrees' where s: "subtrees = s # subtrees'" "marshalSubtree cd s = Inr raw"
      "mapM (marshalSubtree cd) subtrees' = Inr raws'"
    using Cons.prems(4) by (cases subtrees) (auto split: sum.splits)
  show ?case
    using Cons.prems raws s
    by (simp add: rowkeyNodeID_valid Cons.IH [of "_\<lparr>batch := Some (ops @ [BatchPut _ _])\<rparr>" "ops @ [BatchPut _ _]"])
qed

lemma PutSubtrees_ok:
  assumes "list_all valid_node ids" "length ids = length subtrees" "mapM (marshalSubtree cd) subtrees = Inr raws"
  shows "LocalTx_PutSubtrees cd Local_Begin t r ids subtrees =
    (\<lparr>batch = Some (map (\<lambda>(k, v). BatchPut k v) (zip (map (\<lambda>nid. keyB typ_s t (node_row nid @ be8 r)) ids) raws))\<rparr>,
     Inr ())"
  using assms mapM_length [OF assms(3)]
    PutSubtrees_loop_ok [of "\<lparr>batch = Some []\<rparr>" "[]" ids raws cd subtrees t r 0]
  by (simp add: LocalTx_PutSubtrees_def Local_Begin_def)

lemma Commit_no_faults [simp]:
  "LocalTx_Commit no_faults d \<lparr>batch = Some ops\<rparr> = (db_write d ops, \<lparr>batch = None\<rparr>, Inr ())"
  by (simp add: LocalTx_Commit_def)

lemma getSubtree_cong:
  assumes "db_inv d" "db_inv d'" "valid_tree t" "int63 r" "valid_node nid"
    "\<And>q. int63 q \<Longrightarrow> q \<le> r \<Longrightarrow> subtree_at d' t nid q = subtree_at d t nid q"
  shows "getSubtree cd no_faults d' t r nid = getSubtree cd no_faults d t r nid"
proof -
  define Q where "Q = {q. int63 q \<and> q \<le> r \<and> subtree_at d t nid q \<noteq> None}"
  have fin: "finite Q" by (rule finite_subset [of _ "{0..r}"]) (auto simp: Q_def int63_def)
  show ?thesis
  proof (cases "Q = {}")
    case True
    then have "\<forall>q. int63 q \<and> q \<le> r \<longrightarrow> subtree_at d t nid q = None" by (auto simp: Q_def)
    with assms(6) show ?thesis
      using getSubtree_none [OF assms(1,3,4,5)] getSubtree_none [OF assms(2,3,4,5)] by simp
  next
    case False
    define m where "m = Max Q"
    have "m \<in> Q" using False fin by (simp add: m_def)
    then obtain raw where m: "int63 m" "m \<le> r" "subtree_at d t nid m = Some raw" by (auto simp: Q_def)
    have top: "\<forall>q. m < q \<and> q \<le> r \<longrightarrow> subtree_at d t nid q = None"
    proof (intro allI impI)
      fix q assume q: "m < q \<and> q \<le> r"
      then have "int63 q" using m(1) assms(4) by (simp add: int63_def)
      moreover have "q \<notin> Q" using q Max_ge [OF fin, of q] by (auto simp: m_def)
      ultimately show "subtree_at d t nid q = None" using q by (simp add: Q_def)
    qed
    moreover have "\<forall>q. m < q \<and> q \<le> r \<longrightarrow> subtree_at d' t nid q = None"
      using top assms(4,6) m(1) by (auto simp: int63_def)
    ultimately show ?thesis
      using getSubtree_some [OF assms(1,3,4,5), of no_faults m raw] m assms(6)
        getSubtree_some [OF assms(2,3,4,5), of no_faults m raw] by simp
  qed
qed

lemma subtree_at_write:
  assumes "db_wf d" "valid_tree t" "int63 r" "int63 q" "list_all valid_node ids" "valid_node nid"
  shows "subtree_at (db_write d (map (\<lambda>(k, v). BatchPut k v)
           (zip (map (\<lambda>nid. keyB typ_s t (node_row nid @ be8 r)) ids) raws))) t nid q =
    (if q = r then (case map_of (rev (zip (map node_row ids) raws)) (node_row nid) of
                      Some raw \<Rightarrow> Some raw | None \<Rightarrow> subtree_at d t nid q)
     else subtree_at d t nid q)"
proof -
  have len: "\<forall>n \<in> set ids. length (node_row n) = length (node_row nid)"
    using assms(5,6) by (auto simp: list_all_iff length_node_row)
  have "map_of (rev (zip (map (\<lambda>nid. keyB typ_s t (node_row nid @ be8 r)) ids) raws)) (keyB typ_s t (node_row nid @ be8 q))
    = (if q = r then map_of (rev (zip (map node_row ids) raws)) (node_row nid) else None)"
    using len assms(3,4)
  proof (induction ids arbitrary: raws)
    case Nil
    then show ?case by simp
  next
    case (Cons n ids)
    then show ?case
      by (cases raws) (auto simp: map_add_def be8_eq_iff split: option.splits)
  qed
  then show ?thesis
    using assms(1) by (auto simp: subtree_at_def db_get_write batch_effect_puts split: option.splits)
qed

lemma GetSubtrees_loop_all:
  assumes "list_all2 (\<lambda>nid s. getSubtree cd io d t r nid = Inr (Some s)) ids subtrees"
  shows "GetSubtrees_loop cd io d t r i ids out = Inr (out @ subtrees)"
  using assms by (induction ids subtrees arbitrary: i out rule: list_all2_induct) auto



end
