(* ===== verification/AdminStorage.thy ===== *)
theory AdminStorage
  imports Prelude
begin

text \<open>
  The administrative storage (\<open>config/admin_storage.go\<close>): a read-only list of trees that comes from the
  configuration file, behind Trillian's interface for administrative transactions.
\<close>

section \<open>Trees\<close>

datatype TreeState =
    UNKNOWN_TREE_STATE | ACTIVE | FROZEN | DEPRECATED_SOFT_DELETED | DEPRECATED_HARD_DELETED | DRAINING

datatype TreeType = UNKNOWN_TREE_TYPE | LOG | MAP | PREORDERED_LOG

datatype HashStrategy =
    UNKNOWN_HASH_STRATEGY | RFC6962_SHA256 | TEST_MAP_HASHER | OBJECT_RFC6962_SHA256 | CONIKS_SHA512_256 | CONIKS_SHA256

datatype HashAlgorithm = HASH_NONE | HASH_SHA256

datatype SignatureAlgorithm = ANONYMOUS | RSA | ECDSA

text \<open>\<open>any.Any\<close> and \<open>trillian.Tree\<close>, with the fields the program sets.\<close>

record Any =
  TypeUrl :: string
  AnyValue :: bytes

record LogTree =
  TreeId :: int
  tree_State :: TreeState
  tree_Type :: TreeType
  tree_HashStrategy :: HashStrategy
  tree_HashAlgorithm :: HashAlgorithm
  tree_SignatureAlgorithm :: SignatureAlgorithm
  tree_PublicKey :: bytes
  tree_PrivateKey :: Any
  tree_MaxRootDuration :: "int \<times> int"
  tree_CreateTime :: "int \<times> int"
  tree_UpdateTime :: "int \<times> int"

record adminStorage =
  as_trees :: "LogTree list"

record adminTx =
  at_trees :: "LogTree list"

section \<open>Operations\<close>

definition as_Snapshot :: "adminStorage \<Rightarrow> adminTx result" where
  "as_Snapshot st = Inr \<lparr>at_trees = as_trees st\<rparr>"

text \<open>\<open>ReadWriteTransaction\<close> runs the callback on a transaction and returns its error, if any.\<close>

definition as_ReadWriteTransaction :: "adminStorage \<Rightarrow> (adminTx \<Rightarrow> 'a result) \<Rightarrow> 'a result" where
  "as_ReadWriteTransaction st f = f \<lparr>at_trees = as_trees st\<rparr>"

definition as_CheckDatabaseAccessible :: "unit result" where
  "as_CheckDatabaseAccessible = Inr ()"

definition at_Commit :: "adminTx \<Rightarrow> unit result" where "at_Commit tx = Inr ()"
definition at_Rollback :: "adminTx \<Rightarrow> unit result" where "at_Rollback tx = Inr ()"
definition at_Close :: "adminTx \<Rightarrow> unit result" where "at_Close tx = Inr ()"
definition at_IsClosed :: "adminTx \<Rightarrow> bool" where "at_IsClosed tx = False"

fun GetTree_loop :: "int \<Rightarrow> LogTree list \<Rightarrow> LogTree result" where
  "GetTree_loop treeID [] = Inl (Errorf ''tree %v not found'' [ArgInt treeID])"
| "GetTree_loop treeID (tree # trees) = (if TreeId tree = treeID then Inr tree else GetTree_loop treeID trees)"

definition GetTree :: "adminTx \<Rightarrow> int \<Rightarrow> LogTree result" where
  "GetTree tx treeID = GetTree_loop treeID (at_trees tx)"

definition ListTreeIDs :: "adminTx \<Rightarrow> bool \<Rightarrow> int list result" where
  "ListTreeIDs tx includeDeleted = Inr (map TreeId (at_trees tx))"

definition ListTrees :: "adminTx \<Rightarrow> bool \<Rightarrow> LogTree list result" where
  "ListTrees tx includeDeleted = Inr (at_trees tx)"

definition CreateTree :: "adminTx \<Rightarrow> LogTree \<Rightarrow> LogTree result" where
  "CreateTree tx tree = Inl (Errorf ''creating trees is not implemented'' [])"

definition UpdateTree :: "adminTx \<Rightarrow> int \<Rightarrow> (LogTree \<Rightarrow> LogTree) \<Rightarrow> LogTree result" where
  "UpdateTree tx treeID updateFunc = Inl (Errorf ''updating trees is not implemented'' [])"

definition SoftDeleteTree :: "adminTx \<Rightarrow> int \<Rightarrow> LogTree result" where
  "SoftDeleteTree tx treeID = Inl (Errorf ''soft-deleting trees is not implemented'' [])"

definition HardDeleteTree :: "adminTx \<Rightarrow> int \<Rightarrow> unit result" where
  "HardDeleteTree tx treeID = Inl (Errorf ''hard-deleting trees is not implemented'' [])"

definition UndeleteTree :: "adminTx \<Rightarrow> int \<Rightarrow> LogTree result" where
  "UndeleteTree tx treeID = Inl (Errorf ''undeleting trees is not implemented'' [])"

section \<open>The interface its clients use\<close>

text \<open>
  What a client of Trillian's read-only administrative transactions relies on: the ids listed are those of
  the trees listed, and looking up the id of a listed tree gives the first listed tree with that id, while
  other ids are not found.
\<close>

locale admin_reader =
  fixes list_trees :: "'tx \<Rightarrow> bool \<Rightarrow> LogTree list result"
    and list_ids :: "'tx \<Rightarrow> bool \<Rightarrow> int list result"
    and get_tree :: "'tx \<Rightarrow> int \<Rightarrow> LogTree result"
  assumes ids_of_trees: "list_trees tx b = Inr ts \<Longrightarrow> list_ids tx b = Inr (map TreeId ts)"
    and get_first: "list_trees tx b = Inr ts \<Longrightarrow> find (\<lambda>t. TreeId t = i) ts = Some t \<Longrightarrow> get_tree tx i = Inr t"
    and get_missing: "list_trees tx b = Inr ts \<Longrightarrow> find (\<lambda>t. TreeId t = i) ts = None \<Longrightarrow> \<exists>e. get_tree tx i = Inl e"
begin

lemma get_listed:
  assumes "list_trees tx b = Inr ts" "distinct (map TreeId ts)" "t \<in> set ts"
  shows "get_tree tx (TreeId t) = Inr t"
proof -
  obtain t' where t': "find (\<lambda>u. TreeId u = TreeId t) ts = Some t'"
    using assms(3) by (cases "find (\<lambda>u. TreeId u = TreeId t) ts") (auto simp: find_None_iff)
  then have "t' \<in> set ts" "TreeId t' = TreeId t" by (auto simp: find_Some_iff)
  moreover have "inj_on TreeId (set ts)" using assms(2) by (simp add: distinct_map)
  ultimately have "t' = t" using assms(3) by (intro inj_onD [of TreeId "set ts"])
  with get_first [OF assms(1) t'] show ?thesis by simp
qed

lemma get_iff_listed:
  assumes "list_trees tx b = Inr ts"
  shows "(\<exists>t. get_tree tx i = Inr t) \<longleftrightarrow> i \<in> TreeId ` set ts"
proof (cases "find (\<lambda>t. TreeId t = i) ts")
  case None
  then show ?thesis using get_missing [OF assms None] by (auto simp: find_None_iff)
next
  case (Some t)
  then show ?thesis using get_first [OF assms Some] by (auto simp: find_Some_iff)
qed

end

lemma GetTree_loop_find:
  "GetTree_loop i ts = (case find (\<lambda>t. TreeId t = i) ts of None \<Rightarrow> Inl (Errorf ''tree %v not found'' [ArgInt i]) | Some t \<Rightarrow> Inr t)"
  by (induction ts) auto

interpretation adm: admin_reader ListTrees ListTreeIDs GetTree
  by unfold_locales (auto simp: ListTrees_def ListTreeIDs_def GetTree_def GetTree_loop_find)

end
