(* ===== verification/Config.thy ===== *)
theory Config
  imports AdminStorage RowKeys
begin

text \<open>
  Reading the configuration (\<open>config/config.go\<close>): validation of the file, and the two views of each log that the
  program derives from it, the certificate-transparency configuration and the Trillian tree. Reading files,
  the YAML decoder, the parsers of durations, times and PEM blocks, and the protobuf encoder are arguments.
\<close>

section \<open>Data\<close>

record logMeta =
  m_LogId :: int
  m_CreateTime :: string
  m_UpdateTime :: string
  m_TreeState :: string
  m_SigAlg :: string
  m_MaxRootDuration :: string
  m_NotAfterStart :: string
  m_NotAfterStop :: string
  m_Prefix :: string
  m_RootsFile :: string
  m_PubKey :: string
  m_PrivKey :: string

record SignerConfig =
  BatchSize :: int
  RunInterval :: int
  GuardWindow :: int

record config_file =
  f_MetricsAddr :: string
  f_ServerAddr :: string
  f_CertFile :: string
  f_KeyFile :: string
  f_LevelDBPath :: string
  f_B2AcctId :: string
  f_B2AppKey :: string
  f_B2Bucket :: string
  f_B2Url :: string
  f_LeafCacheSize :: int
  f_MaxUnsequencedLeaves :: int
  f_MaxClients :: int
  f_RequestTimeout :: string
  f_Signer :: SignerConfig
  f_Logs :: "logMeta list"

record LogConfig =
  lc_LogId :: int
  lc_Prefix :: string
  lc_RootsPemFile :: "string list"
  lc_NotAfterStart :: "int option"  \<comment> \<open>seconds\<close>
  lc_NotAfterLimit :: "int option"
  lc_PublicKey :: bytes
  lc_PrivateKey :: Any

record Config =
  MetricsAddr :: string
  ServerAddr :: string
  CertFile :: string
  KeyFile :: string
  LevelDBPath :: string
  B2AcctId :: string
  B2AppKey :: string
  B2Bucket :: string
  B2Url :: string
  LeafCacheSize :: int
  MaxUnsequencedLeaves :: int
  MaxClients :: int
  RequestTimeout :: int
  Signer :: SignerConfig
  LogConfigs :: "LogConfig list"
  AdminStorage :: adminStorage

text \<open>
  The code outside the model. A point in time is its Unix seconds and the nanoseconds within the second;
  \<open>pemDecode\<close> gives the bytes of the first block, if there is one, and the rest of the input.
\<close>

record config_libs =
  readFile :: "string \<Rightarrow> bytes result"
  yamlUnmarshal :: "bytes \<Rightarrow> config_file result"
  ParseDuration :: "string \<Rightarrow> int result"
  timeParse :: "string \<Rightarrow> string \<Rightarrow> (int \<times> int) result"
  getenv :: "string \<Rightarrow> string"
  pemDecode :: "string \<Rightarrow> bytes option \<times> string"
  marshalPrivateKey :: "bytes \<Rightarrow> bytes result"

section \<open>Library functions\<close>

text \<open>\<open>os.ExpandEnv\<close>: names after a dollar sign, in braces or not, are replaced by the variables' values.\<close>

definition isShellSpecialVar :: "char \<Rightarrow> bool" where
  "isShellSpecialVar c \<longleftrightarrow> c \<in> set ''*#$@!?-0123456789''"

definition isAlphaNum :: "char \<Rightarrow> bool" where
  "isAlphaNum c \<longleftrightarrow> c \<in> set ''_0123456789abcdefghijklmnopqrstuvwxyzABCDEFGHIJKLMNOPQRSTUVWXYZ''"

definition getShellName :: "string \<Rightarrow> string \<times> nat" where
  "getShellName s =
    (if s \<noteq> [] \<and> hd s = CHR ''{''
     then if length s > 2 \<and> isShellSpecialVar (s ! 1) \<and> s ! 2 = CHR ''}'' then ([s ! 1], 3)
          else let name = takeWhile (\<lambda>c. c \<noteq> CHR ''}'') (tl s) in
               if length name = length (tl s) then ([], 1)
               else if name = [] then ([], 2) else (name, length name + 2)
     else if s \<noteq> [] \<and> isShellSpecialVar (hd s) then ([hd s], 1)
     else let name = takeWhile isAlphaNum s in (name, length name))"

function Expand :: "(string \<Rightarrow> string) \<Rightarrow> string \<Rightarrow> string" where
  "Expand env [] = []"
| "Expand env (c # s) =
    (if c = CHR ''$'' \<and> s \<noteq> []
     then let (name, w) = getShellName s
          in (if name = [] \<and> w > 0 then [] else if name = [] then [c] else env name) @ Expand env (drop w s)
     else c # Expand env s)"
  by pat_completeness auto
termination by (relation "measure (\<lambda>(env, s). length s)") auto

declare Expand.simps(2) [simp del]

lemma Expand_plain: "CHR ''$'' \<notin> set s \<Longrightarrow> Expand env s = s"
  by (induction s) (auto simp: Expand.simps(2))

text \<open>\<open>ptypes.DurationProto\<close> and \<open>ptypes.TimestampProto\<close>.\<close>

definition DurationProto :: "int \<Rightarrow> int \<times> int" where
  "DurationProto d = (let secs = d sdiv 1000000000 in (secs, d - secs * 1000000000))"

definition TimestampProto :: "int \<times> int \<Rightarrow> (int \<times> int) result" where
  "TimestampProto t =
    (let (seconds, nanos) = t in
     if seconds < -62135596800 then Inl (Errorf ''timestamp: %v before 0001-01-01'' [ArgInt seconds, ArgInt nanos])
     else if seconds \<ge> 253402300800 then Inl (Errorf ''timestamp: %v after 10000-01-01'' [ArgInt seconds, ArgInt nanos])
     else if nanos < 0 \<or> nanos \<ge> 1000000000 then Inl (Errorf ''timestamp: %v: nanos not in range [0, 1e9)'' [ArgInt seconds, ArgInt nanos])
     else Inr (seconds, nanos))"

definition TreeState_value :: "string \<rightharpoonup> TreeState" where
  "TreeState_value =
    [''UNKNOWN_TREE_STATE'' \<mapsto> UNKNOWN_TREE_STATE, ''ACTIVE'' \<mapsto> ACTIVE, ''FROZEN'' \<mapsto> FROZEN,
     ''DEPRECATED_SOFT_DELETED'' \<mapsto> DEPRECATED_SOFT_DELETED, ''DEPRECATED_HARD_DELETED'' \<mapsto> DEPRECATED_HARD_DELETED,
     ''DRAINING'' \<mapsto> DRAINING]"

definition SignatureAlgorithm_value :: "string \<rightharpoonup> SignatureAlgorithm" where
  "SignatureAlgorithm_value = [''ANONYMOUS'' \<mapsto> ANONYMOUS, ''RSA'' \<mapsto> RSA, ''ECDSA'' \<mapsto> ECDSA]"

section \<open>One log\<close>

definition parseTime :: "config_libs \<Rightarrow> string \<Rightarrow> (int \<times> int) result" where
  "parseTime lib inp = timeParse lib ''2006-01-02 15:04:05 MST'' inp"

definition parseKeypair :: "config_libs \<Rightarrow> logMeta \<Rightarrow> (bytes \<times> Any) result" where
  "parseKeypair lib meta =
    (let pubStr = Expand (getenv lib) (m_PubKey meta); privStr = Expand (getenv lib) (m_PrivKey meta) in
     (case pemDecode lib pubStr of
        (None, rest) \<Rightarrow> Inl (Errorf ''failed to pem-decode public key'' [])
      | (Some pub, rest) \<Rightarrow>
     if length rest > 0 then Inl (Errorf ''unnecessary data appended to public key'' [])
     else
     (case pemDecode lib privStr of
        (None, rest) \<Rightarrow> Inl (Errorf ''failed to pem-decode private key'' [])
      | (Some priv, rest) \<Rightarrow>
     if length rest > 0 then Inl (Errorf ''unnecessary data appended to private key'' [])
     else
     (case marshalPrivateKey lib priv of Inl e \<Rightarrow> Inl e | Inr raw \<Rightarrow>
      Inr (pub, \<lparr>TypeUrl = ''type.googleapis.com/keyspb.PrivateKey'', AnyValue = raw\<rparr>)))))"

definition notAfter :: "config_libs \<Rightarrow> logMeta \<Rightarrow> (int option \<times> int option) result" where
  "notAfter lib meta =
    (if m_NotAfterStart meta \<noteq> [] \<or> m_NotAfterStop meta \<noteq> []
     then (case parseTime lib (m_NotAfterStart meta) of Inl e \<Rightarrow> Inl e | Inr start \<Rightarrow>
          (case parseTime lib (m_NotAfterStop meta) of Inl e \<Rightarrow> Inl e | Inr stop \<Rightarrow>
           Inr (Some (fst start), Some (fst stop))))
     else Inr (None, None))"

definition logConfig :: "config_libs \<Rightarrow> logMeta \<Rightarrow> LogConfig result" where
  "logConfig lib meta =
    (case parseKeypair lib meta of Inl e \<Rightarrow> Inl e | Inr (pubKey, privKey) \<Rightarrow>
    (case notAfter lib meta of Inl e \<Rightarrow> Inl e | Inr (notAfterStart, notAfterStop) \<Rightarrow>
     Inr \<lparr>lc_LogId = m_LogId meta, lc_Prefix = m_Prefix meta, lc_RootsPemFile = [m_RootsFile meta],
          lc_NotAfterStart = notAfterStart, lc_NotAfterLimit = notAfterStop,
          lc_PublicKey = pubKey, lc_PrivateKey = privKey\<rparr>))"

definition readTree :: "config_libs \<Rightarrow> logMeta \<Rightarrow> LogTree result" where
  "readTree lib meta =
    (case TreeState_value (m_TreeState meta) of
       None \<Rightarrow> Inl (Errorf ''unknown tree state: %v'' [ArgStr (m_TreeState meta)])
     | Some ts \<Rightarrow>
    (case SignatureAlgorithm_value (m_SigAlg meta) of
       None \<Rightarrow> Inl (Errorf ''unknown signature algorithm: %v'' [ArgStr (m_SigAlg meta)])
     | Some sa \<Rightarrow>
    (case parseKeypair lib meta of Inl e \<Rightarrow> Inl e | Inr (pubKey, privKey) \<Rightarrow>
    (case ParseDuration lib (m_MaxRootDuration meta) of
       Inl e \<Rightarrow> Inl (wrap_err ''failed to parse max root duration: %v'' [] e)
     | Inr maxRootDuration \<Rightarrow>
    (case parseTime lib (m_CreateTime meta) of
       Inl e \<Rightarrow> Inl (wrap_err ''failed to parse create time: %v'' [] e)
     | Inr createTime \<Rightarrow>
    (case TimestampProto createTime of Inl e \<Rightarrow> Inl e | Inr created \<Rightarrow>
    (case parseTime lib (m_UpdateTime meta) of
       Inl e \<Rightarrow> Inl (wrap_err ''failed to parse update time: %v'' [] e)
     | Inr updateTime \<Rightarrow>
    (case TimestampProto updateTime of Inl e \<Rightarrow> Inl e | Inr updated \<Rightarrow>
     Inr \<lparr>TreeId = m_LogId meta, tree_State = ts, tree_Type = LOG, tree_HashStrategy = RFC6962_SHA256,
          tree_HashAlgorithm = HASH_SHA256, tree_SignatureAlgorithm = sa, tree_PublicKey = pubKey, tree_PrivateKey = privKey,
          tree_MaxRootDuration = DurationProto maxRootDuration, tree_CreateTime = created, tree_UpdateTime = updated\<rparr>))))))))"

section \<open>The file\<close>

text \<open>The inner loop over \<open>parsed.Logs[i+1:]\<close>: its index \<open>j\<close> counts from the start of that slice.\<close>

fun find_duplicate :: "int \<Rightarrow> int \<Rightarrow> logMeta list \<Rightarrow> int option" where
  "find_duplicate i j [] = None"
| "find_duplicate i j (cand # cands) = (if i = m_LogId cand then Some j else find_duplicate i (j + 1) cands)"

fun check_ids :: "int \<Rightarrow> logMeta list \<Rightarrow> unit result" where
  "check_ids i [] = Inr ()"
| "check_ids i (meta # rest) =
    (if m_LogId meta \<le> 0
     then Inl (Errorf ''log #%v in config file: log cannot have id %v'' [ArgInt (i + 1), ArgInt (m_LogId meta)])
     else case find_duplicate (m_LogId meta) 0 rest of
         Some j \<Rightarrow> Inl (Errorf ''logs #%v and #%v in config file have the same log id'' [ArgInt (i + 1), ArgInt (j + 1)])
       | None \<Rightarrow> check_ids (i + 1) rest)"

text \<open>The two loops that extract something from every log, wrapping errors with the log's number.\<close>

fun each_log :: "(logMeta \<Rightarrow> 'a result) \<Rightarrow> int \<Rightarrow> logMeta list \<Rightarrow> 'a list result" where
  "each_log f i [] = Inr []"
| "each_log f i (meta # rest) =
    (case f meta of
       Inl e \<Rightarrow> Inl (wrap_err ''log #%v in config file: %v'' [ArgInt (i + 1)] e)
     | Inr x \<Rightarrow> (case each_log f (i + 1) rest of Inl e \<Rightarrow> Inl e | Inr xs \<Rightarrow> Inr (x # xs)))"

definition check_file :: "config_file \<Rightarrow> unit result" where
  "check_file parsed =
    (if length (f_MetricsAddr parsed) = 0 then Inl (Errorf ''no address to serve metrics on was found in config file'' [])
     else if length (f_ServerAddr parsed) = 0 then Inl (Errorf ''no address for the server to listen on was found in config file'' [])
     else if length (f_LevelDBPath parsed) = 0 then Inl (Errorf ''leveldb path not found in config file'' [])
     else if length (f_B2AcctId parsed) = 0 then Inl (Errorf ''no backblaze account id found in config file'' [])
     else if length (f_B2AppKey parsed) = 0 then Inl (Errorf ''no backblaze application key found in config file'' [])
     else if length (f_B2Bucket parsed) = 0 then Inl (Errorf ''no backblaze bucket found in config file'' [])
     else if length (f_B2Url parsed) = 0 then Inl (Errorf ''no backblaze download url found in config file'' [])
     else if f_LeafCacheSize parsed < 0 then Inl (Errorf ''leaf_cache_size cannot be less than zero'' [])
     else if f_MaxUnsequencedLeaves parsed < 1 then Inl (Errorf ''max_unsequenced_leaves cannot be less than one'' [])
     else if f_MaxClients parsed < 1 then Inl (Errorf ''max_clients cannot be less than one'' [])
     else Inr ())"

definition FromFile :: "config_libs \<Rightarrow> string \<Rightarrow> Config result" where
  "FromFile lib path =
    (case readFile lib path of Inl e \<Rightarrow> Inl e | Inr raw \<Rightarrow>
    (case yamlUnmarshal lib raw of Inl e \<Rightarrow> Inl e | Inr parsed \<Rightarrow>
    (case check_file parsed of Inl e \<Rightarrow> Inl e | Inr _ \<Rightarrow>
    (case ParseDuration lib (f_RequestTimeout parsed) of
       Inl e \<Rightarrow> Inl (wrap_err ''failed to parse request timeout: %v'' [] e)
     | Inr requestTimeout \<Rightarrow>
     if length (f_Logs parsed) = 0 then Inl (Errorf ''no logs found in config file'' [])
     else
    (case check_ids 0 (f_Logs parsed) of Inl e \<Rightarrow> Inl e | Inr _ \<Rightarrow>
    (case each_log (logConfig lib) 0 (f_Logs parsed) of Inl e \<Rightarrow> Inl e | Inr logConfigs \<Rightarrow>
    (case each_log (readTree lib) 0 (f_Logs parsed) of Inl e \<Rightarrow> Inl e | Inr trees \<Rightarrow>
     Inr \<lparr>MetricsAddr = f_MetricsAddr parsed, ServerAddr = f_ServerAddr parsed, CertFile = f_CertFile parsed,
          KeyFile = f_KeyFile parsed, LevelDBPath = f_LevelDBPath parsed,
          B2AcctId = Expand (getenv lib) (f_B2AcctId parsed), B2AppKey = Expand (getenv lib) (f_B2AppKey parsed),
          B2Bucket = Expand (getenv lib) (f_B2Bucket parsed), B2Url = Expand (getenv lib) (f_B2Url parsed),
          LeafCacheSize = f_LeafCacheSize parsed, MaxUnsequencedLeaves = f_MaxUnsequencedLeaves parsed,
          MaxClients = f_MaxClients parsed, RequestTimeout = requestTimeout, Signer = f_Signer parsed,
          LogConfigs = logConfigs, AdminStorage = \<lparr>as_trees = trees\<rparr>\<rparr>)))))))"

section \<open>What is accepted\<close>

lemma find_duplicate_None: "find_duplicate i j ls = None \<longleftrightarrow> i \<notin> m_LogId ` set ls"
  by (induction ls arbitrary: j) auto

lemma check_ids_ok: "check_ids i ls = Inr () \<longleftrightarrow> (\<forall>m \<in> set ls. 0 < m_LogId m) \<and> distinct (map m_LogId ls)"
proof (induction ls arbitrary: i)
  case (Cons m ls)
  then show ?case by (auto simp: find_duplicate_None not_le split: option.splits) (metis find_duplicate_None image_eqI option.distinct(1))+
qed simp

lemma each_log_ok: "each_log f i ls = Inr xs \<longleftrightarrow> list_all2 (\<lambda>m x. f m = Inr x) ls xs"
proof (induction ls arbitrary: i xs)
  case (Cons m ls)
  show ?case by (auto simp: list_all2_Cons1 Cons.IH [of "i + 1", symmetric] split: sum.splits)
qed auto

lemma each_log_total: "(\<exists>xs. each_log f i ls = Inr xs) \<longleftrightarrow> (\<forall>m \<in> set ls. \<exists>x. f m = Inr x)"
  by (induction ls arbitrary: i) (auto split: sum.splits, (metis Inl_Inr_False sum.exhaust)+)

text \<open>What \<open>check_file\<close> demands of the plain fields.\<close>

definition fields_valid :: "config_file \<Rightarrow> bool" where
  "fields_valid f \<longleftrightarrow>
    [] \<notin> set [f_MetricsAddr f, f_ServerAddr f, f_LevelDBPath f, f_B2AcctId f, f_B2AppKey f, f_B2Bucket f, f_B2Url f] \<and>
    0 \<le> f_LeafCacheSize f \<and> 1 \<le> f_MaxUnsequencedLeaves f \<and> 1 \<le> f_MaxClients f"

lemma check_file_ok: "check_file f = Inr () \<longleftrightarrow> fields_valid f"
  by (auto simp: check_file_def fields_valid_def)

lemma FromFile_Inr:
  assumes "FromFile lib path = Inr cfg"
  obtains raw parsed where "readFile lib path = Inr raw" "yamlUnmarshal lib raw = Inr parsed" "fields_valid parsed"
    "check_ids 0 (f_Logs parsed) = Inr ()" "f_Logs parsed \<noteq> []"
    "list_all2 (\<lambda>m c. logConfig lib m = Inr c) (f_Logs parsed) (LogConfigs cfg)"
    "list_all2 (\<lambda>m t. readTree lib m = Inr t) (f_Logs parsed) (as_trees (AdminStorage cfg))"
    "LeafCacheSize cfg = f_LeafCacheSize parsed" "MaxUnsequencedLeaves cfg = f_MaxUnsequencedLeaves parsed"
    "MaxClients cfg = f_MaxClients parsed"
  using assms unfolding FromFile_def
  by (auto simp: each_log_ok check_file_ok split: sum.splits if_splits)

text \<open>
  C39. A configuration file that can be read and decoded is accepted exactly when its plain fields are present and in
  range, the request timeout parses, there is a log, all log ids are positive and different, and both views
  of every log can be built.
\<close>

theorem FromFile_accepts_iff:
  assumes "readFile lib path = Inr raw" "yamlUnmarshal lib raw = Inr parsed"
  shows "(\<exists>cfg. FromFile lib path = Inr cfg) \<longleftrightarrow>
    fields_valid parsed \<and> (\<exists>d. ParseDuration lib (f_RequestTimeout parsed) = Inr d) \<and> f_Logs parsed \<noteq> [] \<and>
    (\<forall>m \<in> set (f_Logs parsed). 0 < m_LogId m) \<and> distinct (map m_LogId (f_Logs parsed)) \<and>
    (\<forall>m \<in> set (f_Logs parsed). (\<exists>c. logConfig lib m = Inr c) \<and> (\<exists>t. readTree lib m = Inr t))"
proof -
  have "(\<exists>cfg. FromFile lib path = Inr cfg) \<longleftrightarrow>
      check_file parsed = Inr () \<and> (\<exists>d. ParseDuration lib (f_RequestTimeout parsed) = Inr d) \<and> f_Logs parsed \<noteq> [] \<and>
      check_ids 0 (f_Logs parsed) = Inr () \<and> (\<exists>cs. each_log (logConfig lib) 0 (f_Logs parsed) = Inr cs) \<and>
      (\<exists>ts. each_log (readTree lib) 0 (f_Logs parsed) = Inr ts)"
    unfolding FromFile_def using assms by (auto split: sum.splits)
  then show ?thesis by (auto simp: check_file_ok check_ids_ok each_log_total)
qed

lemma logConfig_fields:
  assumes "logConfig lib m = Inr c"
  shows "lc_LogId c = m_LogId m" "parseKeypair lib m = Inr (lc_PublicKey c, lc_PrivateKey c)"
  using assms by (auto simp: logConfig_def split: sum.splits)

lemma readTree_fields:
  assumes "readTree lib m = Inr t"
  shows "TreeId t = m_LogId m" "parseKeypair lib m = Inr (tree_PublicKey t, tree_PrivateKey t)"
    "tree_Type t = LOG" "tree_HashStrategy t = RFC6962_SHA256" "TreeState_value (m_TreeState m) = Some (tree_State t)"
  using assms by (auto simp: readTree_def split: sum.splits option.splits)

text \<open>The views of the logs: pairwise the same id and keys, and all ids different positive numbers.\<close>

definition views_agree :: "Config \<Rightarrow> bool" where
  "views_agree cfg \<longleftrightarrow>
    list_all2 (\<lambda>c t. lc_LogId c = TreeId t \<and> lc_PublicKey c = tree_PublicKey t \<and> lc_PrivateKey c = tree_PrivateKey t \<and>
        tree_Type t = LOG \<and> tree_HashStrategy t = RFC6962_SHA256)
      (LogConfigs cfg) (as_trees (AdminStorage cfg)) \<and>
    distinct (map lc_LogId (LogConfigs cfg)) \<and> (\<forall>c \<in> set (LogConfigs cfg). 0 < lc_LogId c)"

lemma list_all2_via:
  assumes "list_all2 P ms xs" "list_all2 Q ms ys" "\<And>m x y. P m x \<Longrightarrow> Q m y \<Longrightarrow> R x y"
  shows "list_all2 R xs ys"
  using assms(1,2) by (auto simp: list_all2_conv_all_nth assms(3))

lemma list_all2_map_eq: "list_all2 P ms xs \<Longrightarrow> (\<And>m x. P m x \<Longrightarrow> f m = g x) \<Longrightarrow> map f ms = map g xs"
  by (induction rule: list_all2_induct) auto

text \<open>
  The two views a successful start works with belong together: the certificate-transparency configurations and the
  trees correspond one to one, in order, with the same positive ids and the same key pair, no two logs share
  an id, every tree is a log hashed the RFC 6962 way, and the limits are at least one.
\<close>

theorem FromFile_views_agree:
  assumes "FromFile lib path = Inr cfg"
  shows "views_agree cfg \<and> LogConfigs cfg \<noteq> [] \<and> map lc_LogId (LogConfigs cfg) = map TreeId (as_trees (AdminStorage cfg)) \<and>
    0 \<le> LeafCacheSize cfg \<and> 1 \<le> MaxUnsequencedLeaves cfg \<and> 1 \<le> MaxClients cfg"
proof -
  obtain raw parsed where p: "fields_valid parsed" "check_ids 0 (f_Logs parsed) = Inr ()" "f_Logs parsed \<noteq> []"
      "list_all2 (\<lambda>m c. logConfig lib m = Inr c) (f_Logs parsed) (LogConfigs cfg)"
      "list_all2 (\<lambda>m t. readTree lib m = Inr t) (f_Logs parsed) (as_trees (AdminStorage cfg))"
      "LeafCacheSize cfg = f_LeafCacheSize parsed" "MaxUnsequencedLeaves cfg = f_MaxUnsequencedLeaves parsed"
      "MaxClients cfg = f_MaxClients parsed"
    by (rule FromFile_Inr [OF assms])
  have ids: "map m_LogId (f_Logs parsed) = map lc_LogId (LogConfigs cfg)"
    "map m_LogId (f_Logs parsed) = map TreeId (as_trees (AdminStorage cfg))"
    using list_all2_map_eq [OF p(4)] list_all2_map_eq [OF p(5)] logConfig_fields(1) readTree_fields(1) by metis+
  have pos: "0 < i" if "i \<in> set (map lc_LogId (LogConfigs cfg))" for i
    using that p(2) unfolding ids(1) [symmetric] check_ids_ok by auto
  have "list_all2 (\<lambda>c t. lc_LogId c = TreeId t \<and> lc_PublicKey c = tree_PublicKey t \<and> lc_PrivateKey c = tree_PrivateKey t \<and>
        tree_Type t = LOG \<and> tree_HashStrategy t = RFC6962_SHA256) (LogConfigs cfg) (as_trees (AdminStorage cfg))"
  proof (rule list_all2_via [OF p(4,5)])
    fix m c t assume m: "logConfig lib m = Inr c" "readTree lib m = Inr t"
    show "lc_LogId c = TreeId t \<and> lc_PublicKey c = tree_PublicKey t \<and> lc_PrivateKey c = tree_PrivateKey t \<and>
        tree_Type t = LOG \<and> tree_HashStrategy t = RFC6962_SHA256"
      using logConfig_fields [OF m(1)] readTree_fields [OF m(2)] by simp
  qed
  moreover have "distinct (map lc_LogId (LogConfigs cfg))" using p(2) ids(1) by (simp add: check_ids_ok)
  moreover have "LogConfigs cfg \<noteq> []" using p(3,4) by auto
  ultimately show ?thesis using pos ids p(1,6-8) by (auto simp: views_agree_def fields_valid_def)
qed

section \<open>The message about duplicate ids\<close>

lemma find_duplicate_first:
  "m_LogId x = i \<Longrightarrow> i \<notin> m_LogId ` set xs \<Longrightarrow> find_duplicate i j (xs @ x # ys) = Some (j + int (length xs))"
  by (induction xs arbitrary: j) auto

text \<open>
  When the first offending log of a file is one whose id occurs again, the error names that log correctly but gives
  the wrong number for the other one: it reports the distance between the two, where the number of the second
  log is greater than that.
\<close>

theorem duplicate_id_message_misnumbers:
  assumes "\<forall>m \<in> set (before @ [a]). 0 < m_LogId m" "distinct (map m_LogId (before @ a # between))"
    and "\<forall>m \<in> set before. m_LogId m \<notin> m_LogId ` set (b # after)" "m_LogId b = m_LogId a"
  shows "check_ids 0 (before @ a # between @ b # after) =
      Inl (Errorf ''logs #%v and #%v in config file have the same log id''
        [ArgInt (int (length before) + 1), ArgInt (int (length between) + 1)]) \<and>
    (before @ a # between @ b # after) ! (length before + length between + 1) = b \<and>
    int (length between) + 1 \<noteq> int (length before + length between + 1) + 1"
proof -
  have "check_ids i (before @ a # between @ b # after) =
      Inl (Errorf ''logs #%v and #%v in config file have the same log id''
        [ArgInt (i + int (length before) + 1), ArgInt (int (length between) + 1)])" for i
    using assms(1-3)
  proof (induction before arbitrary: i)
    case Nil
    have "find_duplicate (m_LogId a) 0 (between @ b # after) = Some (int (length between))"
      using find_duplicate_first [OF assms(4), of between 0 after] Nil.prems(2) by simp
    then show ?case using Nil.prems(1) by simp
  next
    case (Cons m before)
    then have "find_duplicate (m_LogId m) 0 (before @ a # between @ b # after) = None"
      by (auto simp: find_duplicate_None)
    then show ?case using Cons by (simp add: algebra_simps)
  qed
  then show ?thesis by (simp add: nth_append)
qed

section \<open>A concrete file\<close>

definition sample_meta :: "int \<Rightarrow> logMeta" where
  "sample_meta i =
    \<lparr>m_LogId = i, m_CreateTime = ''c'', m_UpdateTime = ''u'', m_TreeState = ''ACTIVE'', m_SigAlg = ''ECDSA'', m_MaxRootDuration = ''1h'',
     m_NotAfterStart = [], m_NotAfterStop = [], m_Prefix = ''p'', m_RootsFile = ''r'', m_PubKey = ''$PUB'', m_PrivKey = ''k''\<rparr>"

definition sample_file :: "int list \<Rightarrow> config_file" where
  "sample_file ids =
    \<lparr>f_MetricsAddr = ''m'', f_ServerAddr = ''s'', f_CertFile = [], f_KeyFile = [], f_LevelDBPath = ''d'', f_B2AcctId = ''a'',
     f_B2AppKey = ''k'', f_B2Bucket = ''b'', f_B2Url = ''u'', f_LeafCacheSize = 0, f_MaxUnsequencedLeaves = 600, f_MaxClients = 10,
     f_RequestTimeout = ''1h'', f_Signer = \<lparr>BatchSize = 1, RunInterval = 1, GuardWindow = 0\<rparr>, f_Logs = map sample_meta ids\<rparr>"

definition sample_libs :: "int list \<Rightarrow> config_libs" where
  "sample_libs ids =
    \<lparr>readFile = \<lambda>_. Inr [], yamlUnmarshal = \<lambda>_. Inr (sample_file ids), ParseDuration = \<lambda>_. Inr 3600000000000,
     timeParse = \<lambda>_ _. Inr (1500000000, 0), getenv = \<lambda>_. ''v'', pemDecode = \<lambda>s. (Some (ascii s), []), marshalPrivateKey = Inr\<rparr>"

lemma sample_keypair: "\<exists>pub priv. parseKeypair (sample_libs ids) (sample_meta i) = Inr (pub, priv)"
  by (simp add: parseKeypair_def sample_libs_def)

lemma sample_views:
  "\<exists>c. logConfig (sample_libs ids) (sample_meta i) = Inr c" "\<exists>t. readTree (sample_libs ids) (sample_meta i) = Inr t"
proof -
  obtain pub priv where keys: "parseKeypair (sample_libs ids) (sample_meta i) = Inr (pub, priv)" using sample_keypair by blast
  show "\<exists>c. logConfig (sample_libs ids) (sample_meta i) = Inr c"
    by (simp add: logConfig_def keys) (simp add: notAfter_def sample_meta_def)
  show "\<exists>t. readTree (sample_libs ids) (sample_meta i) = Inr t"
  proof -
    have "TreeState_value (m_TreeState (sample_meta i)) = Some ACTIVE" "SignatureAlgorithm_value (m_SigAlg (sample_meta i)) = Some ECDSA"
      by (simp_all add: sample_meta_def TreeState_value_def SignatureAlgorithm_value_def)
    moreover have "ParseDuration (sample_libs ids) s = Inr 3600000000000" "parseTime (sample_libs ids) s = Inr (1500000000, 0)" for s
      by (simp_all add: sample_libs_def parseTime_def)
    ultimately show ?thesis by (simp add: readTree_def keys TimestampProto_def)
  qed
qed

theorem FromFile_accepts_iff_witness:
  "(\<exists>cfg. FromFile (sample_libs [3, 4]) ''f'' = Inr cfg) \<and> (\<nexists>cfg. FromFile (sample_libs [3, 3]) ''f'' = Inr cfg)"
proof -
  have ok: "readFile (sample_libs ids) ''f'' = Inr []" "yamlUnmarshal (sample_libs ids) [] = Inr (sample_file ids)"
    "\<exists>d. ParseDuration (sample_libs ids) s = Inr d" "fields_valid (sample_file ids)" for ids s
    by (simp_all add: sample_libs_def fields_valid_def sample_file_def)
  have logs: "f_Logs (sample_file ids) = map sample_meta ids" "m_LogId (sample_meta i) = i" for ids i
    by (simp_all add: sample_file_def sample_meta_def)
  show ?thesis
    using FromFile_accepts_iff [OF ok(1,2), of "[3, 4]"] FromFile_accepts_iff [OF ok(1,2), of "[3, 3]"] ok sample_views
    by (simp add: logs)
qed

theorem FromFile_views_agree_witness:
  "\<exists>cfg. FromFile (sample_libs [3, 4]) ''f'' = Inr cfg \<and> views_agree cfg"
proof -
  have "fields_valid (sample_file [3, 4])" by (simp add: fields_valid_def sample_file_def)
  moreover have "f_Logs (sample_file [3, 4]) = [sample_meta 3, sample_meta 4]" "m_LogId (sample_meta i) = i" for i
    by (simp_all add: sample_file_def sample_meta_def)
  ultimately obtain cfg where cfg: "FromFile (sample_libs [3, 4]) ''f'' = Inr cfg"
    using sample_views [of "[3, 4]" 3] sample_views [of "[3, 4]" 4] check_file_ok [of "sample_file [3, 4]"]
    by (auto simp: FromFile_def) (simp add: sample_libs_def)
  with FromFile_views_agree [OF cfg] show ?thesis by blast
qed

theorem duplicate_id_message_misnumbers_witness:
  "check_ids 0 (map sample_meta [7, 3, 4, 3]) =
     Inl (Errorf ''logs #%v and #%v in config file have the same log id'' [ArgInt 2, ArgInt 2])"
  using duplicate_id_message_misnumbers [of "[sample_meta 7]" "sample_meta 3" "[sample_meta 4]" "sample_meta 3" "[]"]
  by (simp add: sample_meta_def)

end
