(* ===== verification/QuotaManager.thy ===== *)
theory QuotaManager
  imports LocalQueue GoFmt
begin

text \<open>
  The quota manager (\<open>ct/quota_manager.go\<close>), the backpressure from the signer to the servers: per tree a count of
  leaves that wait for sequencing, charged by \<open>GetTokens\<close>, refunded by \<open>PutTokens\<close> and replaced by the real count
  every ten seconds. The loops over several specs are treated once, in a locale of accounts that a step
  charges, which is interpreted on both.
\<close>

section \<open>State\<close>

datatype Group = Global | Tree | User
datatype Kind = Read | Write

record Spec =
  spec_Group :: Group
  spec_Kind :: Kind
  spec_TreeID :: int
  spec_User :: string

text \<open>The gauges map a label to the number last set, before its conversion to a float.\<close>

record QuotaManager =
  maxUnsequencedLeaves :: int
  unsequenced :: "int \<rightharpoonup> int"
  gauge_TreeSize :: "string \<rightharpoonup> int"
  gauge_UnsequencedLeaves :: "string \<rightharpoonup> int"

definition NewQuotaManager :: "int \<Rightarrow> QuotaManager" where
  "NewQuotaManager n =
    \<lparr>maxUnsequencedLeaves = n, unsequenced = Map.empty, gauge_TreeSize = Map.empty, gauge_UnsequencedLeaves = Map.empty\<rparr>"

section \<open>Operations\<close>

text \<open>
  \<open>WatchLog\<close> registers the tree. The goroutine it spawns repeats a turn that reads the local database without
  holding the lock and then stores what it read; other calls may run in between, so the two halves
  are separate, as are the states of the database its two reads meet.
\<close>

definition WatchLog :: "QuotaManager \<Rightarrow> int \<Rightarrow> QuotaManager" where
  "WatchLog qm treeID = qm\<lparr>unsequenced := (unsequenced qm)(treeID \<mapsto> 0)\<rparr>"

definition WatchLog_read :: "codec \<Rightarrow> ldb_io \<times> db \<Rightarrow> ldb_io \<times> db \<Rightarrow> int \<Rightarrow> (int \<times> int) option" where
  "WatchLog_read cd at_root at_count treeID =
    (case MostRecentRoot cd (fst at_root) (snd at_root) treeID of
       Inl e \<Rightarrow> None
     | Inr (sth, _) \<Rightarrow>
         (case Unsequenced (fst at_count) (snd at_count) treeID of
            Inl e \<Rightarrow> None
          | Inr cnt \<Rightarrow> Some (TreeSize sth, cnt)))"

definition WatchLog_store :: "QuotaManager \<Rightarrow> int \<Rightarrow> (int \<times> int) option \<Rightarrow> QuotaManager" where
  "WatchLog_store qm treeID got =
    (case got of
       None \<Rightarrow> qm
     | Some (size_now, cnt) \<Rightarrow>
         qm\<lparr>gauge_TreeSize := (gauge_TreeSize qm)(fmt_v_int treeID \<mapsto> size_now),
            gauge_UnsequencedLeaves := (gauge_UnsequencedLeaves qm)(fmt_v_int treeID \<mapsto> cnt),
            unsequenced := (unsequenced qm)(treeID \<mapsto> cnt)\<rparr>)"

definition GetUser :: string where
  "GetUser = ''''"

text \<open>One spec; an error leaves the counts as they are. Sums wrap around at 64 bits.\<close>

definition getTokens :: "int \<Rightarrow> QuotaManager \<Rightarrow> Spec \<Rightarrow> QuotaManager result" where
  "getTokens numTokens qm spec =
    (if spec_Group spec \<noteq> Tree then Inr qm
     else if spec_Kind spec \<noteq> Write then Inr qm
     else case unsequenced qm (spec_TreeID spec) of
         None \<Rightarrow> Inl (Errorf ''unknown tree id: %v'' [ArgInt (spec_TreeID spec)])
       | Some cnt \<Rightarrow>
           if wrap64 (cnt + numTokens) > maxUnsequencedLeaves qm
           then Inl (Errorf ''too many unsequenced leaves'' [])
           else Inr (qm\<lparr>unsequenced := (unsequenced qm)(spec_TreeID spec \<mapsto> wrap64 (cnt + numTokens))\<rparr>))"

definition putTokens :: "int \<Rightarrow> QuotaManager \<Rightarrow> Spec \<Rightarrow> QuotaManager result" where
  "putTokens numTokens qm spec =
    (if spec_Group spec \<noteq> Tree then Inr qm
     else if spec_Kind spec \<noteq> Write then Inr qm
     else case unsequenced qm (spec_TreeID spec) of
         None \<Rightarrow> Inl (Errorf ''unknown tree id: %v'' [ArgInt (spec_TreeID spec)])
       | Some cnt \<Rightarrow>
           let cnt = wrap64 (cnt - numTokens);
               cnt = (if cnt < 0 then 0 else cnt)
           in Inr (qm\<lparr>unsequenced := (unsequenced qm)(spec_TreeID spec \<mapsto> cnt)\<rparr>))"

text \<open>The loop both calls have: stop at the first error, keep what was done before it.\<close>

fun each_spec :: "('s \<Rightarrow> 'p \<Rightarrow> 's result) \<Rightarrow> 's \<Rightarrow> 'p list \<Rightarrow> 's \<times> unit result" where
  "each_spec step s [] = (s, Inr ())"
| "each_spec step s (p # ps) = (case step s p of Inl e \<Rightarrow> (s, Inl e) | Inr s \<Rightarrow> each_spec step s ps)"

definition GetTokens :: "QuotaManager \<Rightarrow> int \<Rightarrow> Spec list \<Rightarrow> QuotaManager \<times> unit result" where
  "GetTokens qm numTokens specs = each_spec (getTokens numTokens) qm specs"

definition PutTokens :: "QuotaManager \<Rightarrow> int \<Rightarrow> Spec list \<Rightarrow> QuotaManager \<times> unit result" where
  "PutTokens qm numTokens specs = each_spec (putTokens numTokens) qm specs"

definition PeekTokens :: "Spec list \<Rightarrow> (Spec \<rightharpoonup> int) result" where
  "PeekTokens specs = Inl (Errorf ''peeking into the quota is not implemented'' [])"

definition ResetQuota :: "Spec list \<Rightarrow> unit result" where
  "ResetQuota specs = Inl (Errorf ''resetting the quota is not implemented'' [])"

section \<open>Accounts\<close>

text \<open>
  A step that concerns at most one account: it fails when the account is unknown or its balance is not
  admitted, and otherwise changes that balance only.
\<close>

locale account_step =
  fixes ok :: "'s \<Rightarrow> bool"
    and balance :: "'s \<Rightarrow> 'k \<Rightarrow> int option"
    and account :: "'p \<Rightarrow> 'k option"
    and step :: "'s \<Rightarrow> 'p \<Rightarrow> 's result"
    and admits :: "int \<Rightarrow> bool"
    and change :: "int \<Rightarrow> int"
  assumes no_account: "account p = None \<Longrightarrow> step s p = Inr s"
    and unknown: "ok s \<Longrightarrow> account p = Some k \<Longrightarrow> balance s k = None \<Longrightarrow> \<exists>e. step s p = Inl e"
    and refused: "ok s \<Longrightarrow> account p = Some k \<Longrightarrow> balance s k = Some c \<Longrightarrow> \<not> admits c \<Longrightarrow> \<exists>e. step s p = Inl e"
    and charged: "ok s \<Longrightarrow> account p = Some k \<Longrightarrow> balance s k = Some c \<Longrightarrow> admits c \<Longrightarrow>
      \<exists>s'. step s p = Inr s' \<and> ok s' \<and> balance s' = (balance s)(k \<mapsto> change c)"
begin

lemma step_cases:
  assumes "ok s"
  obtains (skip) "account p = None" "step s p = Inr s"
  | (error) e where "step s p = Inl e" "\<exists>k. account p = Some k \<and> (\<forall>c. balance s k = Some c \<longrightarrow> \<not> admits c)"
  | (paid) k c s' where "account p = Some k" "balance s k = Some c" "admits c" "step s p = Inr s'" "ok s'"
      "balance s' = (balance s)(k \<mapsto> change c)"
  using assms no_account unknown refused charged
  by (cases "account p"; cases "balance s (the (account p))") (metis option.sel option.distinct(1))+

text \<open>What a successful loop does: each account changes once per step that concerns it.\<close>

lemma each_spec_balance:
  assumes "each_spec step s ps = (s', Inr ())" "ok s"
  shows "ok s' \<and> balance s' = (\<lambda>k. map_option (change ^^ count_list (List.map_filter account ps) k) (balance s k))"
  using assms
proof (induction ps arbitrary: s)
  case Nil
  then show ?case by (simp add: map_filter_simps option.map_id0 [unfolded id_def])
next
  case (Cons p ps)
  from Cons.prems(2) show ?case
  proof (cases rule: step_cases [where p = p])
    case skip
    then show ?thesis using Cons by (simp add: map_filter_simps)
  next
    case error
    then show ?thesis using Cons.prems by simp
  next
    case (paid k c s1)
    then have "ok s' \<and> balance s' = (\<lambda>k. map_option (change ^^ count_list (List.map_filter account ps) k) (balance s1 k))"
      using Cons.IH [of s1] Cons.prems(1) by simp
    then show ?thesis using paid by (auto simp: map_filter_simps fun_eq_iff funpow_Suc_right simp del: funpow.simps)
  qed
qed

text \<open>When it succeeds: every account it concerns is known and admits as many changes as it gets.\<close>

lemma each_spec_succeeds:
  assumes "ok s"
  shows "snd (each_spec step s ps) = Inr () \<longleftrightarrow>
    (\<forall>k \<in> set (List.map_filter account ps). \<exists>c. balance s k = Some c \<and>
       (\<forall>i < count_list (List.map_filter account ps) k. admits ((change ^^ i) c)))"
  using assms
proof (induction ps arbitrary: s)
  case Nil
  then show ?case by (simp add: map_filter_simps)
next
  case (Cons p ps)
  let ?ks = "List.map_filter account ps"
  from Cons.prems show ?case
  proof (cases rule: step_cases [where p = p])
    case skip
    then show ?thesis using Cons by (simp add: map_filter_simps)
  next
    case (error e)
    then show ?thesis by (auto simp: map_filter_simps) (metis funpow_0 zero_less_Suc)
  next
    case (paid k c s1)
    have split: "(\<forall>i < Suc n. admits ((change ^^ i) c)) \<longleftrightarrow> (\<forall>i < n. admits ((change ^^ i) (change c)))" for n
      using paid(3) by (auto simp: less_Suc_eq_0_disj funpow_Suc_right simp del: funpow.simps)
    have "snd (each_spec step s (p # ps)) = Inr () \<longleftrightarrow>
        (\<forall>j \<in> set ?ks. \<exists>d. balance s1 j = Some d \<and> (\<forall>i < count_list ?ks j. admits ((change ^^ i) d)))"
      using paid Cons.IH [of s1] by simp
    also have "\<dots> \<longleftrightarrow> (\<forall>j \<in> insert k (set ?ks). \<exists>d. balance s j = Some d \<and>
        (\<forall>i < count_list (k # ?ks) j. admits ((change ^^ i) d)))"
      using paid(2,6) split by (auto simp: count_list_0_iff)
    finally show ?thesis using paid(1) by (simp add: map_filter_simps)
  qed
qed

lemma each_spec_ok: "ok s \<Longrightarrow> ok (fst (each_spec step s ps))"
proof (induction ps arbitrary: s)
  case (Cons p ps)
  from Cons.prems show ?case
    by (cases rule: step_cases [where p = p]) (use Cons.IH Cons.prems in auto)
qed simp

end

text \<open>The account of a spec, and the interpretations on the two operations.\<close>

definition spec_account :: "Spec \<Rightarrow> int option" where
  "spec_account spec = (if spec_Group spec = Tree \<and> spec_Kind spec = Write then Some (spec_TreeID spec) else None)"

definition write_trees :: "Spec list \<Rightarrow> int list" where
  "write_trees specs = List.map_filter spec_account specs"

interpretation qget: account_step "\<lambda>qm. maxUnsequencedLeaves qm = M" unsequenced spec_account "getTokens n"
  "\<lambda>c. wrap64 (c + n) \<le> M" "\<lambda>c. wrap64 (c + n)" for M n
  by unfold_locales (auto simp: getTokens_def spec_account_def not_less split: if_splits)

interpretation qput: account_step "\<lambda>qm. maxUnsequencedLeaves qm = M" unsequenced spec_account "putTokens n"
  "\<lambda>_. True" "\<lambda>c. max 0 (wrap64 (c - n))" for M n
  by unfold_locales (auto simp: putTokens_def spec_account_def max_def Let_def split: if_splits)

section \<open>Charging and refunding\<close>

lemma charge_funpow:
  assumes "0 \<le> n" "0 \<le> c" "c + int k * n < 2 ^ 63"
  shows "((\<lambda>c. wrap64 (c + n)) ^^ k) c = c + int k * n"
  using assms(3)
proof (induction k)
  case (Suc k)
  then have less: "c + int k * n + n < 2 ^ 63" by (simp add: algebra_simps)
  then have "((\<lambda>c. wrap64 (c + n)) ^^ k) c = c + int k * n" using Suc.IH assms(1) by simp
  moreover have "in_int64 (c + int k * n + n)" using less assms(1,2) by (simp add: in_int64_def) (smt (verit) zero_le_mult_iff of_nat_0_le_iff)
  ultimately show ?case by (simp add: algebra_simps)
qed simp

lemma refund_funpow:
  assumes "0 \<le> n" "n < 2 ^ 63" "0 \<le> c" "c < 2 ^ 63"
  shows "((\<lambda>c. max 0 (wrap64 (c - n))) ^^ k) c = max 0 (c - int k * n)"
proof (induction k)
  case 0
  then show ?case using assms(3) by simp
next
  case (Suc k)
  let ?d = "max 0 (c - int k * n)"
  have "?d < 2 ^ 63" using assms(1,4) by (smt (verit) zero_le_mult_iff of_nat_0_le_iff zero_less_power)
  then have "wrap64 (?d - n) = ?d - n" using assms(1,2) by (intro wrap64_id) (auto simp: in_int64_def)
  then show ?case using Suc assms(1) by (auto simp: max_def algebra_simps)
qed

lemma charges_admitted:
  assumes "0 \<le> n" "0 \<le> c" "c + int k * n < 2 ^ 63" "0 < k"
  shows "(\<forall>i < k. wrap64 (((\<lambda>c. wrap64 (c + n)) ^^ i) c + n) \<le> M) \<longleftrightarrow> c + int k * n \<le> M"
proof -
  have eq: "wrap64 (((\<lambda>c. wrap64 (c + n)) ^^ i) c + n) = c + int (Suc i) * n" if "i < k" for i
  proof -
    have "int (Suc i) * n \<le> int k * n" using that assms(1) by (intro mult_right_mono) auto
    then show ?thesis using charge_funpow [of n c "Suc i"] assms by simp
  qed
  have le: "c + int (Suc i) * n \<le> c + int k * n" if "i < k" for i
    using that assms(1) by (intro add_left_mono mult_right_mono) auto
  have "k - 1 < k" "Suc (k - 1) = k" using assms(4) by simp_all
  then show ?thesis using eq le by (metis order.trans)
qed

definition charged_counts :: "int \<Rightarrow> Spec list \<Rightarrow> (int \<rightharpoonup> int) \<Rightarrow> (int \<rightharpoonup> int)" where
  "charged_counts n specs m = (\<lambda>t. map_option (\<lambda>c. c + int (count_list (write_trees specs) t) * n) (m t))"

text \<open>Counts with room for the request: no sum overflows 64 bits.\<close>

definition counts_fit :: "QuotaManager \<Rightarrow> int \<Rightarrow> Spec list \<Rightarrow> bool" where
  "counts_fit qm n specs \<longleftrightarrow> (\<forall>t c. unsequenced qm t = Some c \<longrightarrow> 0 \<le> c \<and> c + int (count_list (write_trees specs) t) * n < 2 ^ 63)"

lemma GetTokens_balance:
  assumes "GetTokens qm n specs = (qm', Inr ())" "0 \<le> n" "counts_fit qm n specs"
  shows "unsequenced qm' = charged_counts n specs (unsequenced qm)" "maxUnsequencedLeaves qm' = maxUnsequencedLeaves qm"
proof -
  have bal: "maxUnsequencedLeaves qm' = maxUnsequencedLeaves qm \<and>
      unsequenced qm' = (\<lambda>t. map_option ((\<lambda>c. wrap64 (c + n)) ^^ count_list (write_trees specs) t) (unsequenced qm t))"
    using qget.each_spec_balance [OF assms(1) [unfolded GetTokens_def] refl] by (simp add: write_trees_def)
  then show "maxUnsequencedLeaves qm' = maxUnsequencedLeaves qm" by simp
  show "unsequenced qm' = charged_counts n specs (unsequenced qm)"
    unfolding charged_counts_def using bal charge_funpow [OF assms(2)] assms(3)
    by (auto simp: counts_fit_def fun_eq_iff intro!: option.map_cong)
qed

text \<open>
  C37. \<open>GetTokens\<close> with a non-negative number succeeds exactly when every tree of its write specs is watched and has
  room below the limit for all its charges together, and then it adds the charges to these trees and to
  no others.
\<close>

theorem GetTokens_succeeds_iff_room:
  assumes "0 \<le> n" "counts_fit qm n specs"
  shows "(snd (GetTokens qm n specs) = Inr () \<longleftrightarrow>
      (\<forall>t \<in> set (write_trees specs). \<exists>c. unsequenced qm t = Some c \<and>
         c + int (count_list (write_trees specs) t) * n \<le> maxUnsequencedLeaves qm)) \<and>
    (snd (GetTokens qm n specs) = Inr () \<longrightarrow>
      unsequenced (fst (GetTokens qm n specs)) = charged_counts n specs (unsequenced qm))"
proof -
  let ?ts = "write_trees specs"
  have "snd (GetTokens qm n specs) = Inr () \<longleftrightarrow>
      (\<forall>t \<in> set ?ts. \<exists>c. unsequenced qm t = Some c \<and>
         (\<forall>i < count_list ?ts t. wrap64 (((\<lambda>c. wrap64 (c + n)) ^^ i) c + n) \<le> maxUnsequencedLeaves qm))"
    unfolding GetTokens_def write_trees_def by (rule qget.each_spec_succeeds) simp
  also have "\<dots> \<longleftrightarrow> (\<forall>t \<in> set ?ts. \<exists>c. unsequenced qm t = Some c \<and> c + int (count_list ?ts t) * n \<le> maxUnsequencedLeaves qm)"
  proof (intro ball_cong refl ex_cong1 conj_cong)
    fix t c assume "t \<in> set ?ts" "unsequenced qm t = Some c"
    then have "0 \<le> c" "c + int (count_list ?ts t) * n < 2 ^ 63" "0 < count_list ?ts t"
      using assms(2) count_list_0_iff [of ?ts t] by (auto simp: counts_fit_def)
    then show "(\<forall>i < count_list ?ts t. wrap64 (((\<lambda>c. wrap64 (c + n)) ^^ i) c + n) \<le> maxUnsequencedLeaves qm) \<longleftrightarrow>
        c + int (count_list ?ts t) * n \<le> maxUnsequencedLeaves qm"
      by (intro charges_admitted [OF assms(1)])
  qed
  finally show ?thesis using GetTokens_balance(1) [OF _ assms] by (metis prod.collapse)
qed

text \<open>
  A successful charge is undone by the refund of the same request: after \<open>GetTokens\<close> and \<open>PutTokens\<close> with the same
  number and specs the counts are what they were.
\<close>

theorem PutTokens_undoes_GetTokens:
  assumes "GetTokens qm n specs = (qm', Inr ())" "0 \<le> n" "n < 2 ^ 63" "counts_fit qm n specs"
  shows "\<exists>qm''. PutTokens qm' n specs = (qm'', Inr ()) \<and> unsequenced qm'' = unsequenced qm"
proof -
  let ?ts = "write_trees specs"
  have bal: "unsequenced qm' = charged_counts n specs (unsequenced qm)" using GetTokens_balance(1) [OF assms(1,2,4)] .
  have known: "\<forall>t \<in> set ?ts. \<exists>c. unsequenced qm t = Some c"
    using qget.each_spec_succeeds [OF refl, of n qm specs] assms(1) by (auto simp: GetTokens_def write_trees_def)
  have "snd (PutTokens qm' n specs) = Inr ()"
    unfolding PutTokens_def using known bal by (subst qput.each_spec_succeeds [OF refl]) (auto simp: write_trees_def charged_counts_def)
  then obtain qm'' where put: "PutTokens qm' n specs = (qm'', Inr ())" by (metis prod.collapse)
  have "unsequenced qm'' t = unsequenced qm t" for t
  proof (cases "unsequenced qm t")
    case None
    then show ?thesis
      using qput.each_spec_balance [OF put [unfolded PutTokens_def] refl] bal by (simp add: charged_counts_def)
  next
    case (Some c)
    let ?d = "c + int (count_list ?ts t) * n"
    have "0 \<le> c" "?d < 2 ^ 63" using assms(4) Some by (auto simp: counts_fit_def)
    moreover then have "0 \<le> ?d" using assms(2) by simp
    ultimately have "((\<lambda>c. max 0 (wrap64 (c - n))) ^^ count_list ?ts t) ?d = c"
      using refund_funpow [OF assms(2,3), of ?d "count_list ?ts t"] by simp
    then show ?thesis
      using qput.each_spec_balance [OF put [unfolded PutTokens_def] refl] bal Some by (simp add: charged_counts_def write_trees_def)
  qed
  with put show ?thesis by (auto simp: fun_eq_iff)
qed

section \<open>Runs\<close>

datatype quota_op =
    QWatch int
  | QStore int "(int \<times> int) option"
  | QGetTokens int "Spec list"
  | QPutTokens int "Spec list"

fun quota_step :: "QuotaManager \<Rightarrow> quota_op \<Rightarrow> QuotaManager" where
  "quota_step qm (QWatch t) = WatchLog qm t"
| "quota_step qm (QStore t got) = WatchLog_store qm t got"
| "quota_step qm (QGetTokens n specs) = fst (GetTokens qm n specs)"
| "quota_step qm (QPutTokens n specs) = fst (PutTokens qm n specs)"

fun quota_op_ok :: "int \<Rightarrow> quota_op \<Rightarrow> bool" where
  "quota_op_ok B (QWatch t) \<longleftrightarrow> True"
| "quota_op_ok B (QStore t got) \<longleftrightarrow> (case got of None \<Rightarrow> True | Some (_, c) \<Rightarrow> 0 \<le> c \<and> c \<le> B)"
| "quota_op_ok B (QGetTokens n specs) \<longleftrightarrow> 0 \<le> n \<and> B + n < 2 ^ 63"
| "quota_op_ok B (QPutTokens n specs) \<longleftrightarrow> 0 \<le> n \<and> n < 2 ^ 63"

definition quota_inv :: "int \<Rightarrow> QuotaManager \<Rightarrow> bool" where
  "quota_inv B qm \<longleftrightarrow> maxUnsequencedLeaves qm \<le> B \<and> (\<forall>t c. unsequenced qm t = Some c \<longrightarrow> 0 \<le> c \<and> c \<le> B)"

lemma each_spec_keeps:
  assumes "\<And>s p s'. step s p = Inr s' \<Longrightarrow> P s \<Longrightarrow> P s'" "P s"
  shows "P (fst (each_spec step s ps))"
  using assms(2) by (induction ps arbitrary: s) (auto split: sum.splits dest: assms(1))

lemma quota_inv_getTokens:
  assumes "getTokens n qm spec = Inr qm'" "quota_inv B qm" "0 \<le> n" "B + n < 2 ^ 63"
  shows "quota_inv B qm'"
proof -
  have "wrap64 (c + n) = c + n" if "unsequenced qm t = Some c" for t c
    using assms(2-4) that by (intro wrap64_id) (force simp: quota_inv_def in_int64_def)
  then show ?thesis
    using assms(1-3) by (force simp: getTokens_def quota_inv_def split: if_splits option.splits)
qed

lemma quota_inv_putTokens:
  assumes "putTokens n qm spec = Inr qm'" "quota_inv B qm" "0 \<le> n" "n < 2 ^ 63" "B < 2 ^ 63"
  shows "quota_inv B qm'"
proof -
  have "wrap64 (c - n) = c - n" if "unsequenced qm t = Some c" for t c
    using assms(2-5) that by (intro wrap64_id) (force simp: quota_inv_def in_int64_def)
  then show ?thesis
    using assms(1-3) by (force simp: putTokens_def quota_inv_def Let_def split: if_splits option.splits)
qed

lemma quota_inv_step:
  assumes "quota_inv B qm" "quota_op_ok B op" "0 \<le> B" "B < 2 ^ 63"
  shows "quota_inv B (quota_step qm op)"
proof (cases op)
  case (QWatch t)
  then show ?thesis using assms by (auto simp: quota_inv_def WatchLog_def)
next
  case (QStore t got)
  then show ?thesis using assms by (auto simp: quota_inv_def WatchLog_store_def split: option.splits)
next
  case (QGetTokens n specs)
  then show ?thesis
    using assms quota_inv_getTokens [of n _ _ _ B] each_spec_keeps [of "getTokens n" "quota_inv B" qm specs]
    by (simp add: GetTokens_def)
next
  case (QPutTokens n specs)
  then show ?thesis
    using assms quota_inv_putTokens [of n _ _ _ B] each_spec_keeps [of "putTokens n" "quota_inv B" qm specs]
    by (simp add: PutTokens_def)
qed

text \<open>
  C38. However charges, refunds, registrations and the watchers' updates interleave, and whichever charges fail halfway, a
  count is never negative and never above the limit or the largest queue a watcher has stored; in
  particular charging alone never takes a count above the limit.
\<close>

theorem quota_counts_bounded:
  assumes "\<forall>op \<in> set ops. quota_op_ok B op" "0 \<le> B" "B < 2 ^ 63" "M \<le> B"
    and "unsequenced (foldl quota_step (NewQuotaManager M) ops) t = Some c"
  shows "0 \<le> c \<and> c \<le> B"
proof -
  have "quota_inv B (foldl quota_step qm ops)" if "quota_inv B qm" for qm
    using assms(1) that by (induction ops arbitrary: qm) (auto simp: quota_inv_step [OF _ _ assms(2,3)])
  moreover have "quota_inv B (NewQuotaManager M)" using assms(4) by (simp add: quota_inv_def NewQuotaManager_def)
  ultimately show ?thesis using assms(5) unfolding quota_inv_def by blast
qed

text \<open>
  A turn of the watcher of an initialised tree that nothing disturbs replaces the tree's count by the length of its
  queue, whatever was charged before, and leaves the other trees alone; but when the database iterator
  fails, the count becomes zero, so the limit is lifted for that tree until the next turn.
\<close>

theorem WatchLog_turn_stores_queue_length:
  assumes "MostRecentRoot cd io_root d_root t = Inr (sth, f)"
    and "db_inv d" "valid_tree t" "valid_tree (t + 1)" "snapErr io = None"
  shows "unsequenced (WatchLog_store qm t (WatchLog_read cd (io_root, d_root) (io, d) t)) =
    (unsequenced qm)(t \<mapsto> (if iterErr io = None then int (length (queue_of d t)) else 0))"
  using assms(1) Unsequenced_queue [OF assms(2-5)] by (simp add: WatchLog_read_def WatchLog_store_def)

section \<open>Concrete requests\<close>

definition sample_spec :: "int \<Rightarrow> Spec" where
  "sample_spec t = \<lparr>spec_Group = Tree, spec_Kind = Write, spec_TreeID = t, spec_User = []\<rparr>"

definition sample_quota :: QuotaManager where
  "sample_quota = (NewQuotaManager 10)\<lparr>unsequenced := [3 \<mapsto> 7, 4 \<mapsto> 0]\<rparr>"

lemma sample_write_trees: "write_trees [sample_spec 3, sample_spec 4, sample_spec 3] = [3, 4, 3]"
  by (simp add: write_trees_def map_filter_simps spec_account_def sample_spec_def)

lemma sample_counts_fit: "0 \<le> n \<Longrightarrow> n < 10 \<Longrightarrow> counts_fit sample_quota n [sample_spec 3, sample_spec 4, sample_spec 3]"
  by (auto simp: counts_fit_def sample_write_trees sample_quota_def split: if_splits)

theorem GetTokens_succeeds_iff_room_witness:
  "snd (GetTokens sample_quota 2 [sample_spec 3, sample_spec 4, sample_spec 3]) \<noteq> Inr () \<and>
   snd (GetTokens sample_quota 1 [sample_spec 3, sample_spec 4, sample_spec 3]) = Inr ()"
  using GetTokens_succeeds_iff_room [OF _ sample_counts_fit, of 2] GetTokens_succeeds_iff_room [OF _ sample_counts_fit, of 1]
  by (simp add: sample_write_trees sample_quota_def NewQuotaManager_def)

theorem PutTokens_undoes_GetTokens_witness:
  "\<exists>qm' qm''. GetTokens sample_quota 1 [sample_spec 3, sample_spec 4, sample_spec 3] = (qm', Inr ()) \<and>
     PutTokens qm' 1 [sample_spec 3, sample_spec 4, sample_spec 3] = (qm'', Inr ()) \<and> unsequenced qm'' = [3 \<mapsto> 7, 4 \<mapsto> 0]"
proof -
  obtain qm' where got: "GetTokens sample_quota 1 [sample_spec 3, sample_spec 4, sample_spec 3] = (qm', Inr ())"
    by (simp add: GetTokens_def getTokens_def sample_quota_def sample_spec_def NewQuotaManager_def in_int64_def)
  show ?thesis
    using PutTokens_undoes_GetTokens [OF got _ _ sample_counts_fit] got by (simp add: sample_quota_def)
qed

theorem quota_counts_bounded_witness:
  "let ops = [QWatch 3, QGetTokens 6 [sample_spec 3], QGetTokens 6 [sample_spec 3], QStore 3 (Some (100, 12))]
   in \<exists>c. unsequenced (foldl quota_step (NewQuotaManager 10) ops) 3 = Some c \<and> 0 \<le> c \<and> c \<le> 12"
proof -
  let ?ops = "[QWatch 3, QGetTokens 6 [sample_spec 3], QGetTokens 6 [sample_spec 3], QStore 3 (Some (100, 12))]"
  obtain c where "unsequenced (foldl quota_step (NewQuotaManager 10) ?ops) 3 = Some c"
    by (simp add: WatchLog_store_def)
  then show ?thesis using quota_counts_bounded [of ?ops 12 10 3 c] by simp
qed

theorem WatchLog_turn_stores_queue_length_witness:
  "unsequenced (WatchLog_store sample_quota 3 (WatchLog_read sample_codec
     (no_faults, [(keyS typ_r 3 ''frontier'', []), (keyS typ_r 3 ''root'', Sum256 []), (keyS typ_r 3 ''sig'', [])])
     (no_faults, []) 3)) 3 = Some 0"
proof -
  let ?d = "[(keyS typ_r 3 ''frontier'', []), (keyS typ_r 3 ''root'', Sum256 []), (keyS typ_r 3 ''sig'', [])]"
  obtain sth f where "MostRecentRoot sample_codec no_faults ?d 3 = Inr (sth, f)"
    by (simp add: MostRecentRoot_def snap_Get_def db_get_def keyS_eq_keyB ascii_def sample_codec_def)
  then show ?thesis
    using WatchLog_turn_stores_queue_length [OF _ db_inv_Nil, of sample_codec no_faults ?d 3 sth f no_faults sample_quota]
    by (simp add: valid_tree_def queue_of_def)
qed

end
