(* ===== verification/ReadLogTx.thy ===== *)
theory ReadLogTx
  imports AdminStorage
begin

text \<open>
  Read-only transactions that are not tied to a tree (\<open>ct/read_log_tx.go\<close>) and the way the log storage starts
  them (\<open>Snapshot\<close> in \<open>ct/log_storage.go\<close>). The administrative transaction underneath is only used through its
  interface, so its operation is an argument.
\<close>

section \<open>Operations\<close>

record 'tx readOnlyLogTX =
  rol_adminTx :: 'tx
  rol_closed :: bool

definition LogStorage_Snapshot :: "'tx result \<Rightarrow> 'tx readOnlyLogTX result" where
  "LogStorage_Snapshot snap =
    (case snap of Inl e \<Rightarrow> Inl e | Inr tx \<Rightarrow> Inr \<lparr>rol_adminTx = tx, rol_closed = False\<rparr>)"

definition GetActiveLogIDs :: "('tx \<Rightarrow> bool \<Rightarrow> LogTree list result) \<Rightarrow> 'tx readOnlyLogTX \<Rightarrow> int list result" where
  "GetActiveLogIDs listTrees rol =
    (if rol_closed rol then Inl (Errorf ''read-only log tx is closed'' [])
     else case listTrees (rol_adminTx rol) False of
         Inl e \<Rightarrow> Inl e
       | Inr trees \<Rightarrow> Inr (map TreeId (filter (\<lambda>tree. tree_State tree = ACTIVE) trees)))"

definition GetUnsequencedCounts :: "'tx readOnlyLogTX \<Rightarrow> (int \<rightharpoonup> int) result" where
  "GetUnsequencedCounts rol = Inl (Errorf ''getting unsequenced counts is not implemented'' [])"

definition rol_Close :: "'tx readOnlyLogTX \<Rightarrow> 'tx readOnlyLogTX \<times> unit result" where
  "rol_Close rol = (rol\<lparr>rol_closed := True\<rparr>, Inr ())"

definition rol_Commit :: "'tx readOnlyLogTX \<Rightarrow> 'tx readOnlyLogTX \<times> unit result" where
  "rol_Commit rol = (if rol_closed rol then (rol, Inl (Errorf ''read-only log tx is closed'' [])) else rol_Close rol)"

definition rol_Rollback :: "'tx readOnlyLogTX \<Rightarrow> 'tx readOnlyLogTX \<times> unit result" where
  "rol_Rollback rol = rol_Commit rol"

section \<open>Active logs\<close>

text \<open>
  In a snapshot of an administrative storage whose trees have different ids, the active logs are exactly the ids of
  the trees in state active, in the order of the storage, and each of them can be looked up and gives
  back its tree.
\<close>

theorem active_logs_are_known_trees:
  assumes "distinct (map TreeId (as_trees st))" "LogStorage_Snapshot (as_Snapshot st) = Inr rol"
  shows "\<exists>ids. GetActiveLogIDs ListTrees rol = Inr ids \<and> distinct ids \<and>
    (\<forall>i. i \<in> set ids \<longleftrightarrow> (\<exists>t. GetTree (rol_adminTx rol) i = Inr t \<and> TreeId t = i \<and> tree_State t = ACTIVE)) \<and>
    ids = filter (\<lambda>i. \<exists>t. GetTree (rol_adminTx rol) i = Inr t \<and> tree_State t = ACTIVE) (map TreeId (as_trees st))"
proof -
  let ?ts = "as_trees st" and ?tx = "\<lparr>at_trees = as_trees st\<rparr>"
  have rol: "rol = \<lparr>rol_adminTx = ?tx, rol_closed = False\<rparr>" using assms(2) by (simp add: LogStorage_Snapshot_def as_Snapshot_def)
  have list: "ListTrees ?tx b = Inr ?ts" for b by (simp add: ListTrees_def)
  have get: "GetTree ?tx (TreeId t) = Inr t" if "t \<in> set ?ts" for t using adm.get_listed [OF list assms(1) that] .
  have known: "t \<in> set ?ts \<and> TreeId t = i" if "GetTree ?tx i = Inr t" for i t
    using that by (auto simp: GetTree_def GetTree_loop_find find_Some_iff split: option.splits)
  let ?ids = "map TreeId (filter (\<lambda>tree. tree_State tree = ACTIVE) ?ts)"
  have "GetActiveLogIDs ListTrees rol = Inr ?ids" by (simp add: GetActiveLogIDs_def rol list)
  moreover have "distinct ?ids" using assms(1) by (simp add: distinct_map_filter)
  moreover have "\<forall>i. i \<in> set ?ids \<longleftrightarrow> (\<exists>t. GetTree ?tx i = Inr t \<and> TreeId t = i \<and> tree_State t = ACTIVE)"
    using get known by (simp add: image_iff) blast
  moreover have "?ids = filter (\<lambda>i. \<exists>t. GetTree ?tx i = Inr t \<and> tree_State t = ACTIVE) (map TreeId ?ts)"
    unfolding filter_map by (intro arg_cong [where f = "map TreeId"] filter_cong) (simp_all add: get)
  ultimately show ?thesis unfolding rol by auto
qed

section \<open>Closed transactions\<close>

datatype rol_op = ROLCommit | ROLRollback | ROLClose

fun rol_step :: "'tx readOnlyLogTX \<Rightarrow> rol_op \<Rightarrow> 'tx readOnlyLogTX \<times> unit result" where
  "rol_step rol ROLCommit = rol_Commit rol"
| "rol_step rol ROLRollback = rol_Rollback rol"
| "rol_step rol ROLClose = rol_Close rol"

text \<open>The results of a sequence of calls.\<close>

fun rol_results :: "'tx readOnlyLogTX \<Rightarrow> rol_op list \<Rightarrow> unit result list" where
  "rol_results rol [] = []"
| "rol_results rol (op # ops) = snd (rol_step rol op) # rol_results (fst (rol_step rol op)) ops"

lemma rol_results_closed:
  "rol_closed rol \<Longrightarrow> rol_results rol ops = map (\<lambda>op. if op = ROLClose then Inr () else Inl (Errorf ''read-only log tx is closed'' [])) ops"
proof (induction ops arbitrary: rol)
  case (Cons op ops)
  then show ?case by (cases op) (simp_all add: rol_Rollback_def rol_Commit_def rol_Close_def)
qed simp

text \<open>
  The first of any sequence of calls of \<open>Commit\<close>, \<open>Rollback\<close> and \<open>Close\<close> on an open transaction succeeds; after it only
  \<open>Close\<close> does, and the active logs can no longer be read. In particular the customary deferred \<open>Rollback\<close> after
  a \<open>Commit\<close> reports an error.
\<close>

theorem finished_log_tx_stays_closed:
  assumes "\<not> rol_closed rol"
  shows "rol_results rol (op # ops) =
      Inr () # map (\<lambda>op. if op = ROLClose then Inr () else Inl (Errorf ''read-only log tx is closed'' [])) ops \<and>
    GetActiveLogIDs listTrees (fst (rol_step rol op)) = Inl (Errorf ''read-only log tx is closed'' [])"
proof -
  have "fst (rol_step rol op) = rol\<lparr>rol_closed := True\<rparr>" "snd (rol_step rol op) = Inr ()"
    using assms by (cases op; simp add: rol_Rollback_def rol_Commit_def rol_Close_def)+
  then show ?thesis by (simp add: rol_results_closed GetActiveLogIDs_def)
qed

theorem finished_log_tx_stays_closed_witness:
  "rol_results \<lparr>rol_adminTx = \<lparr>at_trees = []\<rparr>, rol_closed = False\<rparr> [ROLCommit, ROLRollback, ROLClose] =
     [Inr (), Inl (Errorf ''read-only log tx is closed'' []), Inr ()]"
  using finished_log_tx_stays_closed [of "\<lparr>rol_adminTx = \<lparr>at_trees = []\<rparr>, rol_closed = False\<rparr>" ROLCommit "[ROLRollback, ROLClose]"] by simp

definition sample_tree :: "int \<Rightarrow> TreeState \<Rightarrow> LogTree" where
  "sample_tree i st =
    \<lparr>TreeId = i, tree_State = st, tree_Type = LOG, tree_HashStrategy = RFC6962_SHA256, tree_HashAlgorithm = HASH_SHA256,
     tree_SignatureAlgorithm = ECDSA, tree_PublicKey = [], tree_PrivateKey = \<lparr>TypeUrl = [], AnyValue = []\<rparr>,
     tree_MaxRootDuration = (0, 0), tree_CreateTime = (0, 0), tree_UpdateTime = (0, 0)\<rparr>"

theorem active_logs_are_known_trees_witness:
  "\<exists>rol. LogStorage_Snapshot (as_Snapshot \<lparr>as_trees = [sample_tree 3 ACTIVE, sample_tree 4 FROZEN]\<rparr>) = Inr rol \<and>
     (\<exists>t. GetTree (rol_adminTx rol) 3 = Inr t \<and> tree_State t = ACTIVE) \<and> GetActiveLogIDs ListTrees rol = Inr [3]"
proof -
  let ?st = "\<lparr>as_trees = [sample_tree 3 ACTIVE, sample_tree 4 FROZEN]\<rparr>"
  let ?rol = "\<lparr>rol_adminTx = \<lparr>at_trees = [sample_tree 3 ACTIVE, sample_tree 4 FROZEN]\<rparr>, rol_closed = False\<rparr>"
  have snap: "LogStorage_Snapshot (as_Snapshot ?st) = Inr ?rol" by (simp add: LogStorage_Snapshot_def as_Snapshot_def)
  have act: "GetActiveLogIDs ListTrees ?rol = Inr [3]" by (simp add: GetActiveLogIDs_def ListTrees_def sample_tree_def)
  have "distinct (map TreeId (as_trees ?st))" by (simp add: sample_tree_def)
  from active_logs_are_known_trees [OF this snap] obtain ids where ids: "GetActiveLogIDs ListTrees ?rol = Inr ids"
      "\<forall>i. i \<in> set ids \<longleftrightarrow> (\<exists>t. GetTree (rol_adminTx ?rol) i = Inr t \<and> TreeId t = i \<and> tree_State t = ACTIVE)"
    by (elim exE conjE)
  have "ids = [3]" using ids(1) act by simp
  then have "3 \<in> set ids" by simp
  then have "\<exists>t. GetTree (rol_adminTx ?rol) 3 = Inr t \<and> tree_State t = ACTIVE" using ids(2) by blast
  with snap act show ?thesis by (intro exI [of _ ?rol] conjI)
qed

end
