(* ===== verification/Client.thy ===== *)
theory Client
  imports Prelude
begin

text \<open>
  The in-process client of the Trillian log server (\<open>cmd/server/client.go\<close>, generated from a template that is
  expanded once per RPC by \<open>cmd/admin/gen-server-client\<close>). Each method sends its request through the server's
  interceptor to the server's method of the same name, with a type assertion on either side. The interceptor
  and the server are parts of Trillian and are arguments, as is the state they work on.
\<close>

section \<open>Messages\<close>

text \<open>A value behind an empty interface: the name of its dynamic type and the value.\<close>

record 'm dyn =
  dyn_type :: string
  dyn_value :: 'm

type_synonym ('s, 'm) rpc_handler = "'s \<Rightarrow> 'm dyn \<Rightarrow> 's \<times> 'm dyn result"

record ('s, 'm) trillianLogClient =
  interceptor :: "'s \<Rightarrow> 'm dyn \<Rightarrow> string \<Rightarrow> ('s, 'm) rpc_handler \<Rightarrow> 's \<times> 'm dyn result"
  server :: "string \<Rightarrow> 's \<Rightarrow> 'm \<Rightarrow> 's \<times> 'm result"

definition request_type :: "string \<Rightarrow> string" where
  "request_type name = ''*trillian.'' @ name @ ''Request''"

definition response_type :: "string \<Rightarrow> string" where
  "response_type name = ''*trillian.'' @ name @ ''Response''"

section \<open>Calls\<close>

definition tlc_handler :: "('s, 'm) trillianLogClient \<Rightarrow> string \<Rightarrow> ('s, 'm) rpc_handler" where
  "tlc_handler tlc name s temp =
    (if dyn_type temp \<noteq> request_type name
     then (s, Inl (Errorf (''expected request of type '' @ request_type name @ '', got %T'') [ArgStr (dyn_type temp)]))
     else let (s, res) = server tlc name s (dyn_value temp)
          in (s, case res of Inl e \<Rightarrow> Inl e | Inr v \<Rightarrow> Inr \<lparr>dyn_type = response_type name, dyn_value = v\<rparr>))"

definition tlc_call :: "('s, 'm) trillianLogClient \<Rightarrow> string \<Rightarrow> 's \<Rightarrow> 'm \<Rightarrow> 's \<times> 'm result" where
  "tlc_call tlc name s req =
    (let (s, res) = interceptor tlc s \<lparr>dyn_type = request_type name, dyn_value = req\<rparr> (''/trillian.TrillianLog/'' @ name)
                      (tlc_handler tlc name)
     in (s, case res of
         Inl e \<Rightarrow> Inl e
       | Inr temp \<Rightarrow>
           if dyn_type temp \<noteq> response_type name
           then Inl (Errorf (''expected response of type '' @ response_type name @ '', got %T'') [ArgStr (dyn_type temp)])
           else Inr (dyn_value temp)))"

definition tlc_QueueLeaf :: "('s, 'm) trillianLogClient \<Rightarrow> 's \<Rightarrow> 'm \<Rightarrow> 's \<times> 'm result" where
  "tlc_QueueLeaf tlc s req = tlc_call tlc ''QueueLeaf'' s req"

definition tlc_AddSequencedLeaf :: "('s, 'm) trillianLogClient \<Rightarrow> 's \<Rightarrow> 'm \<Rightarrow> 's \<times> 'm result" where
  "tlc_AddSequencedLeaf tlc s req = tlc_call tlc ''AddSequencedLeaf'' s req"

definition tlc_GetInclusionProof :: "('s, 'm) trillianLogClient \<Rightarrow> 's \<Rightarrow> 'm \<Rightarrow> 's \<times> 'm result" where
  "tlc_GetInclusionProof tlc s req = tlc_call tlc ''GetInclusionProof'' s req"

definition tlc_GetInclusionProofByHash :: "('s, 'm) trillianLogClient \<Rightarrow> 's \<Rightarrow> 'm \<Rightarrow> 's \<times> 'm result" where
  "tlc_GetInclusionProofByHash tlc s req = tlc_call tlc ''GetInclusionProofByHash'' s req"

definition tlc_GetConsistencyProof :: "('s, 'm) trillianLogClient \<Rightarrow> 's \<Rightarrow> 'm \<Rightarrow> 's \<times> 'm result" where
  "tlc_GetConsistencyProof tlc s req = tlc_call tlc ''GetConsistencyProof'' s req"

definition tlc_GetLatestSignedLogRoot :: "('s, 'm) trillianLogClient \<Rightarrow> 's \<Rightarrow> 'm \<Rightarrow> 's \<times> 'm result" where
  "tlc_GetLatestSignedLogRoot tlc s req = tlc_call tlc ''GetLatestSignedLogRoot'' s req"

definition tlc_GetSequencedLeafCount :: "('s, 'm) trillianLogClient \<Rightarrow> 's \<Rightarrow> 'm \<Rightarrow> 's \<times> 'm result" where
  "tlc_GetSequencedLeafCount tlc s req = tlc_call tlc ''GetSequencedLeafCount'' s req"

definition tlc_GetEntryAndProof :: "('s, 'm) trillianLogClient \<Rightarrow> 's \<Rightarrow> 'm \<Rightarrow> 's \<times> 'm result" where
  "tlc_GetEntryAndProof tlc s req = tlc_call tlc ''GetEntryAndProof'' s req"

definition tlc_InitLog :: "('s, 'm) trillianLogClient \<Rightarrow> 's \<Rightarrow> 'm \<Rightarrow> 's \<times> 'm result" where
  "tlc_InitLog tlc s req = tlc_call tlc ''InitLog'' s req"

definition tlc_QueueLeaves :: "('s, 'm) trillianLogClient \<Rightarrow> 's \<Rightarrow> 'm \<Rightarrow> 's \<times> 'm result" where
  "tlc_QueueLeaves tlc s req = tlc_call tlc ''QueueLeaves'' s req"

definition tlc_AddSequencedLeaves :: "('s, 'm) trillianLogClient \<Rightarrow> 's \<Rightarrow> 'm \<Rightarrow> 's \<times> 'm result" where
  "tlc_AddSequencedLeaves tlc s req = tlc_call tlc ''AddSequencedLeaves'' s req"

definition tlc_GetLeavesByIndex :: "('s, 'm) trillianLogClient \<Rightarrow> 's \<Rightarrow> 'm \<Rightarrow> 's \<times> 'm result" where
  "tlc_GetLeavesByIndex tlc s req = tlc_call tlc ''GetLeavesByIndex'' s req"

definition tlc_GetLeavesByRange :: "('s, 'm) trillianLogClient \<Rightarrow> 's \<Rightarrow> 'm \<Rightarrow> 's \<times> 'm result" where
  "tlc_GetLeavesByRange tlc s req = tlc_call tlc ''GetLeavesByRange'' s req"

definition tlc_GetLeavesByHash :: "('s, 'm) trillianLogClient \<Rightarrow> 's \<Rightarrow> 'm \<Rightarrow> 's \<times> 'm result" where
  "tlc_GetLeavesByHash tlc s req = tlc_call tlc ''GetLeavesByHash'' s req"

section \<open>The generator\<close>

text \<open>
  \<open>cmd/admin/gen-server-client\<close> expands the template once for every name in this list. The template, file and output
  libraries are arguments; an error ends the program.
\<close>

definition queries :: "string list" where
  "queries =
    [''QueueLeaf'', ''AddSequencedLeaf'', ''GetInclusionProof'', ''GetInclusionProofByHash'',
     ''GetConsistencyProof'', ''GetLatestSignedLogRoot'', ''GetSequencedLeafCount'', ''GetEntryAndProof'',
     ''InitLog'', ''QueueLeaves'', ''AddSequencedLeaves'', ''GetLeavesByIndex'',
     ''GetLeavesByRange'', ''GetLeavesByHash'']"

record ('t, 'f) gen_libs =
  ParseFiles :: "string \<Rightarrow> 't result"
  os_Create :: "string \<Rightarrow> 'f result"
  Execute :: "'t \<Rightarrow> 'f \<Rightarrow> string list \<Rightarrow> 'f result"

definition gen_main :: "('t, 'f) gen_libs \<Rightarrow> 'f result" where
  "gen_main lib =
    (case ParseFiles lib ''./../admin/gen-server-client/client.go.txt'' of Inl e \<Rightarrow> Inl e | Inr tmpl \<Rightarrow>
    (case os_Create lib ''./client.go'' of Inl e \<Rightarrow> Inl e | Inr fh \<Rightarrow>
     Execute lib tmpl fh queries))"

text \<open>The methods of the client, by name: one for every query, and each is the template at its name.\<close>

definition client_methods :: "('s, 'm) trillianLogClient \<Rightarrow> (string \<times> ('s \<Rightarrow> 'm \<Rightarrow> 's \<times> 'm result)) list" where
  "client_methods tlc =
    [(''QueueLeaf'', tlc_QueueLeaf tlc), (''AddSequencedLeaf'', tlc_AddSequencedLeaf tlc),
     (''GetInclusionProof'', tlc_GetInclusionProof tlc), (''GetInclusionProofByHash'', tlc_GetInclusionProofByHash tlc),
     (''GetConsistencyProof'', tlc_GetConsistencyProof tlc), (''GetLatestSignedLogRoot'', tlc_GetLatestSignedLogRoot tlc),
     (''GetSequencedLeafCount'', tlc_GetSequencedLeafCount tlc), (''GetEntryAndProof'', tlc_GetEntryAndProof tlc),
     (''InitLog'', tlc_InitLog tlc), (''QueueLeaves'', tlc_QueueLeaves tlc),
     (''AddSequencedLeaves'', tlc_AddSequencedLeaves tlc), (''GetLeavesByIndex'', tlc_GetLeavesByIndex tlc),
     (''GetLeavesByRange'', tlc_GetLeavesByRange tlc), (''GetLeavesByHash'', tlc_GetLeavesByHash tlc)]"

lemma client_is_generated: "client_methods tlc = map (\<lambda>q. (q, tlc_call tlc q)) queries \<and> distinct queries"
proof
  show "client_methods tlc = map (\<lambda>q. (q, tlc_call tlc q)) queries"
    by (simp add: client_methods_def queries_def fun_eq_iff tlc_QueueLeaf_def tlc_AddSequencedLeaf_def tlc_GetInclusionProof_def tlc_GetInclusionProofByHash_def tlc_GetConsistencyProof_def tlc_GetLatestSignedLogRoot_def tlc_GetSequencedLeafCount_def tlc_GetEntryAndProof_def tlc_InitLog_def tlc_QueueLeaves_def tlc_AddSequencedLeaves_def tlc_GetLeavesByIndex_def tlc_GetLeavesByRange_def tlc_GetLeavesByHash_def)
  show "distinct queries" by (simp add: queries_def)
qed

section \<open>Type safety\<close>

lemma request_type_inj [simp]: "request_type a = request_type b \<longleftrightarrow> a = b"
  by (simp add: request_type_def)

lemma response_type_inj [simp]: "response_type a = response_type b \<longleftrightarrow> a = b"
  by (simp add: response_type_def)

text \<open>
  The interceptors that the client may be used with: what they do to the state, and what they return as a
  success, is what the handler did on some request (an authorisation layer that may refuse, change the
  request, or change the state itself by the moves it is allowed).
\<close>

locale guarding_interceptor =
  fixes ic :: "'s \<Rightarrow> 'm dyn \<Rightarrow> string \<Rightarrow> ('s, 'm) rpc_handler \<Rightarrow> 's \<times> 'm dyn result"
    and own_move :: "'s \<Rightarrow> 's \<Rightarrow> bool"
  assumes answers: "ic s req m h = (s', Inr resp) \<Longrightarrow>
    \<exists>a req' b. own_move s a \<and> h a req' = (b, Inr resp) \<and> own_move b s'"
begin

lemma call_answers:
  assumes "interceptor tlc = ic" "tlc_call tlc name s req = (s', Inr v)"
  shows "\<exists>a req' b. own_move s a \<and> server tlc name a req' = (b, Inr v) \<and> own_move b s'"
proof -
  obtain temp where temp: "ic s \<lparr>dyn_type = request_type name, dyn_value = req\<rparr> (''/trillian.TrillianLog/'' @ name)
      (tlc_handler tlc name) = (s', Inr temp)" "dyn_value temp = v"
    using assms by (auto simp: tlc_call_def split: prod.splits sum.splits if_splits)
  from answers [OF temp(1)] obtain a req' b where h: "own_move s a" "tlc_handler tlc name a req' = (b, Inr temp)" "own_move b s'"
    by blast
  then have "server tlc name a (dyn_value req') = (b, Inr v)"
    using temp(2) by (auto simp: tlc_handler_def split: prod.splits sum.splits if_splits)
  with h show ?thesis by blast
qed

end

section \<open>The interceptors of the server\<close>

text \<open>
  The first of the two interceptors that \<open>main\<close> chains is \<open>interceptor.ErrorWrapper\<close>, which only replaces one
  well-known error of the SQL library; the second, Trillian's own, stays an argument.
\<close>

definition WrapError :: "error \<Rightarrow> error" where
  "WrapError e =
    (if e = External ''sql: no rows in result set''
     then Errorf ''rpc error: code = NotFound desc = sql: no rows in result set'' [] else e)"

definition ErrorWrapper :: "'s \<Rightarrow> 'm dyn \<Rightarrow> string \<Rightarrow> ('s, 'm) rpc_handler \<Rightarrow> 's \<times> 'm dyn result" where
  "ErrorWrapper s req info handler = (let (s, res) = handler s req in (s, map_sum WrapError id res))"

definition ChainUnaryServer ::
  "('s \<Rightarrow> 'm dyn \<Rightarrow> string \<Rightarrow> ('s, 'm) rpc_handler \<Rightarrow> 's \<times> 'm dyn result) \<Rightarrow>
   ('s \<Rightarrow> 'm dyn \<Rightarrow> string \<Rightarrow> ('s, 'm) rpc_handler \<Rightarrow> 's \<times> 'm dyn result) \<Rightarrow>
   's \<Rightarrow> 'm dyn \<Rightarrow> string \<Rightarrow> ('s, 'm) rpc_handler \<Rightarrow> 's \<times> 'm dyn result" where
  "ChainUnaryServer outer inner s req info handler = outer s req info (\<lambda>s req. inner s req info handler)"

interpretation ew: guarding_interceptor ErrorWrapper "(=)"
proof (unfold_locales, goal_cases)
  case (1 s req m h s' resp)
  then have "h s req = (s', Inr resp)"
    by (cases "h s req"; cases "snd (h s req)") (auto simp: ErrorWrapper_def)
  then show ?case by blast
qed

lemma guarding_chain:
  assumes "guarding_interceptor inner own_move"
  shows "guarding_interceptor (ChainUnaryServer ErrorWrapper inner) own_move"
proof
  fix s req m h s' resp
  assume "ChainUnaryServer ErrorWrapper inner s req m h = (s', Inr resp)"
  then obtain req' where "inner s req' m h = (s', Inr resp)"
    using ew.answers [of s req m "\<lambda>s req. inner s req m h" s' resp] by (auto simp: ChainUnaryServer_def)
  then show "\<exists>a req' b. own_move s a \<and> h a req' = (b, Inr resp) \<and> own_move b s'"
    by (rule guarding_interceptor.answers [OF assms])
qed

text \<open>
  Whatever Trillian's interceptor does with a request, as long as it answers only with what its handler answered, a
  successful call of a client method returns an answer of the server's method of the same name, and the
  handler of one method never reaches the server with a request of another.
\<close>

theorem rpc_answers_come_from_the_server:
  assumes "guarding_interceptor ti own_move" "interceptor tlc = ChainUnaryServer ErrorWrapper ti"
  shows "(tlc_call tlc name s req = (s', Inr v) \<longrightarrow>
      (\<exists>a req' b. own_move s a \<and> server tlc name a req' = (b, Inr v) \<and> own_move b s')) \<and>
    (other \<noteq> name \<longrightarrow> (\<exists>e. tlc_handler tlc name s \<lparr>dyn_type = request_type other, dyn_value = req\<rparr> = (s, Inl e)))"
proof (intro conjI impI)
  assume "tlc_call tlc name s req = (s', Inr v)"
  then show "\<exists>a req' b. own_move s a \<and> server tlc name a req' = (b, Inr v) \<and> own_move b s'"
    by (rule guarding_interceptor.call_answers [OF guarding_chain [OF assms(1)] assms(2)])
qed (simp add: tlc_handler_def)


definition sample_client :: "(nat, nat) trillianLogClient" where
  "sample_client =
    \<lparr>interceptor = ChainUnaryServer ErrorWrapper (\<lambda>s req m h. h s req),
     server = \<lambda>name s req. if name = ''InitLog'' then (s + 1, Inr (s + req)) else (s, Inl ErrTreeNeedsInit)\<rparr>"

theorem rpc_answers_come_from_the_server_witness:
  "\<exists>a req' b. server sample_client ''InitLog'' a req' = (b, Inr 7) \<and> tlc_InitLog sample_client 3 4 = (4, Inr 7)"
proof -
  have pass: "guarding_interceptor (\<lambda>s req m h. h s req) (=)" by unfold_locales blast
  have ic: "interceptor sample_client = ChainUnaryServer ErrorWrapper (\<lambda>s req m h. h s req)" by (simp add: sample_client_def)
  have call: "tlc_call sample_client ''InitLog'' 3 4 = (4, Inr 7)"
    by (simp add: tlc_call_def ic ChainUnaryServer_def ErrorWrapper_def tlc_handler_def) (simp add: sample_client_def)
  obtain a req' b where "server sample_client ''InitLog'' a req' = (b, Inr 7)"
    using rpc_answers_come_from_the_server [OF pass ic, of "''InitLog''" 3 4 4 7 "[]"] call by blast
  with call show ?thesis unfolding tlc_InitLog_def by blast
qed


end
