(* ===== verification/Server.thy ===== *)
theory Server
  imports Config QuotaManager LeafCache ReadLogTx Client
begin

text \<open>
  The server's start-up and its HTTP wrapper (\<open>cmd/server/main.go\<close>): from the configuration to the leaf cache, the
  quota manager and the initialised logs with their routes, and the handler that sets caching headers. Trillian's
  log server and the certificate-transparency front end are arguments.
\<close>

section \<open>Start-up\<close>

definition start_leaf_cache :: "Config \<Rightarrow> LogLeaf cache" where
  "start_leaf_cache cfg = (if LeafCacheSize cfg \<noteq> 0 then SetLeafCacheSize (LeafCacheSize cfg) else leafCache)"

definition start_quota :: "Config \<Rightarrow> QuotaManager" where
  "start_quota cfg = foldl (\<lambda>qm c. WatchLog qm (lc_LogId c)) (NewQuotaManager (MaxUnsequencedLeaves cfg)) (LogConfigs cfg)"

text \<open>\<open>mux.Handle\<close> for each route of an instance: an empty pattern or one that is taken is a panic.\<close>

fun register :: "(string \<rightharpoonup> 'h) \<Rightarrow> (string \<times> 'h) list \<Rightarrow> (string \<rightharpoonup> 'h) result" where
  "register mux [] = Inr mux"
| "register mux ((path, handler) # hs) =
    (if path = [] then Inl (Panic ''http: invalid pattern'')
     else if mux path \<noteq> None then Inl (Panic ''http: multiple registrations'')
     else register (mux(path \<mapsto> handler)) hs)"

text \<open>
  What the loop calls: reading the latest root and initialising a log through the client, validating a
  configuration, and setting up an instance, which gives its routes.
\<close>

record ('s, 'v, 'h) log_services =
  getLatestRoot :: "'s \<Rightarrow> int \<Rightarrow> 's \<times> unit result"
  initLog :: "'s \<Rightarrow> int \<Rightarrow> 's \<times> unit result"
  ValidateLogConfig :: "LogConfig \<Rightarrow> 'v result"
  SetUpInstance :: "'s \<Rightarrow> 'v \<Rightarrow> 's \<times> (string \<times> 'h) list result"

text \<open>The check of one log: initialise it if it has no root yet. An error ends the process.\<close>

definition ensure_log :: "('s, 'v, 'h) log_services \<Rightarrow> 's \<Rightarrow> int \<Rightarrow> int \<Rightarrow> 's \<times> unit result" where
  "ensure_log svc s i logId =
    (let (s, res) = getLatestRoot svc s logId in
     case res of
       Inr _ \<Rightarrow> (s, Inr ())
     | Inl err \<Rightarrow>
         if err = ErrTreeNeedsInit
         then let (s, res) = initLog svc s logId
              in (s, case res of Inl e \<Rightarrow> Inl (wrap_err ''failed to initialize log: %#v: %v'' [ArgInt i] e) | Inr _ \<Rightarrow> Inr ())
         else (s, Inl (wrap_err ''failed to check if log is initialized: %#v: %v'' [ArgInt i] err)))"

fun start_logs ::
  "('s, 'v, 'h) log_services \<Rightarrow> int \<Rightarrow> LogConfig list \<Rightarrow> (string \<rightharpoonup> 'h) \<Rightarrow> 's \<Rightarrow> 's \<times> (string \<rightharpoonup> 'h) result" where
  "start_logs svc i [] mux s = (s, Inr mux)"
| "start_logs svc i (lc # rest) mux s =
    (case ensure_log svc s i (lc_LogId lc) of
       (s, Inl e) \<Rightarrow> (s, Inl e)
     | (s, Inr _) \<Rightarrow>
    (case ValidateLogConfig svc lc of
       Inl e \<Rightarrow> (s, Inl (wrap_err ''failed to validate log config: %#v: %v'' [ArgInt i] e))
     | Inr vcfg \<Rightarrow>
    (case SetUpInstance svc s vcfg of
       (s, Inl e) \<Rightarrow> (s, Inl (wrap_err ''failed to set up log #%v: %v'' [ArgInt i] e))
     | (s, Inr handlers) \<Rightarrow>
    (case register mux handlers of
       Inl p \<Rightarrow> (s, Inl p)
     | Inr mux \<Rightarrow> start_logs svc (i + 1) rest mux s))))"

section \<open>Requests\<close>

record http_request =
  rq_Method :: string
  rq_Path :: string
  rq_CfRay :: string  \<comment> \<open>the header \<open>Cf-Ray\<close>, empty when absent\<close>

record ResponseWriter =
  rw_Header :: "string \<rightharpoonup> string"
  rw_Status :: int
  rw_Body :: string

text \<open>The route for everything else; it writes one line.\<close>

definition root_handler :: "ResponseWriter \<Rightarrow> http_request \<Rightarrow> ResponseWriter" where
  "root_handler rw req =
    (if rq_Path req = ''/''
     then rw\<lparr>rw_Body := rw_Body rw @ ''Hello, I'' @ [CHR 0x27] @ ''m a certificate transparency log! Who are you?'' @ [CHR 0x0A]\<rparr>
     else rw\<lparr>rw_Status := 404, rw_Body := rw_Body rw @ ''404 not found'' @ [CHR 0x0A]\<rparr>)"

definition HasSuffix :: "string \<Rightarrow> string \<Rightarrow> bool" where
  "HasSuffix s t \<longleftrightarrow> length t \<le> length s \<and> drop (length s - length t) s = t"

text \<open>The data centre in a \<open>Cf-Ray\<close> header: what follows the first dash.\<close>

definition colo_of :: "string \<Rightarrow> string option" where
  "colo_of ray = (case dropWhile (\<lambda>c. c \<noteq> CHR ''-'') ray of [] \<Rightarrow> None | _ # rest \<Rightarrow> Some rest)"

definition ServeHTTP ::
  "(ResponseWriter \<Rightarrow> http_request \<Rightarrow> ResponseWriter) \<Rightarrow> (string \<Rightarrow> nat) \<Rightarrow> ResponseWriter \<Rightarrow> http_request \<Rightarrow>
   (string \<Rightarrow> nat) \<times> ResponseWriter" where
  "ServeHTTP inner reqsByColo rw req =
    (let reqsByColo = (case colo_of (rq_CfRay req) of None \<Rightarrow> reqsByColo | Some colo \<Rightarrow> reqsByColo(colo := reqsByColo colo + 1));
         set_cache = (\<lambda>v. rw\<lparr>rw_Header := (rw_Header rw)(''Cache-Control'' \<mapsto> v)\<rparr>);
         rw = (if rq_Method req = ''GET''
               then if rq_Path req = ''/'' then set_cache ''public, max-age=14400''
                    else if HasSuffix (rq_Path req) ''/ct/v1/get-sth'' then set_cache ''public, max-age=3600''
                    else if HasSuffix (rq_Path req) ''/ct/v1/get-roots'' then set_cache ''public, max-age=14400''
                    else set_cache ''no-cache''
               else rw)
     in (reqsByColo, inner rw req))"

text \<open>
  Over any sequence of requests the counter of a data centre grows by the number of requests from there, and
  the wrapped handler sees a long-lived response announced for nothing but the front page and the accepted
  roots.
\<close>

lemma reqsByColo_counts:
  "foldl (\<lambda>n (rw, req). fst (ServeHTTP inner n rw req)) n reqs colo =
    n colo + length (filter (\<lambda>(rw, req). colo_of (rq_CfRay req) = Some colo) reqs)"
  by (induction reqs arbitrary: n) (auto simp: ServeHTTP_def Let_def split: option.splits)

lemma long_lived_responses:
  assumes "snd (ServeHTTP (\<lambda>rw req. rw) n rw req) = rw'" "rw_Header rw ''Cache-Control'' = None"
    "rw_Header rw' ''Cache-Control'' = Some ''public, max-age=14400''"
  shows "rq_Method req = ''GET'' \<and> (rq_Path req = ''/'' \<or> HasSuffix (rq_Path req) ''/ct/v1/get-roots'')"
  using assms by (auto simp: ServeHTTP_def Let_def split: if_splits)

section \<open>The state after reading the configuration\<close>

lemma start_quota_counts:
  "unsequenced (foldl (\<lambda>qm c. WatchLog qm (lc_LogId c)) qm cs) t = (if t \<in> lc_LogId ` set cs then Some 0 else unsequenced qm t)"
  "maxUnsequencedLeaves (foldl (\<lambda>qm c. WatchLog qm (lc_LogId c)) qm cs) = maxUnsequencedLeaves qm"
  by (induction cs arbitrary: qm) (auto simp: WatchLog_def)

definition write_spec :: "int \<Rightarrow> Spec" where
  "write_spec t = \<lparr>spec_Group = Tree, spec_Kind = Write, spec_TreeID = t, spec_User = []\<rparr>"

text \<open>
  C35. After a start from a valid file the components agree on the logs there are: a request for \<open>n\<close> write tokens of a
  tree succeeds exactly when the administrative storage knows the tree and \<open>n\<close> is within the configured limit; every
  tree id is a positive 64-bit number, as the key space of the local database needs; and the leaf cache
  starts consistent.
\<close>

theorem start_state_is_consistent:
  assumes "FromFile lib path = Inr cfg" "\<forall>c \<in> set (LogConfigs cfg). in_int64 (lc_LogId c)"
    and "as_Snapshot (AdminStorage cfg) = Inr tx" "0 \<le> n" "n < 2 ^ 63"
  shows "(snd (GetTokens (start_quota cfg) n [write_spec t]) = Inr () \<longleftrightarrow>
      (\<exists>tree. GetTree tx t = Inr tree) \<and> n \<le> MaxUnsequencedLeaves cfg) \<and>
    (\<forall>tree. GetTree tx t = Inr tree \<longrightarrow> TreeId tree = t \<and> 0 < t \<and> valid_tree t) \<and>
    cache_inv (start_leaf_cache cfg)"
proof (intro conjI allI impI)
  obtain raw parsed where p: "fields_valid parsed" "check_ids 0 (f_Logs parsed) = Inr ()"
      "list_all2 (\<lambda>m c. logConfig lib m = Inr c) (f_Logs parsed) (LogConfigs cfg)"
      "list_all2 (\<lambda>m t. readTree lib m = Inr t) (f_Logs parsed) (as_trees (AdminStorage cfg))"
      "LeafCacheSize cfg = f_LeafCacheSize parsed"
    by (rule FromFile_Inr [OF assms(1)])
  have ids: "map m_LogId (f_Logs parsed) = map lc_LogId (LogConfigs cfg)"
      "map m_LogId (f_Logs parsed) = map TreeId (as_trees (AdminStorage cfg))"
    using list_all2_map_eq [OF p(3)] list_all2_map_eq [OF p(4)] logConfig_fields(1) readTree_fields(1) by metis+
  then have same: "lc_LogId ` set (LogConfigs cfg) = TreeId ` set (as_trees (AdminStorage cfg))"
    by (metis set_map)
  have tx: "ListTrees tx False = Inr (as_trees (AdminStorage cfg))" using assms(3) by (auto simp: as_Snapshot_def ListTrees_def)
  have known: "(\<exists>tree. GetTree tx t = Inr tree) \<longleftrightarrow> t \<in> lc_LogId ` set (LogConfigs cfg)"
    using adm.get_iff_listed [OF tx] same by simp
  show "snd (GetTokens (start_quota cfg) n [write_spec t]) = Inr () \<longleftrightarrow>
      (\<exists>tree. GetTree tx t = Inr tree) \<and> n \<le> MaxUnsequencedLeaves cfg"
    unfolding known using assms(4,5)
    by (simp add: GetTokens_def getTokens_def write_spec_def start_quota_def start_quota_counts in_int64_def NewQuotaManager_def)
  fix tree assume tree: "GetTree tx t = Inr tree"
  then show id: "TreeId tree = t" by (auto simp: GetTree_def GetTree_loop_find find_Some_iff split: option.splits)
  obtain c where c: "c \<in> set (LogConfigs cfg)" "t = lc_LogId c" using tree known by blast
  have "t \<in> set (map m_LogId (f_Logs parsed))" using c ids(1) by simp
  then show "0 < t" using p(2) by (auto simp: check_ids_ok)
  then show "valid_tree t" using assms(2) c by (simp add: valid_tree_def in_int64_def)
next
  obtain raw parsed where "fields_valid parsed" "LeafCacheSize cfg = f_LeafCacheSize parsed"
    by (rule FromFile_Inr [OF assms(1)])
  then show "cache_inv (start_leaf_cache cfg)"
    by (auto simp: start_leaf_cache_def SetLeafCacheSize_def leafCache_def fields_valid_def intro!: cache_inv_New)
qed

section \<open>The start of the logs\<close>

lemma register_keeps: "register mux hs = Inr mux' \<Longrightarrow> mux \<subseteq>\<^sub>m mux' \<and> (\<forall>(path, h) \<in> set hs. mux' path = Some h)"
proof (induction mux hs rule: register.induct)
  case (2 mux path handler hs)
  then have new: "path \<noteq> []" "mux path = None" "register (mux(path \<mapsto> handler)) hs = Inr mux'" by (simp_all split: if_splits)
  have "mux(path \<mapsto> handler) \<subseteq>\<^sub>m mux' \<and> (\<forall>(path, h) \<in> set hs. mux' path = Some h)"
    by (rule "2.IH" [OF new(1) _ new(3)]) (simp add: new(2))
  then have IH: "mux(path \<mapsto> handler) \<subseteq>\<^sub>m mux'" "\<forall>(path, h) \<in> set hs. mux' path = Some h" by simp_all
  have "mux \<subseteq>\<^sub>m mux(path \<mapsto> handler)" using new(2) by (auto simp: map_le_def)
  then have "mux \<subseteq>\<^sub>m mux'" using IH(1) by (rule map_le_trans)
  moreover have "mux' path = Some handler" using IH(1) by (simp add: map_le_def)
  ultimately show ?case using IH(2) by simp
qed simp

text \<open>What start-up needs of the services: a read or initialised root stays.\<close>

definition services_keep :: "('s, 'v, 'h) log_services \<Rightarrow> ('s \<Rightarrow> int \<Rightarrow> bool) \<Rightarrow> bool" where
  "services_keep svc ready \<longleftrightarrow>
    (\<forall>s i s' r. getLatestRoot svc s i = (s', r) \<longrightarrow> (r = Inr () \<longrightarrow> ready s' i) \<and> (\<forall>j. ready s j \<longrightarrow> ready s' j)) \<and>
    (\<forall>s i s' r. initLog svc s i = (s', r) \<longrightarrow> (r = Inr () \<longrightarrow> ready s' i) \<and> (\<forall>j. ready s j \<longrightarrow> ready s' j)) \<and>
    (\<forall>s v s' r. SetUpInstance svc s v = (s', r) \<longrightarrow> (\<forall>j. ready s j \<longrightarrow> ready s' j))"

lemma ensure_log_ready:
  assumes "services_keep svc ready" "ensure_log svc s i logId = (s', res)"
  shows "(res = Inr () \<longrightarrow> ready s' logId) \<and> (\<forall>j. ready s j \<longrightarrow> ready s' j)"
proof -
  obtain a ra where a: "getLatestRoot svc s logId = (a, ra)" by (rule prod.exhaust)
  obtain b rb where b: "initLog svc a logId = (b, rb)" by (rule prod.exhaust)
  have "(ra = Inr () \<longrightarrow> ready a logId) \<and> (\<forall>j. ready s j \<longrightarrow> ready a j)" "(rb = Inr () \<longrightarrow> ready b logId) \<and> (\<forall>j. ready a j \<longrightarrow> ready b j)"
    using assms(1) a b unfolding services_keep_def by blast+
  then show ?thesis
    using assms(2) by (auto simp: ensure_log_def a b split: sum.splits if_splits)
qed

text \<open>
  When start-up gets through, every configured log has a root, was validated, and has all its routes registered
  next to the earlier ones: the loop stops at the first log for which one of these fails.
\<close>

lemma start_logs_ready:
  assumes "services_keep svc ready" "start_logs svc i cs mux s = (s', Inr mux')"
  shows "(\<forall>c \<in> set cs. ready s' (lc_LogId c) \<and>
      (\<exists>v t t' hs. ValidateLogConfig svc c = Inr v \<and> SetUpInstance svc t v = (t', Inr hs) \<and> (\<forall>(path, h) \<in> set hs. mux' path = Some h))) \<and>
    mux \<subseteq>\<^sub>m mux' \<and> (\<forall>j. ready s j \<longrightarrow> ready s' j)"
  using assms(2)
proof (induction cs arbitrary: i mux s)
  case Nil
  then show ?case by simp
next
  case (Cons c cs)
  then obtain s1 v s2 hs m where st: "ensure_log svc s i (lc_LogId c) = (s1, Inr ())" "ValidateLogConfig svc c = Inr v"
      "SetUpInstance svc s1 v = (s2, Inr hs)" "register mux hs = Inr m" "start_logs svc (i + 1) cs m s2 = (s', Inr mux')"
    by (auto split: prod.splits sum.splits)
  note IH = Cons.IH [OF st(5)]
  have ens: "ready s1 (lc_LogId c)" "\<forall>j. ready s j \<longrightarrow> ready s1 j" using ensure_log_ready [OF assms(1) st(1)] by auto
  have kept: "\<forall>j. ready s1 j \<longrightarrow> ready s2 j" using assms(1) st(3) unfolding services_keep_def by blast
  have reg: "mux \<subseteq>\<^sub>m m" "\<forall>(path, h) \<in> set hs. m path = Some h" using register_keeps [OF st(4)] by auto
  have le: "m \<subseteq>\<^sub>m mux'" "\<forall>j. ready s2 j \<longrightarrow> ready s' j" using IH by blast+
  have "mux \<subseteq>\<^sub>m mux'" using reg(1) le(1) by (rule map_le_trans)
  moreover have "mux' path = Some h" if "(path, h) \<in> set hs" for path h
    using reg(2) that le(1) by (auto simp: map_le_def dom_def)
  then have "\<forall>(path, h) \<in> set hs. mux' path = Some h" by blast
  moreover have "ready s' (lc_LogId c)" "\<forall>j. ready s j \<longrightarrow> ready s' j" using ens kept le(2) by blast+
  ultimately show ?case using IH st(2,3) unfolding list.set by blast
qed

section \<open>Concrete runs\<close>

theorem start_state_is_consistent_witness:
  "\<exists>cfg tx. FromFile (sample_libs [3, 4]) ''f'' = Inr cfg \<and> as_Snapshot (AdminStorage cfg) = Inr tx \<and>
     (snd (GetTokens (start_quota cfg) 600 [write_spec 3]) = Inr () \<longleftrightarrow> (\<exists>tree. GetTree tx 3 = Inr tree) \<and> 600 \<le> MaxUnsequencedLeaves cfg)"
proof -
  have "fields_valid (sample_file [3, 4])" by (simp add: fields_valid_def sample_file_def)
  moreover have logs: "f_Logs (sample_file [3, 4]) = [sample_meta 3, sample_meta 4]" "m_LogId (sample_meta i) = i" for i
    by (simp_all add: sample_file_def sample_meta_def)
  ultimately obtain cfg where cfg: "FromFile (sample_libs [3, 4]) ''f'' = Inr cfg"
    using sample_views [of "[3, 4]" 3] sample_views [of "[3, 4]" 4] check_file_ok [of "sample_file [3, 4]"]
    by (auto simp: FromFile_def) (simp add: sample_libs_def)
  have "yamlUnmarshal (sample_libs [3, 4]) raw = Inr (sample_file [3, 4])" for raw by (simp add: sample_libs_def)
  then have "list_all2 (\<lambda>m c. logConfig (sample_libs [3, 4]) m = Inr c) [sample_meta 3, sample_meta 4] (LogConfigs cfg)"
    using FromFile_Inr [OF cfg] logs(1) by (metis Inr_inject)
  then have "\<forall>c \<in> set (LogConfigs cfg). lc_LogId c \<in> {3, 4}"
    using logConfig_fields(1) logs(2) by (auto simp: list_all2_Cons1)
  then have ids: "\<forall>c \<in> set (LogConfigs cfg). in_int64 (lc_LogId c)" by (auto simp: in_int64_def)
  have tx: "as_Snapshot (AdminStorage cfg) = Inr \<lparr>at_trees = as_trees (AdminStorage cfg)\<rparr>" by (simp add: as_Snapshot_def)
  have "(0 :: int) \<le> 600" "(600 :: int) < 2 ^ 63" by simp_all
  from start_state_is_consistent [OF cfg ids tx this, of 3] cfg tx show ?thesis by blast
qed

definition sample_log :: "int \<Rightarrow> LogConfig" where
  "sample_log i =
    \<lparr>lc_LogId = i, lc_Prefix = [], lc_RootsPemFile = [], lc_NotAfterStart = None, lc_NotAfterLimit = None, lc_PublicKey = [],
     lc_PrivateKey = \<lparr>TypeUrl = [], AnyValue = []\<rparr>\<rparr>"

end
