(* ===== verification/ServeMux.thy ===== *)
theory ServeMux
  imports Server "HOL-Library.Sublist" "HOL-Library.Multiset"
begin

text \<open>
  Routing. The request multiplexer of the standard library (Go 1.11), the routes a log's front end registers
  (Trillian's \<open>Handlers\<close>), the debugging server (\<open>cmd/server/metrics.go\<close>), and what the server answers to a
  request. Patterns with host names and query strings are left out: no route has a host, and a query does not
  take part in routing.
\<close>

section \<open>The multiplexer\<close>

definition pathMatch :: "string \<Rightarrow> string \<Rightarrow> bool" where
  "pathMatch pat path \<longleftrightarrow>
    (if pat = [] then False else if last pat \<noteq> CHR ''/'' then pat = path else length pat \<le> length path \<and> take (length pat) path = pat)"

text \<open>The loop of \<open>match\<close> over the entries of the map, in the order in which the iteration delivers them.\<close>

fun match_loop :: "(string \<times> 'h) list \<Rightarrow> string \<Rightarrow> nat \<Rightarrow> 'h option \<Rightarrow> 'h option" where
  "match_loop [] path n h = h"
| "match_loop ((k, v) # es) path n h =
    (if \<not> pathMatch k path then match_loop es path n h
     else if h = None \<or> length k > n then match_loop es path (length k) (Some v)
     else match_loop es path n h)"

definition mux_match :: "(string \<times> 'h) list \<Rightarrow> string \<Rightarrow> 'h option" where
  "mux_match es path = (case map_of es path of Some h \<Rightarrow> Some h | None \<Rightarrow> match_loop es path 0 None)"

text \<open>\<open>path.Clean\<close> of a rooted path, on its elements, and \<open>cleanPath\<close>.\<close>

fun path_elems :: "string \<Rightarrow> string \<Rightarrow> string list" where
  "path_elems [] cur = [rev cur]"
| "path_elems (c # cs) cur = (if c = CHR ''/'' then rev cur # path_elems cs [] else path_elems cs (c # cur))"

definition clean_step :: "string list \<Rightarrow> string \<Rightarrow> string list" where
  "clean_step st e = (if e = [] \<or> e = ''.'' then st else if e = ''..'' then butlast st else st @ [e])"

definition path_Clean :: "string \<Rightarrow> string" where
  "path_Clean p =
    (let st = foldl clean_step [] (path_elems p []) in
     if st = [] then ''/'' else concat (map (\<lambda>e. CHR ''/'' # e) st))"

definition cleanPath :: "string \<Rightarrow> string" where
  "cleanPath p =
    (if p = [] then ''/''
     else let p = (if hd p \<noteq> CHR ''/'' then CHR ''/'' # p else p); np = path_Clean p
          in if last p = CHR ''/'' \<and> np \<noteq> ''/'' then np @ ''/'' else np)"

datatype 'h routing = Handled 'h | Redirect string | NotFound

definition shouldRedirect :: "(string \<times> 'h) list \<Rightarrow> string \<Rightarrow> bool" where
  "shouldRedirect es path \<longleftrightarrow>
    (if map_of es path \<noteq> None then False
     else if path = [] then False
     else map_of es (path @ ''/'') \<noteq> None \<and> last path \<noteq> CHR ''/'')"

definition mux_find :: "(string \<times> 'h) list \<Rightarrow> string \<Rightarrow> 'h routing" where
  "mux_find es path = (case mux_match es path of None \<Rightarrow> NotFound | Some h \<Rightarrow> Handled h)"

definition mux_Handler :: "(string \<times> 'h) list \<Rightarrow> http_request \<Rightarrow> 'h routing" where
  "mux_Handler es r =
    (if rq_Method r = ''CONNECT''
     then if shouldRedirect es (rq_Path r) then Redirect (rq_Path r @ ''/'') else mux_find es (rq_Path r)
     else let path = cleanPath (rq_Path r)
          in if shouldRedirect es path then Redirect (path @ ''/'')
             else if path \<noteq> rq_Path r then Redirect path
             else mux_find es (rq_Path r))"

type_synonym handler = "ResponseWriter \<Rightarrow> http_request \<Rightarrow> ResponseWriter"

text \<open>The target \<open>*\<close> of a request is refused before routing.\<close>

definition mux_ServeHTTP :: "(string \<times> handler) list \<Rightarrow> handler" where
  "mux_ServeHTTP es rw r =
    (if rq_Path r = ''*'' then rw\<lparr>rw_Status := 400\<rparr>
     else case mux_Handler es r of
         Handled h \<Rightarrow> h rw r
       | Redirect p \<Rightarrow> rw\<lparr>rw_Status := 301, rw_Header := (rw_Header rw)(''Location'' \<mapsto> p)\<rparr>
       | NotFound \<Rightarrow> rw\<lparr>rw_Status := 404, rw_Body := rw_Body rw @ ''404 page not found'' @ [CHR 0x0A]\<rparr>)"

section \<open>Longest match\<close>

lemma pathMatch_iff:
  "pathMatch pat path \<longleftrightarrow> pat \<noteq> [] \<and> (if last pat = CHR ''/'' then prefix pat path else pat = path)"
  by (auto simp: pathMatch_def prefix_def) (metis append_take_drop_id)

lemma pathMatch_prefix: "pathMatch pat path \<Longrightarrow> prefix pat path"
  by (auto simp: pathMatch_iff split: if_splits)

lemma pathMatch_length: "pathMatch p path \<Longrightarrow> pathMatch q path \<Longrightarrow> length p = length q \<Longrightarrow> p = q"
  by (metis pathMatch_prefix prefix_same_cases prefix_length_le prefix_order.dual_order.antisym prefix_order.order_refl order_refl
      not_equal_is_parallel parallel_def)

text \<open>What the loop computes: the candidate it holds, unless a longer pattern matches.\<close>

definition is_longest :: "(string \<Rightarrow> bool) \<Rightarrow> string \<Rightarrow> bool" where
  "is_longest P k \<longleftrightarrow> P k \<and> (\<forall>k'. P k' \<longrightarrow> length k' \<le> length k)"

lemma match_loop_spec:
  assumes "match_loop es path n h = r" "distinct (map fst es)" "h = None \<Longrightarrow> n = 0"
  shows "(if \<exists>(k, v) \<in> set es. pathMatch k path \<and> (h = None \<or> n < length k)
    then \<exists>(k, v) \<in> set es. r = Some v \<and> is_longest (\<lambda>k. k \<in> fst ` set es \<and> pathMatch k path) k
    else r = h)"
  using assms
proof (induction es arbitrary: n h)
  case Nil
  then show ?case by simp
next
  case (Cons e es)
  obtain k v where e: "e = (k, v)" by (cases e)
  show ?case
  proof (cases "pathMatch k path \<and> (h = None \<or> n < length k)")
    case True
    then have r: "match_loop es path (length k) (Some v) = r" using Cons.prems(1) e by auto
    note IH = Cons.IH [OF r]
    show ?thesis
    proof (cases "\<exists>(k', v') \<in> set es. pathMatch k' path \<and> length k < length k'")
      case longer: True
      then obtain k' v' where k': "(k', v') \<in> set es" "r = Some v'" "is_longest (\<lambda>k. k \<in> fst ` set es \<and> pathMatch k path) k'"
        using IH Cons.prems(2) by (auto simp: e)
      have "length k \<le> length k'" using longer k'(3) by (fastforce simp: is_longest_def)
      then have "is_longest (\<lambda>k. k \<in> fst ` set (e # es) \<and> pathMatch k path) k'" using k'(3) by (auto simp: is_longest_def e)
      then show ?thesis using True k'(1,2) e by auto
    next
      case False
      then have "r = Some v" using IH Cons.prems(2) by (auto simp: e)
      moreover have "is_longest (\<lambda>k. k \<in> fst ` set (e # es) \<and> pathMatch k path) k"
        using False True by (fastforce simp: is_longest_def e)
      ultimately show ?thesis using True e by auto
    qed
  next
    case no: False
    then have r: "match_loop es path n h = r" using Cons.prems(1) e by auto
    note IH = Cons.IH [OF r _ Cons.prems(3)]
    show ?thesis
    proof (cases "\<exists>(k', v') \<in> set es. pathMatch k' path \<and> (h = None \<or> n < length k')")
      case True
      then obtain k' v' where k': "(k', v') \<in> set es" "r = Some v'" "is_longest (\<lambda>k. k \<in> fst ` set es \<and> pathMatch k path) k'"
        using IH Cons.prems(2) by (auto simp: e)
      have "pathMatch k path \<Longrightarrow> length k \<le> length k'"
        using True no k'(3) by (fastforce simp: is_longest_def)
      then have "is_longest (\<lambda>k. k \<in> fst ` set (e # es) \<and> pathMatch k path) k'" using k'(3) by (auto simp: is_longest_def e)
      then show ?thesis using k'(1,2) True e by auto
    next
      case False
      then show ?thesis using IH Cons.prems(2) no by (auto simp: e)
    qed
  qed
qed


lemma mux_match_iff:
  assumes "distinct (map fst es)" "path \<noteq> []"
  shows "mux_match es path = Some h \<longleftrightarrow>
    (\<exists>k. map_of es k = Some h \<and> is_longest (\<lambda>k. map_of es k \<noteq> None \<and> pathMatch k path) k)"
proof -
  have dom: "map_of es k \<noteq> None \<longleftrightarrow> k \<in> fst ` set es" for k by (metis map_of_eq_None_iff)
  have one: "k = k'" if "is_longest (\<lambda>k. map_of es k \<noteq> None \<and> pathMatch k path) k" "is_longest (\<lambda>k. map_of es k \<noteq> None \<and> pathMatch k path) k'" for k k'
    using that pathMatch_length [of k path k'] by (auto simp: is_longest_def intro: le_antisym)
  have uniq: "(\<exists>k. map_of es k = Some h \<and> is_longest (\<lambda>k. map_of es k \<noteq> None \<and> pathMatch k path) k) \<longleftrightarrow> v = h"
    if "map_of es k0 = Some v" "is_longest (\<lambda>k. map_of es k \<noteq> None \<and> pathMatch k path) k0" for k0 v
  proof
    assume "\<exists>k. map_of es k = Some h \<and> is_longest (\<lambda>k. map_of es k \<noteq> None \<and> pathMatch k path) k"
    then obtain k where "map_of es k = Some h" "is_longest (\<lambda>k. map_of es k \<noteq> None \<and> pathMatch k path) k" by blast
    then show "v = h" using one [OF that(2)] that(1) by simp
  qed (use that in blast)
  have self: "pathMatch path path" using assms(2) by (simp add: pathMatch_iff)
  show ?thesis
  proof (cases "map_of es path")
    case (Some h')
    have "is_longest (\<lambda>k. map_of es k \<noteq> None \<and> pathMatch k path) path"
      using Some self by (auto simp: is_longest_def dest: pathMatch_prefix prefix_length_le)
    then show ?thesis using Some uniq [OF Some] by (simp add: mux_match_def)
  next
    case None
    show ?thesis
    proof (cases "\<exists>k. map_of es k \<noteq> None \<and> pathMatch k path")
      case True
      then obtain k v where "(k, v) \<in> set es" "match_loop es path 0 None = Some v"
          "is_longest (\<lambda>k. k \<in> fst ` set es \<and> pathMatch k path) k"
        using match_loop_spec [OF refl assms(1), where path = path and n = 0 and h = None] unfolding dom
        by (auto split: if_splits)
      then have "map_of es k = Some v" "mux_match es path = Some v" and longest: "is_longest (\<lambda>k. k \<in> fst ` set es \<and> pathMatch k path) k"
        using assms(1) None by (simp_all add: mux_match_def)
      then show ?thesis using uniq [OF _ longest [folded dom]] by simp
    next
      case False
      then have "\<not> (\<exists>(k, v) \<in> set es. pathMatch k path)" unfolding dom by force
      then have "mux_match es path = None"
        using match_loop_spec [OF refl assms(1), where path = path and n = 0 and h = None] None by (fastforce simp: mux_match_def)
      then show ?thesis using False unfolding is_longest_def by (metis option.distinct(1))
    qed
  qed
qed

text \<open>The iteration order of the map of routes does not matter.\<close>

lemma mux_match_order:
  assumes "distinct (map fst es)" "distinct (map fst es')" "map_of es = map_of es'" "path \<noteq> []"
  shows "mux_match es path = mux_match es' path"
proof -
  have "mux_match es path = Some h \<longleftrightarrow> mux_match es' path = Some h" for h
    using mux_match_iff [OF assms(1,4)] mux_match_iff [OF assms(2,4)] assms(3) by simp
  then show ?thesis by (metis not_None_eq)
qed

lemma mux_match_exact: "map_of es path = Some h \<Longrightarrow> mux_match es path = Some h"
  by (simp add: mux_match_def)

text \<open>When the only pattern with a trailing slash is the root, every other path is an exact route or the root.\<close>

lemma mux_match_flat:
  assumes "distinct (map fst es)" "map_of es ''/'' = Some root" "\<forall>k. map_of es k \<noteq> None \<and> k \<noteq> ''/'' \<longrightarrow> last k \<noteq> CHR ''/''"
    "path \<noteq> []" "hd path = CHR ''/''"
  shows "mux_match es path = (case map_of es path of Some h \<Rightarrow> Some h | None \<Rightarrow> Some root)"
proof (cases "map_of es path")
  case None
  have "pathMatch k path \<Longrightarrow> map_of es k \<noteq> None \<Longrightarrow> k = ''/''" for k
    using assms(3) None by (auto simp: pathMatch_iff split: if_splits)
  moreover have "pathMatch ''/'' path" using assms(4,5) by (cases path) (simp_all add: pathMatch_iff)
  ultimately have "is_longest (\<lambda>k. map_of es k \<noteq> None \<and> pathMatch k path) ''/''"
    unfolding is_longest_def using assms(2) by (metis le_refl option.distinct(1))
  then show ?thesis using None assms(2) mux_match_iff [OF assms(1,4), of root] by auto
qed (simp add: mux_match_def)

section \<open>The routes of a log\<close>

text \<open>\<open>strings.TrimRight(prefix, "/")\<close> after a slash is put in front when there is none.\<close>

definition canonical_prefix :: "string \<Rightarrow> string" where
  "canonical_prefix p =
    rev (dropWhile (\<lambda>c. c = CHR ''/'') (rev (if p \<noteq> [] \<and> hd p = CHR ''/'' then p else CHR ''/'' # p)))"

definition ct_endpoints :: "string list" where
  "ct_endpoints =
    [''add-chain'', ''add-pre-chain'', ''get-sth'', ''get-sth-consistency'', ''get-proof-by-hash'', ''get-entries'', ''get-roots'',
     ''get-entry-and-proof'']"

definition ct_path :: "string \<Rightarrow> string" where
  "ct_path e = ''/ct/v1/'' @ e"

text \<open>The routes of an instance (the program sets up no mirrors); \<open>h\<close> gives the handler of an endpoint.\<close>

definition Handlers :: "string \<Rightarrow> (string \<Rightarrow> 'h) \<Rightarrow> (string \<times> 'h) list" where
  "Handlers pre h = map (\<lambda>e. (canonical_prefix pre @ ct_path e, h e)) ct_endpoints"

lemma last_segment: "c \<notin> set n \<Longrightarrow> takeWhile (\<lambda>x. x \<noteq> c) (rev (p @ c # n)) = rev n"
  by (subst rev_append, subst rev.simps(2), subst append_assoc, subst takeWhile_append2) auto

lemma ct_endpoints_plain: "e \<in> set ct_endpoints \<Longrightarrow> CHR ''/'' \<notin> set e"
  by (auto simp: ct_endpoints_def)

lemma route_inj:
  assumes "e \<in> set ct_endpoints" "e' \<in> set ct_endpoints" "p @ ct_path e = p' @ ct_path e'"
  shows "p = p' \<and> e = e'"
proof -
  have "(p @ ''/ct/v1'') @ CHR ''/'' # e = (p' @ ''/ct/v1'') @ CHR ''/'' # e'" using assms(3) by (simp add: ct_path_def)
  then have "rev e = rev e'" using last_segment ct_endpoints_plain assms(1,2) by metis
  then show ?thesis using assms(3) by (simp add: ct_path_def)
qed

lemma Handlers_distinct: "distinct (map fst (Handlers pre h))"
proof -
  have "inj_on (\<lambda>e. canonical_prefix pre @ ct_path e) (set ct_endpoints)"
    by (rule inj_onI) (metis route_inj)
  moreover have "distinct ct_endpoints" by (simp add: ct_endpoints_def)
  ultimately show ?thesis by (simp add: Handlers_def distinct_map comp_def)
qed

lemma Handlers_paths: "fst ` set (Handlers pre h) = (\<lambda>e. canonical_prefix pre @ ct_path e) ` set ct_endpoints"
  by (force simp: Handlers_def)

lemma register_ok_iff:
  "(\<exists>mux'. register mux hs = Inr mux') \<longleftrightarrow>
    distinct (map fst hs) \<and> [] \<notin> fst ` set hs \<and> fst ` set hs \<inter> dom mux = {}"
proof (induction mux hs rule: register.induct)
  case (1 mux)
  then show ?case by simp
next
  case (2 mux path h hs)
  show ?case
  proof (cases "path = [] \<or> mux path \<noteq> None")
    case True
    then show ?thesis by auto
  next
    case False
    then have "(\<exists>mux'. register (mux(path \<mapsto> h)) hs = Inr mux') \<longleftrightarrow>
        distinct (map fst hs) \<and> [] \<notin> fst ` set hs \<and> fst ` set hs \<inter> dom (mux(path \<mapsto> h)) = {}"
      using "2.IH" by (simp del: fun_upd_apply)
    moreover have "fst ` set hs \<inter> dom (mux(path \<mapsto> h)) = {} \<longleftrightarrow> path \<notin> fst ` set hs \<and> fst ` set hs \<inter> dom mux = {}"
      by auto
    ultimately show ?thesis using False by (auto simp del: fun_upd_apply dom_fun_upd)
  qed
qed

lemma register_dom: "register mux hs = Inr mux' \<Longrightarrow> dom mux' = dom mux \<union> fst ` set hs"
  by (induction mux hs rule: register.induct) (auto split: if_splits)

lemma register_Inl: "register mux hs = Inl e \<Longrightarrow> \<exists>p. e = Panic p"
  by (induction mux hs rule: register.induct) (auto split: if_splits)

section \<open>Starting several logs\<close>

text \<open>
  Services whose instances have the routes of the front end: setting up the validated configuration of a log gives
  the routes under its prefix.
\<close>

definition front_end :: "('s, 'v, 'h) log_services \<Rightarrow> (LogConfig \<Rightarrow> string \<Rightarrow> 'h) \<Rightarrow> bool" where
  "front_end svc h \<longleftrightarrow>
    (\<forall>c v s s' hs. ValidateLogConfig svc c = Inr v \<longrightarrow> SetUpInstance svc s v = (s', Inr hs) \<longrightarrow>
       mset hs = mset (Handlers (lc_Prefix c) (h c)))"

lemma mset_routes:
  assumes "mset hs = mset (Handlers pre h)"
  shows "distinct (map fst hs)" "fst ` set hs = (\<lambda>e. canonical_prefix pre @ ct_path e) ` set ct_endpoints"
proof -
  have "mset (map fst hs) = mset (map fst (Handlers pre h))" using assms by (metis mset_map)
  then show "distinct (map fst hs)" using Handlers_distinct mset_eq_imp_distinct_iff by blast
  show "fst ` set hs = (\<lambda>e. canonical_prefix pre @ ct_path e) ` set ct_endpoints"
    using assms Handlers_paths by (metis set_mset_mset)
qed

lemma same_routes_iff:
  "(\<lambda>e. p @ ct_path e) ` set ct_endpoints \<inter> (\<lambda>e. p' @ ct_path e) ` set ct_endpoints = {} \<longleftrightarrow> p \<noteq> p'"
proof -
  have "''get-sth'' \<in> set ct_endpoints" by (simp add: ct_endpoints_def)
  then show ?thesis using route_inj by blast
qed

text \<open>The routes of the logs that were set up so far.\<close>

definition log_routes :: "LogConfig list \<Rightarrow> string set" where
  "log_routes cs = (\<Union>c \<in> set cs. (\<lambda>e. canonical_prefix (lc_Prefix c) @ ct_path e) ` set ct_endpoints)"


lemma log_routes_Cons:
  "log_routes (c # cs) = (\<lambda>e. canonical_prefix (lc_Prefix c) @ ct_path e) ` set ct_endpoints \<union> log_routes cs"
  by (simp add: log_routes_def)

lemma routes_disjoint_iff:
  "(\<lambda>e. canonical_prefix pre @ ct_path e) ` set ct_endpoints \<inter> log_routes cs = {} \<longleftrightarrow>
    canonical_prefix pre \<notin> (canonical_prefix \<circ> lc_Prefix) ` set cs"
proof -
  have "(\<lambda>e. canonical_prefix pre @ ct_path e) ` set ct_endpoints \<inter> log_routes cs = {} \<longleftrightarrow>
    (\<forall>c \<in> set cs. canonical_prefix pre \<noteq> canonical_prefix (lc_Prefix c))"
    unfolding log_routes_def Int_UN_distrib by (simp only: UNION_empty_conv same_routes_iff)
  then show ?thesis by auto
qed

text \<open>Services that do their part for the logs \<open>cs\<close>.\<close>

definition services_up :: "('s, 'v, 'h) log_services \<Rightarrow> LogConfig list \<Rightarrow> bool" where
  "services_up svc cs \<longleftrightarrow>
    (\<forall>s i. snd (getLatestRoot svc s i) \<in> {Inr (), Inl ErrTreeNeedsInit} \<and> snd (initLog svc s i) = Inr ()) \<and>
    (\<forall>c \<in> set cs. \<exists>v. ValidateLogConfig svc c = Inr v \<and> (\<forall>s. \<exists>hs. snd (SetUpInstance svc s v) = Inr hs))"

lemma ensure_log_up: "services_up svc cs \<Longrightarrow> snd (ensure_log svc s i logId) = Inr ()"
proof -
  assume "services_up svc cs"
  then have "snd (getLatestRoot svc s logId) = Inr () \<or> snd (getLatestRoot svc s logId) = Inl ErrTreeNeedsInit"
      "snd (initLog svc t logId) = Inr ()" for t
    by (auto simp: services_up_def)
  then show ?thesis by (auto simp: ensure_log_def split_beta)
qed

lemma start_logs_step:
  assumes "services_up svc (c # cs)" "front_end svc h"
  obtains s' hs where "mset hs = mset (Handlers (lc_Prefix c) (h c))"
    "start_logs svc i (c # cs) mux s = (case register mux hs of Inl p \<Rightarrow> (s', Inl p) | Inr mux \<Rightarrow> start_logs svc (i + 1) cs mux s')"
proof -
  obtain s1 where s1: "ensure_log svc s i (lc_LogId c) = (s1, Inr ())"
    using ensure_log_up [OF assms(1), of s i "lc_LogId c"] by (metis prod.collapse)
  obtain v hs where v: "ValidateLogConfig svc c = Inr v" "snd (SetUpInstance svc s1 v) = Inr hs"
    using assms(1) unfolding services_up_def by (metis list.set_intros(1))
  then obtain s' where s': "SetUpInstance svc s1 v = (s', Inr hs)" by (metis prod.collapse)
  then have "mset hs = mset (Handlers (lc_Prefix c) (h c))" using assms(2) v(1) unfolding front_end_def by blast
  then show thesis by (rule that [of hs s']) (simp add: s1 v(1) s')
qed

lemma special_routes:
  "''/'' \<notin> (\<lambda>e. canonical_prefix p @ ct_path e) ` X" "[] \<notin> (\<lambda>e. canonical_prefix p @ ct_path e) ` X"
  by (auto simp: ct_path_def append_eq_Cons_conv Cons_eq_append_conv)

lemma start_logs_routes:
  assumes "front_end svc h" "services_up svc cs" "dom mux = insert ''/'' (log_routes started)" "start_logs svc i cs mux s = (s', res)"
  shows "if distinct (map (canonical_prefix \<circ> lc_Prefix) cs) \<and>
        (canonical_prefix \<circ> lc_Prefix) ` set cs \<inter> (canonical_prefix \<circ> lc_Prefix) ` set started = {}
    then \<exists>mux'. res = Inr mux' \<and> dom mux' = insert ''/'' (log_routes (started @ cs))
    else \<exists>p. res = Inl (Panic p)"
  using assms(2-4)
proof (induction cs arbitrary: mux s i started)
  case Nil
  then show ?case by auto
next
  case (Cons c cs)
  let ?p = "canonical_prefix \<circ> lc_Prefix"
  obtain t hs where hs: "mset hs = mset (Handlers (lc_Prefix c) (h c))"
    "start_logs svc i (c # cs) mux s = (case register mux hs of Inl p \<Rightarrow> (t, Inl p) | Inr mux \<Rightarrow> start_logs svc (i + 1) cs mux t)"
    by (rule start_logs_step [OF Cons.prems(1) assms(1)])
  note routes = mset_routes [OF hs(1)]
  have free: "(\<exists>m. register mux hs = Inr m) \<longleftrightarrow> ?p c \<notin> ?p ` set started"
    unfolding register_ok_iff routes(2) Cons.prems(2) Int_insert_right
    using special_routes [of "lc_Prefix c"] routes_disjoint_iff [of "lc_Prefix c" started] routes(1) by (simp add: comp_def)
  have up: "services_up svc cs" using Cons.prems(1) by (simp add: services_up_def)
  show ?case
  proof (cases "register mux hs")
    case (Inl e)
    then obtain p where "e = Panic p" using register_Inl by blast
    then have "res = Inl (Panic p)" using Inl Cons.prems(3) unfolding hs(2) by simp
    moreover have "?p c \<in> ?p ` set started" using Inl free by simp
    ultimately show ?thesis by auto
  next
    case (Inr m)
    have new: "?p c \<notin> ?p ` set started" using free Inr by blast
    have "dom m = insert ''/'' (log_routes (started @ [c]))"
      using register_dom [OF Inr] routes(2) Cons.prems(2) by (auto simp: log_routes_def)
    moreover have "start_logs svc (i + 1) cs m t = (s', res)" using Inr Cons.prems(3) unfolding hs(2) by simp
    ultimately have
      "if distinct (map ?p cs) \<and> ?p ` set cs \<inter> ?p ` set (started @ [c]) = {}
       then \<exists>mux'. res = Inr mux' \<and> dom mux' = insert ''/'' (log_routes ((started @ [c]) @ cs)) else \<exists>p. res = Inl (Panic p)"
      by (rule Cons.IH [OF up])
    moreover have "distinct (map ?p cs) \<and> ?p ` set cs \<inter> ?p ` set (started @ [c]) = {} \<longleftrightarrow>
        distinct (map ?p (c # cs)) \<and> ?p ` set (c # cs) \<inter> ?p ` set started = {}"
      using new by auto
    ultimately show ?thesis unfolding append_assoc append.simps by (simp only: if_True)
  qed
qed

text \<open>
  C36. With services that do their part, start-up gets through exactly when no two logs have the same prefix up to slashes
  at its ends; otherwise the process panics. The validation of the configuration compares ids only.
\<close>

theorem start_up_needs_distinct_prefixes:
  assumes "front_end svc h" "services_up svc cs" "start_logs svc 0 cs [''/'' \<mapsto> root] s = (s', res)"
  shows "if distinct (map (canonical_prefix \<circ> lc_Prefix) cs)
    then \<exists>mux'. res = Inr mux' \<and> dom mux' = insert ''/'' (log_routes cs)
    else \<exists>p. res = Inl (Panic p)"
proof -
  have "dom [''/'' \<mapsto> root] = insert ''/'' (log_routes [])" by (simp add: log_routes_def)
  from start_logs_routes [OF assms(1,2) this assms(3)] show ?thesis by (simp cong: if_cong)
qed


lemma start_logs_routes_of:
  assumes "front_end svc h" "start_logs svc i cs mux s = (s', Inr mux')"
  shows "mux \<subseteq>\<^sub>m mux' \<and> (\<forall>c \<in> set cs. \<forall>e \<in> set ct_endpoints. mux' (canonical_prefix (lc_Prefix c) @ ct_path e) = Some (h c e)) \<and>
    dom mux' = dom mux \<union> log_routes cs"
  using assms(2)
proof (induction cs arbitrary: i mux s)
  case Nil
  then show ?case by (simp add: log_routes_def)
next
  case (Cons c cs)
  then obtain s1 v s2 hs m where st: "ValidateLogConfig svc c = Inr v" "SetUpInstance svc s1 v = (s2, Inr hs)"
      "register mux hs = Inr m" "start_logs svc (i + 1) cs m s2 = (s', Inr mux')"
    by (auto split: prod.splits sum.splits)
  have hs: "mset hs = mset (Handlers (lc_Prefix c) (h c))" using assms(1) st(1,2) unfolding front_end_def by blast
  then have "set hs = set (Handlers (lc_Prefix c) (h c))" by (metis set_mset_mset)
  then have m: "mux \<subseteq>\<^sub>m m" "\<forall>e \<in> set ct_endpoints. m (canonical_prefix (lc_Prefix c) @ ct_path e) = Some (h c e)"
    using register_keeps [OF st(3)] by (auto simp: Handlers_def)
  note IH = Cons.IH [OF st(4)]
  then have "m \<subseteq>\<^sub>m mux'" by blast
  then have "mux \<subseteq>\<^sub>m mux'" "\<forall>e \<in> set ct_endpoints. mux' (canonical_prefix (lc_Prefix c) @ ct_path e) = Some (h c e)"
    using map_le_trans [OF m(1)] m(2) by (simp_all add: map_le_Some)
  moreover have "dom mux' = dom mux \<union> log_routes (c # cs)"
    using IH register_dom [OF st(3)] mset_routes(2) [OF hs] by (simp add: log_routes_Cons Un_assoc)
  ultimately show ?case using IH by simp
qed

section \<open>Answers\<close>

text \<open>The wrapper passes the response with its header on to the inner handler.\<close>

definition with_cache_header :: "ResponseWriter \<Rightarrow> http_request \<Rightarrow> ResponseWriter" where
  "with_cache_header rw r = snd (ServeHTTP (\<lambda>rw _. rw) (\<lambda>_. 0) rw r)"

lemma ServeHTTP_inner: "snd (ServeHTTP inner n rw r) = inner (with_cache_header rw r) r"
  by (simp add: ServeHTTP_def with_cache_header_def Let_def)

lemma log_route_end: "e \<in> set ct_endpoints \<Longrightarrow> last (p @ ct_path e) \<noteq> CHR ''/''"
  by (auto simp: ct_path_def ct_endpoints_def)

lemma clean_path_rooted: "cleanPath p = p \<Longrightarrow> p \<noteq> [] \<and> hd p = CHR ''/''"
proof -
  have "path_Clean q \<noteq> [] \<and> hd (path_Clean q) = CHR ''/''" for q
    by (auto simp: path_Clean_def Let_def neq_Nil_conv)
  then have "cleanPath p \<noteq> [] \<and> hd (cleanPath p) = CHR ''/''" by (auto simp: cleanPath_def Let_def hd_append)
  then show "cleanPath p = p \<Longrightarrow> p \<noteq> [] \<and> hd p = CHR ''/''" by metis
qed

text \<open>
  C31. What the running server answers, however the multiplexer iterates over its routes: a request whose path is not
  clean is redirected to the clean one, a request for an endpoint of a log gets to the handler of that log and
  endpoint, the front page is the greeting, and every other path is answered with 404; in every case the wrapper's
  caching header is already set.
\<close>

theorem server_answers:
  assumes "front_end svc h" "start_logs svc 0 cs [''/'' \<mapsto> root_handler] s = (s', Inr mux')"
    and "distinct (map fst es)" "map_of es = mux'" "rq_Method r \<noteq> ''CONNECT''" "rq_Path r \<noteq> ''*''"
  shows "snd (ServeHTTP (mux_ServeHTTP es) n rw r) =
    (let rw = with_cache_header rw r; path = rq_Path r in
     if cleanPath path \<noteq> path then rw\<lparr>rw_Status := 301, rw_Header := (rw_Header rw)(''Location'' \<mapsto> cleanPath path)\<rparr>
     else if path \<in> log_routes cs then the (mux' path) rw r
     else root_handler rw r) \<and>
    (\<forall>c \<in> set cs. \<forall>e \<in> set ct_endpoints. mux' (canonical_prefix (lc_Prefix c) @ ct_path e) = Some (h c e))"
proof
  note routes = start_logs_routes_of [OF assms(1,2)]
  then show "\<forall>c \<in> set cs. \<forall>e \<in> set ct_endpoints. mux' (canonical_prefix (lc_Prefix c) @ ct_path e) = Some (h c e)" by blast
  have dom: "dom mux' = insert ''/'' (log_routes cs)" using routes by simp
  have root: "map_of es ''/'' = Some root_handler" using routes assms(4) by (simp add: map_le_def)
  have ends: "last k \<noteq> CHR ''/''" if "k \<in> log_routes cs" for k
    using that log_route_end by (auto simp: log_routes_def)
  have flat: "\<forall>k. map_of es k \<noteq> None \<and> k \<noteq> ''/'' \<longrightarrow> last k \<noteq> CHR ''/''"
    using ends dom assms(4) by blast
  have noredirect: "\<not> shouldRedirect es path" for path
    using flat by (auto simp: shouldRedirect_def)
  have "mux_ServeHTTP es rw r =
     (let path = rq_Path r in
     if cleanPath path \<noteq> path then rw\<lparr>rw_Status := 301, rw_Header := (rw_Header rw)(''Location'' \<mapsto> cleanPath path)\<rparr>
     else if path \<in> log_routes cs then the (mux' path) rw r
     else root_handler rw r)" for rw
  proof (cases "cleanPath (rq_Path r) = rq_Path r")
    case True
    then have "mux_match es (rq_Path r) = Some (case mux' (rq_Path r) of Some h \<Rightarrow> h | None \<Rightarrow> root_handler)"
      using mux_match_flat [OF assms(3) root flat] clean_path_rooted [OF True] assms(4) by (auto split: option.splits)
    moreover have "(case mux' (rq_Path r) of Some h \<Rightarrow> h | None \<Rightarrow> root_handler) =
        (if rq_Path r \<in> log_routes cs then the (mux' (rq_Path r)) else root_handler)"
    proof (cases "rq_Path r \<in> log_routes cs")
      case True
      then have "mux' (rq_Path r) \<noteq> None" using dom by (metis domIff insertI2)
      then show ?thesis using True by auto
    next
      case False
      then have "rq_Path r = ''/'' \<or> mux' (rq_Path r) = None" using dom by (metis domIff insertE)
      then show ?thesis using False root assms(4) by auto
    qed
    ultimately show ?thesis
      using True assms(5,6) noredirect by (simp add: mux_ServeHTTP_def mux_Handler_def mux_find_def Let_def)
  next
    case False
    then show ?thesis using assms(5,6) noredirect by (simp add: mux_ServeHTTP_def mux_Handler_def Let_def)
  qed
  then show "snd (ServeHTTP (mux_ServeHTTP es) n rw r) =
    (let rw = with_cache_header rw r; path = rq_Path r in
     if cleanPath path \<noteq> path then rw\<lparr>rw_Status := 301, rw_Header := (rw_Header rw)(''Location'' \<mapsto> cleanPath path)\<rparr>
     else if path \<in> log_routes cs then the (mux' path) rw r
     else root_handler rw r)"
    by (simp add: ServeHTTP_inner Let_def)
qed


text \<open>
  The caching header is set before the answer is known, so an error is announced as cacheable too: a path of no
  log that ends like the endpoint of the signed tree head is answered with 404 and may be kept for an hour.
\<close>

lemma missing_heads_are_cached:
  assumes "rq_Method r = ''GET''" "rq_Path r \<noteq> ''/''" "HasSuffix (rq_Path r) ''/ct/v1/get-sth''"
  shows "rw_Status (root_handler (with_cache_header rw r) r) = 404 \<and>
    rw_Header (root_handler (with_cache_header rw r) r) ''Cache-Control'' = Some ''public, max-age=3600''"
  using assms by (simp add: root_handler_def with_cache_header_def ServeHTTP_def)

section \<open>The debugging server\<close>

text \<open>
  The default registry, seen by the names of its metrics: a metric without constant labels is refused when its
  name is taken.
\<close>

definition MustRegister :: "string set \<Rightarrow> string \<Rightarrow> string set result" where
  "MustRegister reg name = (if name \<in> reg then Inl (Panic (''already registered: '' @ name)) else Inr (insert name reg))"

fun register_all :: "string set \<Rightarrow> string list \<Rightarrow> string set result" where
  "register_all reg [] = Inr reg"
| "register_all reg (n # ns) = (case MustRegister reg n of Inl p \<Rightarrow> Inl p | Inr reg \<Rightarrow> register_all reg ns)"

text \<open>The metrics of \<open>metrics.go\<close> and of the quota manager, in the order of their registration.\<close>

definition metric_names :: "string list" where
  "metric_names = [''build_info'', ''reqs_by_colo'', ''tree_size'', ''unsequenced_leaves'']"

definition metrics_root :: handler where
  "metrics_root rw req =
    (if rq_Path req = ''/''
     then rw\<lparr>rw_Body := rw_Body rw @ ''Hello, I'' @ [CHR 0x27] @ ''m a certificate transparency log'' @ [CHR 0x27] @
            ''s metrics and debugging server! Who are you?'' @ [CHR 0x0A]\<rparr>
     else rw\<lparr>rw_Status := 404, rw_Body := rw_Body rw @ ''404 not found'' @ [CHR 0x0A]\<rparr>)"

definition metrics_version :: "string \<Rightarrow> string \<Rightarrow> handler" where
  "metrics_version version goVersion rw req =
    rw\<lparr>rw_Body := rw_Body rw @ ''Version: '' @ version @ '', GoVersion: '' @ goVersion\<rparr>"

text \<open>The handlers of the metrics and profiling libraries.\<close>

record debug_handlers =
  promHandler :: handler
  pprofIndex :: handler
  pprofCmdline :: handler
  pprofProfile :: handler
  pprofSymbol :: handler
  pprofTrace :: handler

definition metrics_routes :: "debug_handlers \<Rightarrow> string \<Rightarrow> string \<Rightarrow> (string \<times> handler) list" where
  "metrics_routes lib version goVersion =
    [(''/'', metrics_root), (''/metrics'', promHandler lib), (''/debug/pprof/'', pprofIndex lib),
     (''/debug/pprof/cmdline'', pprofCmdline lib), (''/debug/pprof/profile'', pprofProfile lib),
     (''/debug/pprof/symbol'', pprofSymbol lib), (''/debug/pprof/trace'', pprofTrace lib),
     (''/debug/version'', metrics_version version goVersion)]"

record metrics_server =
  ms_buildInfo :: "string \<times> string \<rightharpoonup> int"
  ms_registry :: "string set"
  ms_mux :: "string \<rightharpoonup> handler"

definition metrics_setup :: "debug_handlers \<Rightarrow> string \<Rightarrow> string \<Rightarrow> string set \<Rightarrow> metrics_server result" where
  "metrics_setup lib version goVersion reg =
    (let buildInfo = [(version, goVersion) \<mapsto> 1] in
     case register_all reg metric_names of Inl p \<Rightarrow> Inl p | Inr reg \<Rightarrow>
     (case register Map.empty (metrics_routes lib version goVersion) of Inl p \<Rightarrow> Inl p | Inr mux \<Rightarrow>
      Inr \<lparr>ms_buildInfo = buildInfo, ms_registry = reg, ms_mux = mux\<rparr>))"

lemma metrics_routes_distinct: "distinct (map fst (metrics_routes lib v g))"
  by (simp add: metrics_routes_def)

lemma register_map_of:
  "distinct (map fst hs) \<Longrightarrow> [] \<notin> fst ` set hs \<Longrightarrow> register Map.empty hs = Inr (map_of hs)"
proof -
  assume hs: "distinct (map fst hs)" "[] \<notin> fst ` set hs"
  then obtain m where m: "register Map.empty hs = Inr m" using register_ok_iff [of Map.empty hs] by auto
  have "m k = map_of hs k" for k
  proof (cases "map_of hs k")
    case None
    then show ?thesis using register_dom [OF m] by (metis Un_empty_left domIff dom_empty map_of_eq_None_iff)
  next
    case (Some v)
    then show ?thesis using register_keeps [OF m] map_of_SomeD [OF Some] by auto
  qed
  then show ?thesis using m by (simp add: fun_eq_iff ext)
qed

text \<open>The debugging server starts unless one of its metrics is registered already.\<close>

lemma metrics_setup_iff:
  "(\<exists>ms. metrics_setup lib v g reg = Inr ms \<and> ms_mux ms = map_of (metrics_routes lib v g) \<and> ms_registry ms = reg \<union> set metric_names) \<longleftrightarrow>
    reg \<inter> set metric_names = {}"
proof -
  have "[] \<notin> fst ` set (metrics_routes lib v g)" by (simp add: metrics_routes_def)
  then have "register Map.empty (metrics_routes lib v g) = Inr (map_of (metrics_routes lib v g))"
    using register_map_of metrics_routes_distinct by blast
  then show ?thesis
    by (auto simp: metrics_setup_def metric_names_def MustRegister_def)
qed

text \<open>Which page a path gets: an exact route, the profiling index for anything below it, the root otherwise.\<close>

lemma metrics_page:
  assumes "path \<noteq> []" "hd path = CHR ''/''"
  shows "mux_match (metrics_routes lib v g) path =
    (case map_of (metrics_routes lib v g) path of
       Some h \<Rightarrow> Some h
     | None \<Rightarrow> Some (if prefix ''/debug/pprof/'' path then pprofIndex lib else metrics_root))"
proof (cases "map_of (metrics_routes lib v g) path")
  case None
  let ?es = "metrics_routes lib v g"
  let ?k = "if prefix ''/debug/pprof/'' path then ''/debug/pprof/'' else ''/''"
  have slash: "k = ''/'' \<or> k = ''/debug/pprof/''" if "map_of ?es k \<noteq> None" "last k = CHR ''/''" for k
    using that by (auto simp: metrics_routes_def split: if_splits)
  have "prefix ''/'' path" using assms by (cases path) simp_all
  then have "pathMatch ?k path" by (simp add: pathMatch_iff)
  moreover have "map_of ?es ?k = Some (if prefix ''/debug/pprof/'' path then pprofIndex lib else metrics_root)"
    by (simp add: metrics_routes_def)
  moreover have "length k \<le> length ?k" if "map_of ?es k \<noteq> None" "pathMatch k path" for k
    using that slash [OF that(1)] None by (auto simp: pathMatch_iff split: if_splits)
  ultimately have "is_longest (\<lambda>k. map_of ?es k \<noteq> None \<and> pathMatch k path) ?k" by (simp add: is_longest_def)
  then have "mux_match ?es path = Some (if prefix ''/debug/pprof/'' path then pprofIndex lib else metrics_root)"
    using mux_match_iff [OF metrics_routes_distinct assms(1)] \<open>map_of ?es ?k = _\<close> by blast
  then show ?thesis using None by simp
qed (simp add: mux_match_def)


text \<open>
  What the debugging server answers to a clean path, however the multiplexer iterates over its routes: one of the eight
  registered pages, the profiling index for any other path below it, a redirect for the index without its
  slash, and 404 for the rest.
\<close>

theorem metrics_server_answers:
  assumes "metrics_setup lib version goVersion reg = Inr ms" "distinct (map fst es)" "map_of es = ms_mux ms"
    and "rq_Method r \<noteq> ''CONNECT''" "cleanPath (rq_Path r) = rq_Path r"
  shows "mux_ServeHTTP es rw r =
    (if rq_Path r = ''/debug/pprof''
     then rw\<lparr>rw_Status := 301, rw_Header := (rw_Header rw)(''Location'' \<mapsto> ''/debug/pprof/'')\<rparr>
     else case map_of (metrics_routes lib version goVersion) (rq_Path r) of
         Some h \<Rightarrow> h rw r
       | None \<Rightarrow> if prefix ''/debug/pprof/'' (rq_Path r) then pprofIndex lib rw r else metrics_root rw r)"
proof -
  let ?rs = "metrics_routes lib version goVersion"
  have "[] \<notin> fst ` set ?rs" by (simp add: metrics_routes_def)
  then have "register Map.empty ?rs = Inr (map_of ?rs)" using register_map_of metrics_routes_distinct by blast
  then have mux: "map_of es = map_of ?rs"
    using assms(1,3) by (auto simp: metrics_setup_def split: sum.splits)
  note path = clean_path_rooted [OF assms(5)]
  have red: "shouldRedirect es (rq_Path r) \<longleftrightarrow> rq_Path r = ''/debug/pprof''"
    using path unfolding shouldRedirect_def mux by (auto simp: metrics_routes_def split: if_splits)
  have star: "rq_Path r \<noteq> ''*''" using path by auto
  have "mux_match es (rq_Path r) = mux_match ?rs (rq_Path r)"
    using mux_match_order [OF assms(2) metrics_routes_distinct mux] path by simp
  then show ?thesis
    using metrics_page [of "rq_Path r"] path red star assms(4,5)
    by (auto simp: mux_ServeHTTP_def mux_Handler_def mux_find_def split: option.splits)
qed

section \<open>Concrete requests\<close>

definition route_services :: "(int list, LogConfig, handler) log_services" where
  "route_services =
    \<lparr>getLatestRoot = \<lambda>s i. (s, if i \<in> set s then Inr () else Inl ErrTreeNeedsInit), initLog = \<lambda>s i. (i # s, Inr ()),
     ValidateLogConfig = \<lambda>c. Inr c, SetUpInstance = \<lambda>s v. (s, Inr (Handlers (lc_Prefix v) (\<lambda>e rw r. rw\<lparr>rw_Body := e\<rparr>)))\<rparr>"

lemma route_services_front_end: "front_end route_services (\<lambda>c e rw r. rw\<lparr>rw_Body := e\<rparr>)"
  by (simp add: front_end_def route_services_def)

lemma route_services_up: "services_up route_services cs"
  by (simp add: services_up_def route_services_def)

text \<open>Two logs with the prefixes \<open>a\<close> and \<open>/a/\<close> have the same routes.\<close>

theorem start_up_needs_distinct_prefixes_witness:
  "\<exists>p. snd (start_logs route_services 0 [(sample_log 3)\<lparr>lc_Prefix := ''a''\<rparr>, (sample_log 4)\<lparr>lc_Prefix := ''/a/''\<rparr>]
     [''/'' \<mapsto> root_handler] []) = Inl (Panic p)"
proof -
  let ?cs = "[(sample_log 3)\<lparr>lc_Prefix := ''a''\<rparr>, (sample_log 4)\<lparr>lc_Prefix := ''/a/''\<rparr>]"
  have "\<not> distinct (map (canonical_prefix \<circ> lc_Prefix) ?cs)" by (simp add: canonical_prefix_def)
  then show ?thesis
    using start_up_needs_distinct_prefixes [OF route_services_front_end route_services_up prod.collapse [symmetric], of ?cs root_handler "[]"]
    by simp
qed

definition sample_get :: "string \<Rightarrow> http_request" where
  "sample_get path = \<lparr>rq_Method = ''GET'', rq_Path = path, rq_CfRay = []\<rparr>"

definition blank_response :: ResponseWriter where
  "blank_response = \<lparr>rw_Header = Map.empty, rw_Status = 200, rw_Body = []\<rparr>"

lemma one_log_routes:
  assumes "front_end svc h" "start_logs svc 0 [c] [''/'' \<mapsto> root_handler] s = (s', Inr mux')"
  shows "distinct (map fst ((''/'', root_handler) # Handlers (lc_Prefix c) (h c))) \<and>
    map_of ((''/'', root_handler) # Handlers (lc_Prefix c) (h c)) = mux'"
proof
  let ?es = "(''/'', root_handler) # Handlers (lc_Prefix c) (h c)"
  show "distinct (map fst ?es)"
    using Handlers_distinct special_routes(1) Handlers_paths by (metis distinct.simps(2) fst_conv list.set_map list.simps(9))
  note routes = start_logs_routes_of [OF assms]
  show "map_of ?es = mux'"
  proof
    fix k
    show "map_of ?es k = mux' k"
    proof (cases "map_of ?es k")
      case None
      then have "k \<notin> dom mux'" using routes unfolding map_of_eq_None_iff by (simp add: Handlers_paths log_routes_def)
      then show ?thesis using None by (simp add: domIff)
    next
      case (Some v)
      then have "(k, v) \<in> set ?es" by (rule map_of_SomeD)
      then show ?thesis using routes Some by (auto simp: Handlers_def map_le_def)
    qed
  qed
qed

theorem server_answers_witness:
  "\<exists>s' mux' es. start_logs route_services 0 [(sample_log 3)\<lparr>lc_Prefix := ''a''\<rparr>] [''/'' \<mapsto> root_handler] [] = (s', Inr mux') \<and>
     map_of es = mux' \<and>
     rw_Status (snd (ServeHTTP (mux_ServeHTTP es) (\<lambda>_. 0) blank_response (sample_get ''/x''))) = 404"
proof -
  let ?c = "(sample_log 3)\<lparr>lc_Prefix := ''a''\<rparr>"
  let ?h = "\<lambda>c e rw (r :: http_request). rw\<lparr>rw_Body := e\<rparr> :: ResponseWriter"
  let ?es = "(''/'', root_handler) # Handlers ''a'' (?h ?c)"
  obtain s' res where run: "start_logs route_services 0 [?c] [''/'' \<mapsto> root_handler] [] = (s', res)" by (rule prod.exhaust)
  moreover have "dom [''/'' \<mapsto> root_handler] = insert ''/'' (log_routes [])" by (simp add: log_routes_def)
  ultimately obtain mux' where ok: "res = Inr mux'"
    using start_logs_routes [OF route_services_front_end route_services_up _ run, of "[]"] by auto
  note es = one_log_routes [OF route_services_front_end run [unfolded ok]]
  have clean: "cleanPath ''/x'' = ''/x''" by (simp add: cleanPath_def path_Clean_def clean_step_def)
  have "rq_Path (sample_get ''/x'') \<notin> log_routes [?c]"
    by (auto simp: log_routes_def sample_get_def ct_path_def canonical_prefix_def)
  then have "snd (ServeHTTP (mux_ServeHTTP ?es) (\<lambda>_. 0) blank_response (sample_get ''/x'')) =
      root_handler (with_cache_header blank_response (sample_get ''/x'')) (sample_get ''/x'')"
    using server_answers [OF route_services_front_end run [unfolded ok], of ?es "sample_get ''/x''" "\<lambda>_. 0" blank_response] es clean
    by (simp add: sample_get_def Let_def)
  then have "rw_Status (snd (ServeHTTP (mux_ServeHTTP ?es) (\<lambda>_. 0) blank_response (sample_get ''/x''))) = 404"
    by (simp add: root_handler_def sample_get_def)
  then show ?thesis using run ok es by auto
qed


theorem metrics_server_answers_witness:
  "\<exists>ms. metrics_setup (debug_handlers.make root_handler root_handler root_handler root_handler root_handler root_handler) ''1'' ''go'' {} = Inr ms \<and>
     rw_Body (mux_ServeHTTP (metrics_routes
       (debug_handlers.make root_handler root_handler root_handler root_handler root_handler root_handler) ''1'' ''go'')
       blank_response (sample_get ''/debug/version'')) = ''Version: 1, GoVersion: go''"
proof -
  let ?lib = "debug_handlers.make root_handler root_handler root_handler root_handler root_handler root_handler"
  obtain ms where ms: "metrics_setup ?lib ''1'' ''go'' {} = Inr ms" "ms_mux ms = map_of (metrics_routes ?lib ''1'' ''go'')"
    using metrics_setup_iff [of ?lib "''1''" "''go''" "{}"] by auto
  have clean: "cleanPath ''/debug/version'' = ''/debug/version''" by (simp add: cleanPath_def path_Clean_def clean_step_def)
  have "mux_ServeHTTP (metrics_routes ?lib ''1'' ''go'') blank_response (sample_get ''/debug/version'') =
      metrics_version ''1'' ''go'' blank_response (sample_get ''/debug/version'')"
    using metrics_server_answers [OF ms(1) metrics_routes_distinct ms(2) [symmetric], of "sample_get ''/debug/version''" blank_response] clean
    by (simp add: sample_get_def metrics_routes_def)
  then show ?thesis using ms(1) by (simp add: metrics_version_def blank_response_def)
qed

end
