(* ===== verification/ServerMain.thy ===== *)
theory ServerMain
  imports ServeMux Remote
begin

text \<open>
  The program \<open>cmd/server/main.go\<close> as a whole: the start-up from the configuration file to the two listeners with
  every exit, and the running process, its goroutines, signals and the shutdown, as a step relation. Opening the
  databases, listening and Trillian's servers are arguments.
\<close>

section \<open>Start-up\<close>

record ('s, 'v) main_libs =
  ml_config :: config_libs
  openFile :: "string \<Rightarrow> error option"                \<comment> \<open>\<open>leveldb.OpenFile\<close>\<close>
  newB2 :: "string \<Rightarrow> string \<Rightarrow> error option"         \<comment> \<open>\<open>backblaze.NewB2\<close>: account and key\<close>
  logServer :: "Config \<Rightarrow> Remote \<Rightarrow> QuotaManager \<Rightarrow> ('s, 'v, handler) log_services"
  listenErr :: "string \<Rightarrow> error option"               \<comment> \<open>\<open>net.Listen\<close>\<close>

definition NewLocal :: "('s, 'v) main_libs \<Rightarrow> string \<Rightarrow> unit result" where
  "NewLocal lib path = (case openFile lib path of Some e \<Rightarrow> Inl e | None \<Rightarrow> Inr ())"

definition NewRemote :: "('s, 'v) main_libs \<Rightarrow> string \<Rightarrow> string \<Rightarrow> string \<Rightarrow> string \<Rightarrow> Remote result" where
  "NewRemote lib acctId appKey bkt u =
    (case newB2 lib acctId appKey of Some e \<Rightarrow> Inl e | None \<Rightarrow> Inr \<lparr>bucket = bkt, url = u\<rparr>)"

text \<open>What the sequencing loop is configured with; durations are in nanoseconds.\<close>

record LogOperationInfo =
  oi_BatchSize :: int
  oi_RunInterval :: int
  oi_GuardWindow :: int
  oi_PreElectionPause :: int
  oi_MasterCheckInterval :: int
  oi_MasterHoldInterval :: int
  oi_ResignOdds :: int
  oi_NumWorkers :: int

definition sequencer_info :: "Config \<Rightarrow> LogOperationInfo" where
  "sequencer_info cfg =
    \<lparr>oi_BatchSize = BatchSize (Signer cfg), oi_RunInterval = RunInterval (Signer cfg), oi_GuardWindow = GuardWindow (Signer cfg),
     oi_PreElectionPause = 10 * 10 ^ 6, oi_MasterCheckInterval = 10 ^ 9, oi_MasterHoldInterval = 2 ^ 63 - 1,
     oi_ResignOdds = 1, oi_NumWorkers = 1\<rparr>"

record server =
  sv_leafCache :: "LogLeaf cache"
  sv_remote :: Remote
  sv_quota :: QuotaManager
  sv_mux :: "string \<rightharpoonup> handler"
  sv_sequencer :: LogOperationInfo
  sv_maxClients :: int
  sv_tls :: "(string \<times> string) option"

text \<open>
  \<open>main\<close> up to the point where the goroutines start: the state, the addresses the process listens on, and the server
  or the message it exits with.
\<close>

definition main_setup :: "('s, 'v) main_libs \<Rightarrow> string \<Rightarrow> 's \<Rightarrow> 's \<times> string list \<times> server result" where
  "main_setup lib configFile s =
    (case FromFile (ml_config lib) configFile of
       Inl e \<Rightarrow> (s, [], Inl (wrap_err ''failed to read config: %v'' [] e))
     | Inr cfg \<Rightarrow>
    (case NewLocal lib (LevelDBPath cfg) of
       Inl e \<Rightarrow> (s, [], Inl (wrap_err ''failed to open local database: %v'' [] e))
     | Inr _ \<Rightarrow>
    (case NewRemote lib (B2AcctId cfg) (B2AppKey cfg) (B2Bucket cfg) (B2Url cfg) of
       Inl e \<Rightarrow> (s, [], Inl (wrap_err ''failed to open remote database: %v'' [] e))
     | Inr rem \<Rightarrow>
    (case start_logs (logServer lib cfg rem (start_quota cfg)) 0 (LogConfigs cfg) [''/'' \<mapsto> root_handler] s of
       (s, Inl e) \<Rightarrow> (s, [], Inl e)
     | (s, Inr mux) \<Rightarrow>
    (case listenErr lib (ServerAddr cfg) of
       Some e \<Rightarrow> (s, [], Inl e)
     | None \<Rightarrow>
    (case listenErr lib (MetricsAddr cfg) of
       Some e \<Rightarrow> (s, [ServerAddr cfg], Inl e)
     | None \<Rightarrow>
       (s, [ServerAddr cfg, MetricsAddr cfg],
        Inr \<lparr>sv_leafCache = start_leaf_cache cfg, sv_remote = rem, sv_quota = start_quota cfg, sv_mux = mux,
             sv_sequencer = sequencer_info cfg, sv_maxClients = MaxClients cfg,
             sv_tls = (if CertFile cfg = [] then None else Some (CertFile cfg, KeyFile cfg))\<rparr>)))))))"

text \<open>
  C29. The process listens for clients only when the configuration is valid and every configured log has a root and all
  its routes; it listens for the metrics server last; and a start-up that gets through has one sequencing
  worker, so that the transactions of the logs do not overlap.
\<close>

theorem listens_only_when_ready:
  assumes "main_setup lib configFile s = (s', addrs, res)"
    and "\<forall>cfg rem. services_keep (logServer lib cfg rem (start_quota cfg)) ready"
    and "\<forall>cfg rem. front_end (logServer lib cfg rem (start_quota cfg)) h"
  shows "(addrs \<noteq> [] \<longrightarrow> (\<exists>cfg. FromFile (ml_config lib) configFile = Inr cfg \<and> hd addrs = ServerAddr cfg \<and>
      (\<forall>c \<in> set (LogConfigs cfg). ready s' (lc_LogId c)) \<and>
      (\<forall>sv. res = Inr sv \<longrightarrow> addrs = [ServerAddr cfg, MetricsAddr cfg] \<and> oi_NumWorkers (sv_sequencer sv) = 1 \<and>
         sv_quota sv = start_quota cfg \<and> sv_mux sv ''/'' = Some root_handler \<and>
         (\<forall>c \<in> set (LogConfigs cfg). \<forall>e \<in> set ct_endpoints.
            sv_mux sv (canonical_prefix (lc_Prefix c) @ ct_path e) = Some (h c e))))) \<and>
    (addrs = [] \<longrightarrow> (\<exists>e. res = Inl e))"
proof (cases "addrs = []")
  case True
  then show ?thesis using assms(1) by (auto simp: main_setup_def split: sum.splits prod.splits option.splits)
next
  case False
  then obtain cfg rem mux where run: "FromFile (ml_config lib) configFile = Inr cfg"
      "start_logs (logServer lib cfg rem (start_quota cfg)) 0 (LogConfigs cfg) [''/'' \<mapsto> root_handler] s = (s', Inr mux)"
      "hd addrs = ServerAddr cfg"
      "\<forall>sv. res = Inr sv \<longrightarrow> addrs = [ServerAddr cfg, MetricsAddr cfg] \<and> sv_sequencer sv = sequencer_info cfg \<and>
         sv_quota sv = start_quota cfg \<and> sv_mux sv = mux"
    using assms(1) by (auto simp: main_setup_def split: sum.splits prod.splits option.splits)
  have ready: "\<forall>c \<in> set (LogConfigs cfg). ready s' (lc_LogId c)"
    using start_logs_ready [OF assms(2) [rule_format] run(2)] by blast
  have routes: "[''/'' \<mapsto> root_handler] \<subseteq>\<^sub>m mux"
      "\<forall>c \<in> set (LogConfigs cfg). \<forall>e \<in> set ct_endpoints. mux (canonical_prefix (lc_Prefix c) @ ct_path e) = Some (h c e)"
    using start_logs_routes_of [OF assms(3) [rule_format] run(2)] by blast+
  have root: "mux ''/'' = Some root_handler" using routes(1) by (simp add: map_le_def)
  show ?thesis
    using False run(1,3,4) ready routes(2) root by (auto simp: sequencer_info_def intro!: exI [of _ cfg])
qed


section \<open>The running process\<close>

text \<open>
  Four goroutines run: \<open>awaitSignal\<close>, the two servers, and \<open>main\<close> in Trillian's \<open>OperationLoop\<close>, which makes a pass over the
  logs, looks whether the context is done, and waits. \<open>signal.Notify\<close> replaces the default action of the two
  signals; the channel holds one signal and drops what does not fit.
\<close>

datatype loop_phase = InPass | Checking | Waiting | Leaving | Tidying

datatype awaiter = NotStarted | Awaiting | CallingDone | Finished

datatype exit_kind = CleanExit | ServeFailed | KilledBySignal

record process =
  pr_awaiter :: awaiter
  pr_pending :: bool          \<comment> \<open>a signal is in the channel\<close>
  pr_cancelled :: bool        \<comment> \<open>the context of \<open>main\<close> is done\<close>
  pr_phase :: loop_phase
  pr_passes :: nat            \<comment> \<open>complete passes over the logs\<close>
  pr_exit :: "exit_kind option"

definition started_process :: process where
  "started_process = \<lparr>pr_awaiter = NotStarted, pr_pending = False, pr_cancelled = False, pr_phase = InPass, pr_passes = 0, pr_exit = None\<rparr>"

inductive proc_step :: "process \<Rightarrow> process \<Rightarrow> bool" where
  notify: "pr_exit p = None \<Longrightarrow> pr_awaiter p = NotStarted \<Longrightarrow> proc_step p (p\<lparr>pr_awaiter := Awaiting\<rparr>)"
| early_signal: "pr_exit p = None \<Longrightarrow> pr_awaiter p = NotStarted \<Longrightarrow> proc_step p (p\<lparr>pr_exit := Some KilledBySignal\<rparr>)"
| signal: "pr_exit p = None \<Longrightarrow> pr_awaiter p \<noteq> NotStarted \<Longrightarrow> \<not> pr_pending p \<Longrightarrow> proc_step p (p\<lparr>pr_pending := True\<rparr>)"
| receive: "pr_exit p = None \<Longrightarrow> pr_awaiter p = Awaiting \<Longrightarrow> pr_pending p \<Longrightarrow>
    proc_step p (p\<lparr>pr_pending := False, pr_awaiter := CallingDone\<rparr>)"
| cancel: "pr_exit p = None \<Longrightarrow> pr_awaiter p = CallingDone \<Longrightarrow> proc_step p (p\<lparr>pr_cancelled := True, pr_awaiter := Finished\<rparr>)"
| pass: "pr_exit p = None \<Longrightarrow> pr_phase p = InPass \<Longrightarrow> proc_step p (p\<lparr>pr_phase := Checking, pr_passes := Suc (pr_passes p)\<rparr>)"
| quit: "pr_exit p = None \<Longrightarrow> pr_phase p = Checking \<Longrightarrow> pr_cancelled p \<Longrightarrow> proc_step p (p\<lparr>pr_phase := Leaving\<rparr>)"
| wait: "pr_exit p = None \<Longrightarrow> pr_phase p = Checking \<Longrightarrow> \<not> pr_cancelled p \<Longrightarrow> proc_step p (p\<lparr>pr_phase := Waiting\<rparr>)"
| no_wait: "pr_exit p = None \<Longrightarrow> pr_phase p = Checking \<Longrightarrow> \<not> pr_cancelled p \<Longrightarrow> proc_step p (p\<lparr>pr_phase := InPass\<rparr>)"
| timer: "pr_exit p = None \<Longrightarrow> pr_phase p = Waiting \<Longrightarrow> proc_step p (p\<lparr>pr_phase := InPass\<rparr>)"
| wait_ends: "pr_exit p = None \<Longrightarrow> pr_phase p = Waiting \<Longrightarrow> pr_cancelled p \<Longrightarrow> proc_step p (p\<lparr>pr_phase := Leaving\<rparr>)"
| leave: "pr_exit p = None \<Longrightarrow> pr_phase p = Leaving \<Longrightarrow> proc_step p (p\<lparr>pr_phase := Tidying\<rparr>)"
| tidy: "pr_exit p = None \<Longrightarrow> pr_phase p = Tidying \<Longrightarrow> proc_step p (p\<lparr>pr_exit := Some CleanExit\<rparr>)"
| serve_error: "pr_exit p = None \<Longrightarrow> proc_step p (p\<lparr>pr_exit := Some ServeFailed\<rparr>)"

inductive_cases proc_stepE: "proc_step p q"

abbreviation reachable_process :: "process \<Rightarrow> bool" where
  "reachable_process \<equiv> proc_step\<^sup>*\<^sup>* started_process"

text \<open>What holds of the process at any time.\<close>

definition proc_inv :: "process \<Rightarrow> bool" where
  "proc_inv p \<longleftrightarrow>
    (pr_cancelled p \<longleftrightarrow> pr_awaiter p = Finished) \<and>
    (pr_pending p \<longrightarrow> pr_awaiter p \<noteq> NotStarted) \<and>
    (pr_phase p \<in> {Leaving, Tidying} \<longrightarrow> pr_cancelled p \<and> 0 < pr_passes p) \<and>
    (pr_phase p \<in> {Checking, Waiting} \<longrightarrow> 0 < pr_passes p) \<and>
    (pr_exit p = Some CleanExit \<longrightarrow> pr_phase p = Tidying) \<and>
    (pr_exit p = Some KilledBySignal \<longrightarrow> pr_awaiter p = NotStarted)"

lemma proc_inv_step: "proc_step p q \<Longrightarrow> proc_inv p \<Longrightarrow> proc_inv q"
  by (induction rule: proc_step.induct) (auto simp: proc_inv_def)

interpretation proc: step_invariant proc_step proc_inv
  by unfold_locales (rule proc_inv_step)

lemma reachable_inv: "reachable_process p \<Longrightarrow> proc_inv p"
  by (erule proc.inv_steps) (simp add: proc_inv_def started_process_def)

text \<open>
  The steps that are left once the context is cancelled: at most one more pass, leaving the loop, tidying up, and
  one more signal that stays in the channel.
\<close>

fun phase_left :: "loop_phase \<Rightarrow> nat" where
  "phase_left Waiting = 5"
| "phase_left InPass = 4"
| "phase_left Checking = 3"
| "phase_left Leaving = 2"
| "phase_left Tidying = 1"

lemma phase_left_pos [simp]: "0 < phase_left ph"
  by (cases ph) simp_all

definition steps_left :: "process \<Rightarrow> nat" where
  "steps_left p = (if pr_exit p \<noteq> None then 0 else phase_left (pr_phase p) + (if pr_pending p then 0 else 1))"

abbreviation stopping :: "process \<Rightarrow> bool" where
  "stopping p \<equiv> pr_cancelled p \<and> pr_awaiter p = Finished"

lemma stopping_step: "proc_step p q \<Longrightarrow> stopping p \<Longrightarrow> stopping q \<and> steps_left q + 1 \<le> steps_left p"
  by (induction rule: proc_step.induct) (auto simp: steps_left_def Suc_le_eq)

interpretation stop: step_potential proc_step stopping 1 steps_left
  by unfold_locales (blast dest: stopping_step)+

text \<open>The passes made, and the one to come.\<close>

definition passes_left :: "process \<Rightarrow> nat" where
  "passes_left p = pr_passes p + (if pr_phase p \<in> {InPass, Waiting} then 1 else 0)"

lemma pass_step: "proc_step p q \<Longrightarrow> pr_cancelled p \<Longrightarrow> pr_cancelled q \<and> passes_left q \<le> passes_left p"
  by (induction rule: proc_step.induct) (auto simp: passes_left_def)

interpretation passes: step_potential proc_step pr_cancelled 0 passes_left
  by unfold_locales (simp_all add: pass_step)

lemma notified_step: "proc_step p q \<Longrightarrow> pr_awaiter p \<noteq> NotStarted \<Longrightarrow> pr_awaiter q \<noteq> NotStarted"
  by (erule proc_stepE) simp_all

interpretation notified: step_invariant proc_step "\<lambda>p. pr_awaiter p \<noteq> NotStarted"
  by unfold_locales (rule notified_step)

lemma proc_progress: "pr_exit p = None \<Longrightarrow> \<exists>q. proc_step p q"
  using serve_error by blast

lemma steps_left_le: "steps_left p \<le> 6"
  by (cases "pr_phase p") (auto simp: steps_left_def)


text \<open>
  How the process ends. It ends cleanly only after a signal was received and the context cancelled, outside of a
  pass; a signal kills it only before \<open>awaitSignal\<close> has run \<open>signal.Notify\<close>; from then on signals never do, not even a
  second one during the shutdown.
\<close>

theorem process_ends_between_passes:
  assumes "reachable_process p"
  shows "(pr_exit p = Some CleanExit \<longrightarrow> pr_awaiter p = Finished \<and> pr_cancelled p \<and> pr_phase p = Tidying \<and> 0 < pr_passes p) \<and>
    (pr_exit p = Some KilledBySignal \<longrightarrow> pr_awaiter p = NotStarted \<and> pr_phase p \<notin> {Leaving, Tidying}) \<and>
    (pr_awaiter p \<noteq> NotStarted \<longrightarrow> (\<forall>q. proc_step\<^sup>*\<^sup>* p q \<longrightarrow> pr_exit q \<noteq> Some KilledBySignal))"
proof (intro conjI impI allI)
  note inv = reachable_inv [OF assms]
  { assume "pr_exit p = Some CleanExit"
    then show "pr_awaiter p = Finished" "pr_cancelled p" "pr_phase p = Tidying" "0 < pr_passes p"
      using inv by (auto simp: proc_inv_def) }
  { assume "pr_exit p = Some KilledBySignal"
    then show "pr_awaiter p = NotStarted" "pr_phase p \<notin> {Leaving, Tidying}" using inv by (auto simp: proc_inv_def) }
  fix q assume "pr_awaiter p \<noteq> NotStarted" "proc_step\<^sup>*\<^sup>* p q"
  then have "pr_awaiter q \<noteq> NotStarted" "reachable_process q"
    using notified.inv_steps assms by (blast, meson rtranclp_trans)
  then show "pr_exit q \<noteq> Some KilledBySignal" using reachable_inv by (auto simp: proc_inv_def)
qed

section \<open>Concrete runs\<close>

definition sample_main :: "(int list, LogConfig) main_libs" where
  "sample_main =
    \<lparr>ml_config = sample_libs [3], openFile = \<lambda>_. None, newB2 = \<lambda>_ _. None, logServer = \<lambda>_ _ _. route_services, listenErr = \<lambda>_. None\<rparr>"

lemma route_services_keep: "services_keep route_services (\<lambda>s i. i \<in> set s)"
  by (auto simp: services_keep_def route_services_def split: if_splits)

lemma sample_config: "\<exists>cfg. FromFile (sample_libs [3]) f = Inr cfg \<and> length (LogConfigs cfg) = 1"
proof -
  have "fields_valid (sample_file [3])" by (simp add: fields_valid_def sample_file_def)
  moreover have "f_Logs (sample_file [3]) = [sample_meta 3]" "m_LogId (sample_meta 3) = 3" by (simp_all add: sample_file_def sample_meta_def)
  ultimately show ?thesis
    using sample_views [of "[3]" 3] check_file_ok [of "sample_file [3]"] by (auto simp: FromFile_def) (simp add: sample_libs_def)
qed

lemma sample_main_runs: "\<exists>s' addrs sv. main_setup sample_main ''f'' [] = (s', addrs, Inr sv) \<and> addrs \<noteq> []"
proof -
  obtain cfg where cfg: "FromFile (sample_libs [3]) ''f'' = Inr cfg" "length (LogConfigs cfg) = 1" using sample_config by blast
  obtain s' res where run: "start_logs route_services 0 (LogConfigs cfg) [''/'' \<mapsto> root_handler] [] = (s', res)" by (rule prod.exhaust)
  have "dom [''/'' \<mapsto> root_handler] = insert ''/'' (log_routes [])" by (simp add: log_routes_def)
  from start_logs_routes [OF route_services_front_end route_services_up this run] obtain mux where "res = Inr mux"
    using cfg(2) by (auto simp: length_Suc_conv)
  then show ?thesis using cfg run by (simp add: main_setup_def sample_main_def NewLocal_def NewRemote_def)
qed

theorem listens_only_when_ready_witness:
  "\<exists>s' addrs sv cfg. main_setup sample_main ''f'' [] = (s', addrs, Inr sv) \<and> FromFile (sample_libs [3]) ''f'' = Inr cfg \<and>
     addrs = [ServerAddr cfg, MetricsAddr cfg] \<and> (\<forall>c \<in> set (LogConfigs cfg). lc_LogId c \<in> set s')"
proof -
  obtain s' addrs sv where run: "main_setup sample_main ''f'' [] = (s', addrs, Inr sv)" "addrs \<noteq> []" using sample_main_runs by blast
  have keep: "\<forall>cfg rem. services_keep (logServer sample_main cfg rem (start_quota cfg)) (\<lambda>s i. i \<in> set s)"
    by (simp add: sample_main_def route_services_keep)
  have front: "\<forall>cfg rem. front_end (logServer sample_main cfg rem (start_quota cfg)) (\<lambda>c e rw r. rw\<lparr>rw_Body := e\<rparr>)"
    by (simp add: sample_main_def route_services_front_end)
  have libs: "ml_config sample_main = sample_libs [3]" by (simp add: sample_main_def)
  from listens_only_when_ready [OF run(1) keep front] run(2) obtain cfg where
    "FromFile (sample_libs [3]) ''f'' = Inr cfg" "addrs = [ServerAddr cfg, MetricsAddr cfg]" "\<forall>c \<in> set (LogConfigs cfg). lc_LogId c \<in> set s'"
    unfolding libs by auto
  with run(1) show ?thesis by blast
qed

lemma sample_shutdown:
  "(proc_step ^^ 4) started_process \<lparr>pr_awaiter = Finished, pr_pending = False, pr_cancelled = True, pr_phase = InPass, pr_passes = 0, pr_exit = None\<rparr>"
proof -
  let ?p = "\<lambda>a pe c. \<lparr>pr_awaiter = a, pr_pending = pe, pr_cancelled = c, pr_phase = InPass, pr_passes = 0, pr_exit = None\<rparr> :: process"
  have "proc_step (?p NotStarted False False) (?p Awaiting False False)" using notify [of "?p NotStarted False False"] by simp
  moreover have "proc_step (?p Awaiting False False) (?p Awaiting True False)" using signal [of "?p Awaiting False False"] by simp
  moreover have "proc_step (?p Awaiting True False) (?p CallingDone False False)" using receive [of "?p Awaiting True False"] by simp
  moreover have "proc_step (?p CallingDone False False) (?p Finished False True)" using cancel [of "?p CallingDone False False"] by simp
  ultimately show ?thesis
    unfolding started_process_def by (auto simp: eval_nat_numeral intro!: relcomppI)
qed


theorem process_ends_between_passes_witness:
  "\<exists>p. reachable_process p \<and> pr_exit p = None \<and> (\<forall>q. proc_step\<^sup>*\<^sup>* p q \<longrightarrow> pr_exit q \<noteq> Some KilledBySignal)"
proof -
  let ?p = "\<lparr>pr_awaiter = Finished, pr_pending = False, pr_cancelled = True, pr_phase = InPass, pr_passes = 0, pr_exit = None\<rparr> :: process"
  have reach: "reachable_process ?p" using relpowp_imp_rtranclp [OF sample_shutdown] .
  from process_ends_between_passes [OF reach] have "\<forall>q. proc_step\<^sup>*\<^sup>* ?p q \<longrightarrow> pr_exit q \<noteq> Some KilledBySignal" by simp
  then show ?thesis using reach by (intro exI [of _ ?p]) simp
qed

end
