(* ===== verification/CacheJanitor.thy ===== *)
theory CacheJanitor
  imports Cache
begin

text \<open>
  The life of a cache and its janitor (\<open>ct/cache/cache.go\<close>): the goroutine that deletes expired items at every tick of
  its clock, and the finalizer that stops it once the program has dropped the cache. The program's calls, the
  ticks and the garbage collector interleave in any order.
\<close>

section \<open>Steps\<close>

text \<open>
  \<open>Cache\<close> wraps \<open>cache\<close>; the goroutine refers to the inner object only, so that the outer one can be collected. The
  interval of the goroutine is there as long as it runs.
\<close>

record 'v CacheObject =
  co_cache :: "'v cache"
  co_janitor :: "int option"
  co_referenced :: bool      \<comment> \<open>the program still holds the outer object\<close>
  co_finalizer :: bool       \<comment> \<open>\<open>runtime.SetFinalizer\<close>, not run yet\<close>

definition runJanitor :: "'v CacheObject \<Rightarrow> int \<Rightarrow> 'v CacheObject" where
  "runJanitor C ci = C\<lparr>co_janitor := Some ci\<rparr>"

text \<open>The send on the unbuffered channel and the goroutine's receive are one step; the goroutine returns.\<close>

definition stopJanitor :: "'v CacheObject \<Rightarrow> 'v CacheObject" where
  "stopJanitor C = C\<lparr>co_janitor := None\<rparr>"

definition newCacheWithJanitor :: "int \<Rightarrow> int \<Rightarrow> int \<Rightarrow> 'v CacheObject" where
  "newCacheWithJanitor de ci size_max =
    (let C = \<lparr>co_cache = newCache de size_max Map.empty, co_janitor = None, co_referenced = True, co_finalizer = False\<rparr>
     in if ci > 0 then (runJanitor C ci)\<lparr>co_finalizer := True\<rparr> else C)"

inductive Cache_step :: "'v CacheObject \<Rightarrow> 'v CacheObject \<Rightarrow> bool" where
  set_item: "co_referenced C \<Longrightarrow> cache_Set (co_cache C) k x d now rnd = Inr c \<Longrightarrow> Cache_step C (C\<lparr>co_cache := c\<rparr>)"
| tick: "co_janitor C = Some ci \<Longrightarrow> DeleteExpired clock (co_cache C) = Inr c \<Longrightarrow> Cache_step C (C\<lparr>co_cache := c\<rparr>)"
| drop_ref: "co_referenced C \<Longrightarrow> Cache_step C (C\<lparr>co_referenced := False\<rparr>)"
| collect: "\<not> co_referenced C \<Longrightarrow> co_finalizer C \<Longrightarrow> co_janitor C \<noteq> None \<Longrightarrow>
    Cache_step C ((stopJanitor C)\<lparr>co_finalizer := False\<rparr>)"

inductive_cases Cache_stepE: "Cache_step C C'"

section \<open>The invariant\<close>

definition Cache_inv :: "int \<Rightarrow> 'v CacheObject \<Rightarrow> bool" where
  "Cache_inv ci C \<longleftrightarrow> cache_inv (co_cache C) \<and>
    (co_finalizer C \<longleftrightarrow> co_janitor C \<noteq> None) \<and>
    (co_janitor C \<noteq> None \<longrightarrow> co_janitor C = Some ci) \<and>
    (co_referenced C \<longrightarrow> (co_janitor C = Some ci \<longleftrightarrow> 0 < ci))"

lemma Cache_inv_new: "0 \<le> size_max \<Longrightarrow> Cache_inv ci (newCacheWithJanitor de ci size_max)"
  using cache_inv_New [of size_max de ci]
  by (simp add: Cache_inv_def newCacheWithJanitor_def runJanitor_def cache_New_def Let_def)

lemma Cache_inv_step: "Cache_step C C' \<Longrightarrow> Cache_inv ci C \<Longrightarrow> Cache_inv ci C'"
proof (induction rule: Cache_step.induct)
  case (set_item C k x d now rnd c)
  then show ?case using cache_inv_Set by (auto simp: Cache_inv_def)
next
  case (tick C i clock c)
  then have "cache_inv c"
    using DeleteExpired_loop_spec [of "co_cache C" clock 0] by (auto simp: Cache_inv_def DeleteExpired_def)
  then show ?case using tick by (auto simp: Cache_inv_def)
next
  case (drop_ref C)
  then show ?case by (auto simp: Cache_inv_def)
next
  case (collect C)
  then show ?case by (auto simp: Cache_inv_def stopJanitor_def)
qed

interpretation janitor: step_invariant Cache_step "Cache_inv ci" for ci
  by unfold_locales (rule Cache_inv_step)

lemma stopped_step: "Cache_step C C' \<Longrightarrow> co_janitor C = None \<Longrightarrow> co_janitor C' = None"
  by (erule Cache_stepE) simp_all

interpretation stopped: step_invariant Cache_step "\<lambda>C. co_janitor C = None"
  by unfold_locales (rule stopped_step)

text \<open>
  The goroutine lives with its cache: in every run it works as long as the program holds the cache, whatever is
  called in between, and once the cache is dropped it can always be stopped, after which it never runs again.
\<close>

theorem janitor_lives_with_its_cache:
  assumes "0 \<le> size_max" "Cache_step\<^sup>*\<^sup>* (newCacheWithJanitor de ci size_max) C"
  shows "cache_inv (co_cache C) \<and>
    (co_referenced C \<and> 0 < ci \<longrightarrow> co_janitor C = Some ci \<and> (\<exists>c. DeleteExpired clock (co_cache C) = Inr c \<and> Cache_step C (C\<lparr>co_cache := c\<rparr>))) \<and>
    (\<not> co_referenced C \<and> co_janitor C \<noteq> None \<longrightarrow> (\<exists>C'. Cache_step C C' \<and> co_janitor C' = None)) \<and>
    (co_janitor C = None \<longrightarrow> (\<forall>C'. Cache_step\<^sup>*\<^sup>* C C' \<longrightarrow> co_janitor C' = None))"
proof -
  have inv: "Cache_inv ci C" by (rule janitor.inv_steps [OF assms(2) Cache_inv_new [OF assms(1)]])
  then have c: "cache_inv (co_cache C)" by (simp add: Cache_inv_def)
  have works: "\<exists>c. DeleteExpired clock (co_cache C) = Inr c \<and> Cache_step C (C\<lparr>co_cache := c\<rparr>)" if "co_janitor C = Some ci"
    using DeleteExpired_loop_spec [OF c, of clock 0] tick [OF that] unfolding DeleteExpired_def by blast
  have stops: "\<exists>C'. Cache_step C C' \<and> co_janitor C' = None" if "\<not> co_referenced C" "co_janitor C \<noteq> None"
    using collect [OF that(1) _ that(2)] inv that(2) by (auto simp: Cache_inv_def stopJanitor_def)
  show ?thesis using inv c stopped.inv_steps works stops by (auto simp: Cache_inv_def)
qed

theorem janitor_lives_with_its_cache_witness:
  "co_janitor (newCacheWithJanitor 60 10 2 :: nat CacheObject) = Some 10 \<and>
   (\<exists>c. DeleteExpired (\<lambda>_. 0) (co_cache (newCacheWithJanitor 60 10 2 :: nat CacheObject)) = Inr c)"
  using janitor_lives_with_its_cache [of 2 60 10 "newCacheWithJanitor 60 10 2 :: nat CacheObject" "\<lambda>_. 0"]
  by (auto simp: newCacheWithJanitor_def runJanitor_def Let_def)

end
