(* ===== verification/Drand.thy ===== *)
theory Drand
  imports Sha256 GoFmt
begin

text \<open>
  The tester's certificates. Package \<open>drand\<close> (\<open>cmd/admin/ct-log-tester/internal/drand\<close>) is a reader of reproducible
  random bytes: AES in counter mode under the hash of a seed, applied to zeros, and behind a filter that swallows
  one-byte reads. \<open>generateNthCert\<close> feeds it to the key generation and to the signing of the n-th certificate. The
  standard library's elliptic-curve code and its certificate encoder are arguments, given as programs that read from
  the reader; so is the AES block function.
\<close>

section \<open>The reader\<close>

type_synonym block_cipher = "bytes \<Rightarrow> bytes \<Rightarrow> bytes"  \<comment> \<open>key and input block to output block\<close>

record drand_reader =
  dr_key :: bytes
  dr_pos :: nat  \<comment> \<open>bytes of the key stream used so far\<close>

text \<open>Byte \<open>i\<close> of the key stream: the counter starts at a zero initialisation vector and is a 16-byte big-endian number.\<close>

definition keystream :: "block_cipher \<Rightarrow> bytes \<Rightarrow> nat \<Rightarrow> byte" where
  "keystream aes key i = aes key (posenc 256 word_of_int 16 (int (i div 16))) ! (i mod 16)"

definition devZero_Read :: "nat \<Rightarrow> bytes" where
  "devZero_Read n = replicate n 0"

definition StreamReader_Read :: "block_cipher \<Rightarrow> drand_reader \<Rightarrow> nat \<Rightarrow> drand_reader \<times> bytes" where
  "StreamReader_Read aes r n =
    (r\<lparr>dr_pos := dr_pos r + n\<rparr>, map2 (XOR) (devZero_Read n) (map (keystream aes (dr_key r)) [dr_pos r..<dr_pos r + n]))"

text \<open>A read returns the bytes it wrote to the front of the buffer; for a buffer of one byte, none.\<close>

definition undoAGL_Read :: "block_cipher \<Rightarrow> drand_reader \<Rightarrow> nat \<Rightarrow> drand_reader \<times> bytes" where
  "undoAGL_Read aes r n = (if n = 1 then (r, []) else StreamReader_Read aes r n)"

text \<open>\<open>aes.NewCipher\<close> accepts keys of 16, 24 and 32 bytes.\<close>

definition aes_NewCipher :: "bytes \<Rightarrow> unit result" where
  "aes_NewCipher key = (if length key \<in> {16, 24, 32} then Inr () else Inl (External ''crypto/aes: invalid key size''))"

definition NewReader :: "string \<Rightarrow> drand_reader result" where
  "NewReader seed =
    (let sum = Sum256 (map of_char seed)
     in case aes_NewCipher sum of Inl err \<Rightarrow> Inl err | Inr _ \<Rightarrow> Inr \<lparr>dr_key = sum, dr_pos = 0\<rparr>)"

section \<open>Programs that read\<close>

text \<open>
  \<open>io.ReadFull\<close> reads until the buffer is full or an error occurs; the reader reports none, so a read that makes no
  progress is repeated forever. \<open>ReadAtLeast\<close> is its loop, with what has been read.
\<close>

partial_function (option) ReadAtLeast ::
  "(drand_reader \<Rightarrow> nat \<Rightarrow> drand_reader \<times> bytes) \<Rightarrow> nat \<Rightarrow> drand_reader \<Rightarrow> bytes \<Rightarrow> (drand_reader \<times> bytes) option" where
  "ReadAtLeast rd n r got =
    (if length got < n
     then ReadAtLeast rd n (fst (rd r (n - length got))) (got @ snd (rd r (n - length got)))
     else Some (r, got))"

text \<open>
  What a client of a reader does: read a full buffer, or call \<open>randutil.MaybeReadByte\<close>, which on a coin toss reads one
  byte and ignores the outcome.
\<close>

datatype 'a consumer =
    Return 'a
  | ReadFull nat "bytes \<Rightarrow> 'a consumer"
  | MaybeReadByte "'a consumer"

primrec run_consumer ::
  "(drand_reader \<Rightarrow> nat \<Rightarrow> drand_reader \<times> bytes) \<Rightarrow> 'a consumer \<Rightarrow> (nat \<Rightarrow> bool) \<Rightarrow> drand_reader \<Rightarrow>
   (drand_reader \<times> (nat \<Rightarrow> bool) \<times> 'a) option" where
  "run_consumer rd (Return x) = (\<lambda>coins r. Some (r, coins, x))"
| "run_consumer rd (ReadFull n k) = (\<lambda>coins r.
     case ReadAtLeast rd n r [] of None \<Rightarrow> None | Some (r, bs) \<Rightarrow> run_consumer rd (k bs) coins r)"
| "run_consumer rd (MaybeReadByte k) = (\<lambda>coins r.
     run_consumer rd k (\<lambda>i. coins (Suc i)) (if coins 0 then fst (rd r 1) else r))"

section \<open>The n-th certificate\<close>

record cert_template =
  SerialNumber :: nat
  Organization :: "string list"
  NotBefore :: int
  NotAfter :: int
  KeyUsage :: nat
  ExtKeyUsage :: "nat list"
  BasicConstraintsValid :: bool
  DNSNames :: "string list"

record 'key crypto =
  aes_block :: block_cipher
  GenerateKey :: "'key result consumer"  \<comment> \<open>\<open>ecdsa.GenerateKey\<close> on P-256\<close>
  CreateCertificate :: "cert_template \<Rightarrow> 'key \<Rightarrow> bytes result consumer"  \<comment> \<open>signed by the given CA\<close>

text \<open>\<open>rand.Int\<close> for the limit \<open>2 ^ 128\<close>: the first sixteen bytes, which always are below the limit.\<close>

definition rand_Int128 :: "nat consumer" where
  "rand_Int128 = ReadFull 16 (\<lambda>bs. Return (foldl (\<lambda>n b. 256 * n + unat b) 0 bs))"

definition san :: "int \<Rightarrow> string" where
  "san n = ''cert'' @ fmt_v_int n @ ''.com''"

definition cert_seed :: "int \<Rightarrow> string" where
  "cert_seed n = ''cert '' @ fmt_v_int n"

definition nth_template :: "int \<Rightarrow> nat \<Rightarrow> int \<Rightarrow> cert_template" where
  "nth_template notBefore serialNumber n =
    \<lparr>SerialNumber = serialNumber, Organization = [''Acme Co''], NotBefore = notBefore,
     NotAfter = notBefore + 72 * 3600 * 10 ^ 9, KeyUsage = 5, ExtKeyUsage = [1], BasicConstraintsValid = True,
     DNSNames = [san n]\<rparr>"

text \<open>
  The outcome is the chain, an error that ends the process, or \<open>None\<close> for a read that never returns.
  \<open>notBefore\<close> is the time at which the process started.
\<close>

definition generateNthCert :: "'key crypto \<Rightarrow> int \<Rightarrow> (nat \<Rightarrow> bool) \<Rightarrow> int \<Rightarrow> bytes list result option" where
  "generateNthCert cr notBefore coins n =
    (case NewReader (cert_seed n) of
       Inl err \<Rightarrow> Some (Inl (wrap_err ''failed to create random stream: %v'' [] err))
     | Inr r \<Rightarrow>
    (case run_consumer (undoAGL_Read (aes_block cr)) (GenerateKey cr) coins r of
       None \<Rightarrow> None
     | Some (r, coins, Inl err) \<Rightarrow> Some (Inl (wrap_err ''failed to generate private key: %v'' [] err))
     | Some (r, coins, Inr priv) \<Rightarrow>
    (case run_consumer (undoAGL_Read (aes_block cr)) rand_Int128 coins r of
       None \<Rightarrow> None
     | Some (r, coins, serialNumber) \<Rightarrow>
    (case run_consumer (undoAGL_Read (aes_block cr)) (CreateCertificate cr (nth_template notBefore serialNumber n) priv) coins r of
       None \<Rightarrow> None
     | Some (r, coins, Inl err) \<Rightarrow> Some (Inl (wrap_err ''failed to create certificate: %v'' [] err))
     | Some (r, coins, Inr derBytes) \<Rightarrow> Some (Inr [derBytes])))))"

section \<open>Properties\<close>

lemma length_StreamReader_Read: "length (snd (StreamReader_Read aes r n)) = n"
  by (simp add: StreamReader_Read_def devZero_Read_def)

lemma StreamReader_Read_bytes:
  "snd (StreamReader_Read aes r n) = map (keystream aes (dr_key r)) [dr_pos r..<dr_pos r + n]"
  by (rule nth_equalityI) (simp_all add: StreamReader_Read_def devZero_Read_def)

text \<open>The key is a SHA-256 digest, so the reader can always be made.\<close>

lemma NewReader_succeeds: "NewReader seed = Inr \<lparr>dr_key = Sum256 (map of_char seed), dr_pos = 0\<rparr>"
  by (simp add: NewReader_def aes_NewCipher_def)

text \<open>A full read gets the next bytes of the key stream, for every size but one; reading a single byte does not return.\<close>

lemma ReadFull_bytes:
  assumes "n \<noteq> 1"
  shows "ReadAtLeast (undoAGL_Read aes) n r [] =
    Some (r\<lparr>dr_pos := dr_pos r + n\<rparr>, map (keystream aes (dr_key r)) [dr_pos r..<dr_pos r + n])"
proof (cases "n = 0")
  case True
  then show ?thesis by (simp add: ReadAtLeast.simps)
next
  case False
  have rd: "undoAGL_Read aes r n = StreamReader_Read aes r n" using assms by (simp add: undoAGL_Read_def)
  have "ReadAtLeast (undoAGL_Read aes) n r [] =
      ReadAtLeast (undoAGL_Read aes) n (fst (StreamReader_Read aes r n)) (snd (StreamReader_Read aes r n))"
    using False by (subst ReadAtLeast.simps) (simp add: rd)
  also have "\<dots> = Some (StreamReader_Read aes r n)"
    by (subst ReadAtLeast.simps) (simp add: length_StreamReader_Read)
  finally show ?thesis by (metis StreamReader_Read_bytes StreamReader_Read_def prod.collapse fst_conv)
qed

lemma ReadAtLeast_stuck:
  assumes "ReadAtLeast rd n r got = Some res"
  shows "rd = undoAGL_Read aes \<longrightarrow> Suc (length got) \<noteq> n"
  using assms
proof (rule ReadAtLeast.raw_induct [rotated])
  fix loop rd n r got res
  assume IH: "\<And>rd n r got res. loop rd n r got = Some res \<Longrightarrow> rd = undoAGL_Read aes \<longrightarrow> Suc (length got) \<noteq> n"
    and step: "(if length got < n then loop rd n (fst (rd r (n - length got))) (got @ snd (rd r (n - length got))) else Some (r, got)) =
      Some (res :: drand_reader \<times> bytes)"
  show "rd = undoAGL_Read aes \<longrightarrow> Suc (length got) \<noteq> n"
  proof (intro impI notI)
    assume rd: "rd = undoAGL_Read aes" and n: "Suc (length got) = n"
    then have "undoAGL_Read aes r (n - length got) = (r, [])" by (auto simp: undoAGL_Read_def)
    then have "loop rd n r got = Some res" using step n rd by (auto split: if_splits)
    then show False using IH rd n by blast
  qed
qed

lemma ReadFull_one_hangs: "ReadAtLeast (undoAGL_Read aes) 1 r [] = None"
  using ReadAtLeast_stuck [of "undoAGL_Read aes" 1 r "[]" _ aes] by (cases "ReadAtLeast (undoAGL_Read aes) 1 r []") auto

text \<open>
  One-byte reads leave the reader as it is, so what a program computes from the reader does not depend on the
  coins it tosses.
\<close>

lemma run_consumer_coins:
  "map_option (\<lambda>(r, coins, x). (r, x)) (run_consumer (undoAGL_Read aes) c coins r) =
   map_option (\<lambda>(r, coins, x). (r, x)) (run_consumer (undoAGL_Read aes) c coins' r)"
proof (induction c arbitrary: coins coins' r)
  case (Return x)
  then show ?case by simp
next
  case (ReadFull n k)
  then show ?case by (simp split: option.split)
next
  case (MaybeReadByte k)
  have "fst (undoAGL_Read aes r 1) = r" by (simp add: undoAGL_Read_def)
  then show ?case using MaybeReadByte by simp
qed

lemma run_consumer_coins_cases:
  assumes "run_consumer (undoAGL_Read aes) c coins r = res"
  shows "case res of None \<Rightarrow> run_consumer (undoAGL_Read aes) c coins' r = None
    | Some (r', _, x) \<Rightarrow> \<exists>coins''. run_consumer (undoAGL_Read aes) c coins' r = Some (r', coins'', x)"
  using run_consumer_coins [of aes c coins r coins'] assms
  by (cases "run_consumer (undoAGL_Read aes) c coins' r") (auto split: option.splits)

text \<open>
  C28. The n-th certificate is the same every time it is generated, although the standard library reads extra bytes at
  random: a second submission of it is a duplicate.
\<close>

theorem generateNthCert_deterministic: "generateNthCert cr notBefore coins n = generateNthCert cr notBefore coins' n"
proof -
  let ?rd = "undoAGL_Read (aes_block cr)"
  obtain r where r: "NewReader (cert_seed n) = Inr r" by (simp add: NewReader_succeeds)
  show ?thesis
  proof (cases "run_consumer ?rd (GenerateKey cr) coins r")
    case None
    then show ?thesis using run_consumer_coins_cases [OF None, of coins'] by (simp add: generateNthCert_def r)
  next
    case (Some res)
    obtain r1 c1 k where res: "res = (r1, c1, k)" by (metis prod_cases3)
    obtain c1' where key: "run_consumer ?rd (GenerateKey cr) coins r = Some (r1, c1, k)"
        "run_consumer ?rd (GenerateKey cr) coins' r = Some (r1, c1', k)"
      using run_consumer_coins_cases [OF Some, of coins'] Some res by auto
    show ?thesis
    proof (cases k)
      case (Inl e)
      then show ?thesis using key by (simp add: generateNthCert_def r)
    next
      case (Inr priv)
      obtain r2 s where ser: "\<And>coins. run_consumer ?rd rand_Int128 coins r1 = Some (r2, coins, s)"
        by (simp add: rand_Int128_def ReadFull_bytes)
      let ?t = "nth_template notBefore s n"
      show ?thesis
        using run_consumer_coins_cases [OF refl, of "aes_block cr" "CreateCertificate cr ?t priv" c1 r2 c1']
        by (auto simp: generateNthCert_def r key Inr ser split: option.splits prod.splits sum.splits)
    qed
  qed
qed

end
