(* ===== verification/Tester.thy ===== *)
theory Tester
  imports MerkleProofs Drand "HOL-Library.Sublist"
begin

text \<open>
  The log tester (\<open>cmd/admin/ct-log-tester\<close>): a client without input validation, the checks it makes of a log's answers,
  and the script of the test. A check that fails ends the process, so a step is a function on the state of the world
  that gives a value or the error the process exits with. The HTTP exchange, the decoders of the answers, the
  certificate parser, the random number generator and the clock are arguments.
\<close>

section \<open>The interface of a log\<close>

record SignedTreeHead =
  sth_TreeSize :: int
  sth_RootHash :: bytes

record LeafEntry =
  le_LeafInput :: bytes
  le_ExtraData :: bytes

record GetProofByHashResponse =
  pr_LeafIndex :: int
  pr_AuditPath :: "bytes list"

record GetEntryAndProofResponse =
  ep_LeafInput :: bytes
  ep_ExtraData :: bytes
  ep_AuditPath :: "bytes list"

type_synonym params = "(string \<times> string) list"

record 'w log_api =
  GetSTH :: "'w \<Rightarrow> 'w \<times> SignedTreeHead result"
  AddChain :: "'w \<Rightarrow> bytes list \<Rightarrow> 'w \<times> int result"  \<comment> \<open>the timestamp of the promise\<close>
  httpGet :: "'w \<Rightarrow> string \<Rightarrow> params \<Rightarrow> 'w \<times> bytes result"
  decodeConsistency :: "bytes \<Rightarrow> bytes list result"
  decodeEntries :: "bytes \<Rightarrow> LeafEntry list result"
  decodeProof :: "bytes \<Rightarrow> GetProofByHashResponse result"
  decodeEntryAndProof :: "bytes \<Rightarrow> GetEntryAndProofResponse result"
  LogEntryFromLeaf :: "int \<Rightarrow> LeafEntry \<Rightarrow> string list option result"  \<comment> \<open>the SANs, if it is a certificate\<close>
  unmarshalLeafInput :: "bytes \<Rightarrow> (bytes \<times> bytes) result"  \<comment> \<open>the leaf and what is left\<close>
  X509Certificate :: "bytes \<Rightarrow> string list result"  \<comment> \<open>the SANs of the certificate of a leaf\<close>
  Sleep :: "'w \<Rightarrow> 'w"
  Int63 :: "'w \<Rightarrow> 'w \<times> int"

type_synonym ('w, 'a) step = "'w \<Rightarrow> 'w \<times> 'a result"

definition andThen :: "('w, 'a) step \<Rightarrow> ('a \<Rightarrow> ('w, 'b) step) \<Rightarrow> ('w, 'b) step" where
  "andThen m f w = (case m w of (w, Inl e) \<Rightarrow> (w, Inl e) | (w, Inr x) \<Rightarrow> f x w)"

definition finish :: "'a result \<Rightarrow> ('w, 'a) step" where
  "finish r w = (w, r)"

definition orFatal :: "(error \<Rightarrow> error) \<Rightarrow> ('w, 'a) step \<Rightarrow> ('w, 'a) step" where
  "orFatal f m w = (case m w of (w, Inl e) \<Rightarrow> (w, Inl (f e)) | (w, Inr x) \<Rightarrow> (w, Inr x))"

definition GetAndParse :: "'w log_api \<Rightarrow> (bytes \<Rightarrow> 'a result) \<Rightarrow> string \<Rightarrow> params \<Rightarrow> ('w, 'a) step" where
  "GetAndParse api dec path params = andThen (\<lambda>w. httpGet api w path params) (\<lambda>body. finish (dec body))"

text \<open>\<open>rand.Int63n\<close>; draws that the generator rejects are not draws of the model.\<close>

definition Int63n :: "'w log_api \<Rightarrow> int \<Rightarrow> ('w, int) step" where
  "Int63n api n w =
    (if n \<le> 0 then (w, Inl (Panic ''invalid argument to Int63n''))
     else let (w, v) = Int63 api w in (w, Inr (v mod n)))"

section \<open>The client\<close>

fun WaitForSTH_loop :: "'w log_api \<Rightarrow> nat \<Rightarrow> int \<Rightarrow> ('w, SignedTreeHead) step" where
  "WaitForSTH_loop api 0 treeSize w =
    (w, Inl (Errorf ''timed out waiting to read an STH with tree size %v'' [ArgInt treeSize]))"
| "WaitForSTH_loop api (Suc k) treeSize w =
    (case GetSTH api w of
       (w, Inl err) \<Rightarrow> (w, Inl err)
     | (w, Inr sh) \<Rightarrow> if sth_TreeSize sh = treeSize then (w, Inr sh) else WaitForSTH_loop api k treeSize (Sleep api w))"

definition WaitForSTH :: "'w log_api \<Rightarrow> int \<Rightarrow> ('w, SignedTreeHead) step" where
  "WaitForSTH api treeSize = WaitForSTH_loop api 30 treeSize"

definition GetSTHConsistency :: "'w log_api \<Rightarrow> int \<Rightarrow> int \<Rightarrow> ('w, bytes list) step" where
  "GetSTHConsistency api first second =
    GetAndParse api (decodeConsistency api) ''/ct/v1/get-sth-consistency''
      [(''first'', fmt_v_int first), (''second'', fmt_v_int second)]"

definition GetRawEntries :: "'w log_api \<Rightarrow> int \<Rightarrow> int \<Rightarrow> ('w, LeafEntry list) step" where
  "GetRawEntries api start stop =
    GetAndParse api (decodeEntries api) ''/ct/v1/get-entries'' [(''start'', fmt_v_int start), (''end'', fmt_v_int stop)]"

definition GetRawLeaf :: "'w log_api \<Rightarrow> int \<Rightarrow> ('w, bytes) step" where
  "GetRawLeaf api index =
    andThen (GetRawEntries api index index) (\<lambda>entries. finish (
      if length entries \<noteq> 1
      then Inl (Errorf ''wrong number of entries returned; got %v, wanted 1'' [ArgInt (int (length entries))])
      else Inr (le_LeafInput (hd entries))))"

text \<open>\<open>base64.StdEncoding\<close>.\<close>

definition b64_char :: "nat \<Rightarrow> char" where
  "b64_char n = ''ABCDEFGHIJKLMNOPQRSTUVWXYZabcdefghijklmnopqrstuvwxyz0123456789+/'' ! n"

fun EncodeToString :: "bytes \<Rightarrow> string" where
  "EncodeToString [] = []"
| "EncodeToString [a] = (let v = unat a * 16 in [b64_char (v div 64), b64_char (v mod 64), CHR ''='', CHR ''=''])"
| "EncodeToString [a, b] = (let v = (unat a * 256 + unat b) * 4 in
     [b64_char (v div 4096), b64_char (v div 64 mod 64), b64_char (v mod 64), CHR ''=''])"
| "EncodeToString (a # b # c # bs) = (let v = (unat a * 256 + unat b) * 256 + unat c in
     [b64_char (v div 262144), b64_char (v div 4096 mod 64), b64_char (v div 64 mod 64), b64_char (v mod 64)] @ EncodeToString bs)"

definition GetProofByHash :: "'w log_api \<Rightarrow> bytes \<Rightarrow> int \<Rightarrow> ('w, GetProofByHashResponse) step" where
  "GetProofByHash api hash treeSize =
    GetAndParse api (decodeProof api) ''/ct/v1/get-proof-by-hash''
      [(''tree_size'', fmt_v_int treeSize), (''hash'', EncodeToString hash)]"

definition GetEntryAndProof :: "'w log_api \<Rightarrow> int \<Rightarrow> int \<Rightarrow> ('w, GetEntryAndProofResponse) step" where
  "GetEntryAndProof api leafIndex treeSize =
    GetAndParse api (decodeEntryAndProof api) ''/ct/v1/get-entry-and-proof''
      [(''leaf_index'', fmt_v_int leafIndex), (''tree_size'', fmt_v_int treeSize)]"

text \<open>\<open>GetEntries\<close> of the embedded client, which validates its arguments and parses every entry.\<close>

definition GetEntries :: "'w log_api \<Rightarrow> int \<Rightarrow> int \<Rightarrow> ('w, string list option list) step" where
  "GetEntries api start stop =
    (if stop < 0 then finish (Inl (External ''end should be >= 0''))
     else if stop < start then finish (Inl (External ''start should be <= end''))
     else andThen (GetRawEntries api start stop) (\<lambda>entries. finish (
       mapM (\<lambda>(i, entry). LogEntryFromLeaf api (start + int i) entry) (zip [0..<length entries] entries))))"

section \<open>The checks\<close>

text \<open>\<open>simpleCheck\<close>: the printed value and error are compared with a text.\<close>

definition simpleCheck :: "('a \<Rightarrow> string) \<Rightarrow> string \<Rightarrow> (error \<Rightarrow> string) \<Rightarrow> 'a result \<Rightarrow> string \<Rightarrow> unit result" where
  "simpleCheck show_out nil_out show_err r wanted =
    (let got = (case r of Inl err \<Rightarrow> nil_out @ '' '' @ show_err err | Inr out \<Rightarrow> show_out out @ '' <nil>'')
     in if got \<noteq> wanted
        then Inl (Errorf (''output does not match expected'' @ [CHR 0x0A, CHR 0x09] @ ''wanted: %v'' @ [CHR 0x0A, CHR 0x09] @
          ''got:    %v'' @ [CHR 0x0A]) [ArgStr wanted, ArgStr got])
        else Inr ())"

definition consistencyCheck :: "bytes list \<Rightarrow> int \<Rightarrow> int \<Rightarrow> SignedTreeHead \<Rightarrow> SignedTreeHead \<Rightarrow> unit result" where
  "consistencyCheck proof first second sh1 sh2 =
    (case VerifyConsistencyProof first second (sth_RootHash sh1) (sth_RootHash sh2) proof of
       Inl err \<Rightarrow> Inl (wrap_err ''failed to verify consistency proof: %v'' [] err)
     | Inr _ \<Rightarrow> Inr ())"

definition proofCheck :: "GetProofByHashResponse \<Rightarrow> int \<Rightarrow> int \<Rightarrow> SignedTreeHead \<Rightarrow> bytes \<Rightarrow> unit result" where
  "proofCheck resp leafIndex treeSize sh leaf =
    (if pr_LeafIndex resp \<noteq> leafIndex
     then Inl (Errorf ''LeafIndex from server (%v) and LeafIndex from client (%v) do not match''
       [ArgInt (pr_LeafIndex resp), ArgInt leafIndex])
     else case VerifyInclusionProof (pr_LeafIndex resp) treeSize (pr_AuditPath resp) (sth_RootHash sh) (leaf_hash leaf) of
       Inl err \<Rightarrow> Inl (wrap_err ''failed to verify inclusion proof: %v'' [] err)
     | Inr _ \<Rightarrow> Inr ())"

definition sanCheck :: "string list \<Rightarrow> int \<Rightarrow> unit result" where
  "sanCheck sans position =
    (if length sans \<noteq> 1
     then Inl (Errorf ''received weird certificate, should have 1 SAN, but has %v'' [ArgInt (int (length sans))])
     else if hd sans \<noteq> san position
     then Inl (Errorf ''received certificate with SAN %v at position %v'' [ArgStr (hd sans), ArgInt position])
     else Inr ())"

fun entriesCheck_loop :: "string list option list \<Rightarrow> int \<Rightarrow> unit result" where
  "entriesCheck_loop [] position = Inr ()"
| "entriesCheck_loop (entry # entries) position =
    (case entry of
       None \<Rightarrow> Inl (Panic ''invalid memory address or nil pointer dereference'')
     | Some sans \<Rightarrow> (case sanCheck sans position of Inl e \<Rightarrow> Inl e | Inr _ \<Rightarrow> entriesCheck_loop entries (position + 1)))"

definition entriesCheck :: "string list option list \<Rightarrow> int \<Rightarrow> int \<Rightarrow> unit result" where
  "entriesCheck entries start stop =
    (if int (length entries) \<noteq> stop - start + 1
     then Inl (Errorf ''got %v entries, but wanted %v'' [ArgInt (int (length entries)), ArgInt (stop - start + 1)])
     else entriesCheck_loop entries start)"

definition entryAndProofCheck :: "'w log_api \<Rightarrow> GetEntryAndProofResponse \<Rightarrow> int \<Rightarrow> int \<Rightarrow> SignedTreeHead \<Rightarrow> unit result" where
  "entryAndProofCheck api resp leafIndex treeSize sh =
    (case unmarshalLeafInput api (ep_LeafInput resp) of
       Inl err \<Rightarrow> Inl (wrap_err ''failed to unmarshal MerkleTreeLeaf: %v'' [] err)
     | Inr (leaf, rest) \<Rightarrow>
         if length rest > 0
         then Inl (Errorf ''trailing data (%d bytes) after MerkleTreeLeaf'' [ArgInt (int (length rest))])
         else
    (case X509Certificate api leaf of
       Inl err \<Rightarrow> Inl (wrap_err ''failed to parse certificate in MerkleTreeLeaf: %v'' [] err)
     | Inr sans \<Rightarrow>
    (case sanCheck sans leafIndex of
       Inl e \<Rightarrow> Inl e
     | Inr _ \<Rightarrow>
    (case VerifyInclusionProof leafIndex treeSize (ep_AuditPath resp) (sth_RootHash sh) (leaf_hash (ep_LeafInput resp)) of
       Inl err \<Rightarrow> Inl (wrap_err ''failed to verify inclusion proof: %v'' [] err)
     | Inr _ \<Rightarrow> Inr ()))))"

text \<open>Each of the many-checks makes ten attempts; \<open>attempts\<close> repeats a step.\<close>

fun attempts :: "nat \<Rightarrow> ('w, unit) step \<Rightarrow> ('w, unit) step" where
  "attempts 0 m w = (w, Inr ())"
| "attempts (Suc k) m w = andThen m (\<lambda>_. attempts k m) w"

definition proofAttempt :: "'w log_api \<Rightarrow> int \<Rightarrow> SignedTreeHead \<Rightarrow> ('w, unit) step" where
  "proofAttempt api treeSize sh =
    andThen (Int63n api treeSize) (\<lambda>index.
    andThen (GetRawLeaf api index) (\<lambda>leaf.
    andThen (orFatal (wrap_err ''failed to hit get-proof-by-hash: %v'' [])
      (GetProofByHash api (Sum256 (0 # leaf)) treeSize)) (\<lambda>resp.
    finish (proofCheck resp index treeSize sh leaf))))"

definition manyProofChecks :: "'w log_api \<Rightarrow> int \<Rightarrow> SignedTreeHead \<Rightarrow> ('w, unit) step" where
  "manyProofChecks api treeSize sh = attempts 10 (proofAttempt api treeSize sh)"

definition entryAttempt :: "'w log_api \<Rightarrow> int \<Rightarrow> ('w, unit) step" where
  "entryAttempt api treeSize =
    andThen (Int63n api treeSize) (\<lambda>start.
    andThen (Int63n api (treeSize - start)) (\<lambda>more.
    andThen (orFatal (wrap_err ''failed to hit get-entries: %v'' []) (GetEntries api start (start + more))) (\<lambda>entries.
    finish (entriesCheck entries start (start + more)))))"

definition manyEntryChecks :: "'w log_api \<Rightarrow> int \<Rightarrow> ('w, unit) step" where
  "manyEntryChecks api treeSize = attempts 10 (entryAttempt api treeSize)"

definition entryAndProofAttempt :: "'w log_api \<Rightarrow> int \<Rightarrow> SignedTreeHead \<Rightarrow> ('w, unit) step" where
  "entryAndProofAttempt api treeSize sh =
    andThen (Int63n api treeSize) (\<lambda>leafIndex.
    andThen (orFatal (wrap_err ''failed to hit get-entry-and-proof: %v'' [])
      (GetEntryAndProof api leafIndex treeSize)) (\<lambda>resp.
    finish (entryAndProofCheck api resp leafIndex treeSize sh)))"

definition manyEntryAndProofChecks :: "'w log_api \<Rightarrow> int \<Rightarrow> SignedTreeHead \<Rightarrow> ('w, unit) step" where
  "manyEntryAndProofChecks api treeSize sh = attempts 10 (entryAndProofAttempt api treeSize sh)"


section \<open>What the checks accept\<close>

lemma sanCheck_iff: "sanCheck sans position = Inr () \<longleftrightarrow> sans = [san position]"
  by (cases sans rule: remdups_adj.cases) (auto simp: sanCheck_def)

lemma san_inj: "san m = san n \<longleftrightarrow> m = n"
  by (simp add: san_def fmt_v_int_inj)

lemma entriesCheck_loop_iff:
  "entriesCheck_loop entries position = Inr () \<longleftrightarrow>
    entries = map (\<lambda>p. Some [san p]) [position..position + int (length entries) - 1]"
proof (induction entries arbitrary: position)
  case Nil
  then show ?case by simp
next
  case (Cons entry entries)
  have "[position..position + int (length (entry # entries)) - 1] =
      position # [position + 1..position + 1 + int (length entries) - 1]"
    by (subst upto_rec1) (simp_all add: algebra_simps)
  moreover have "entriesCheck_loop (entry # entries) position = Inr () \<longleftrightarrow>
      entry = Some [san position] \<and> entriesCheck_loop entries (position + 1) = Inr ()"
  proof (cases entry)
    case (Some sans)
    have "entriesCheck_loop (entry # entries) position = Inr () \<longleftrightarrow>
        sanCheck sans position = Inr () \<and> entriesCheck_loop entries (position + 1) = Inr ()"
      using Some by (auto split: sum.splits)
    then show ?thesis using Some by (simp add: sanCheck_iff)
  qed simp
  ultimately show ?case using Cons.IH [of "position + 1"] by simp
qed

text \<open>
  The check of a range of entries accepts exactly one answer: one certificate for each position of the range, in
  order, each with the single name of the certificate submitted for that position.
\<close>

theorem entriesCheck_accepts_iff:
  "entriesCheck entries start stop = Inr () \<longleftrightarrow>
    start \<le> stop + 1 \<and> entries = map (\<lambda>p. Some [san p]) [start..stop]"
proof (cases "int (length entries) = stop - start + 1")
  case True
  then have "start + int (length entries) - 1 = stop" by simp
  with True show ?thesis by (simp add: entriesCheck_def entriesCheck_loop_iff)
next
  case False
  then show ?thesis by (auto simp: entriesCheck_def)
qed

text \<open>The leaf is in the log at that position, or an explicit pair of inputs is a collision.\<close>

definition included :: "bytes list \<Rightarrow> int \<Rightarrow> bytes \<Rightarrow> bytes list \<Rightarrow> bool" where
  "included ds index leaf path \<longleftrightarrow>
    0 \<le> index \<and> index < int (length ds) \<and>
    (case path_collision (nat index) (map leaf_hash ds) (leaf_hash leaf) path of
       None \<Rightarrow> leaf = ds ! nat index \<or> collision (0 # leaf, 0 # ds ! nat index)
     | Some c \<Rightarrow> collision c)"

lemma leaf_hashes_32: "list_all (\<lambda>h. length h = 32) (map leaf_hash ds)"
  by (simp add: list_all_iff leaf_hash_def)

lemma VerifyInclusionProof_included:
  assumes "VerifyInclusionProof index (int (length ds)) path (mth (map leaf_hash ds)) (leaf_hash leaf) = Inr ()"
  shows "included ds index leaf path"
  using VerifyInclusionProof_sound [OF leaf_hashes_32, of index ds path "leaf_hash leaf"] assms
  by (auto simp: included_def leaf_hash_def collision_def split: option.splits)

text \<open>
  C24. What an accepted proof of inclusion says, for both checks: when the root hash of the signed head is the Merkle
  tree hash of a log, an accepted leaf is the leaf of that log at the requested position, whatever the server
  answered, or the proof exhibits a SHA-256 collision.
\<close>

theorem accepted_leaves_are_in_the_log:
  assumes "sth_RootHash sh = mth (map leaf_hash ds)"
  shows "(proofCheck resp index (int (length ds)) sh leaf = Inr () \<longrightarrow>
      pr_LeafIndex resp = index \<and> included ds index leaf (pr_AuditPath resp)) \<and>
    (entryAndProofCheck api eresp index (int (length ds)) sh = Inr () \<longrightarrow>
      included ds index (ep_LeafInput eresp) (ep_AuditPath eresp))"
  using assms
  by (auto simp: proofCheck_def entryAndProofCheck_def intro!: VerifyInclusionProof_included
      split: if_splits sum.splits prod.splits)

text \<open>
  C25. Two signed heads that pass the consistency check commit to logs of which the first is a prefix of the second,
  or the proof exhibits a SHA-256 collision. The hashes of the proof have to be as long as digests.
\<close>

theorem consistencyCheck_proves_prefix:
  assumes "sth_RootHash sh1 = mth (map leaf_hash ds)" "sth_RootHash sh2 = mth (map leaf_hash es)" "ds \<noteq> []"
    "list_all (\<lambda>h. length h = 32) proof"
    "consistencyCheck proof (int (length ds)) (int (length es)) sh1 sh2 = Inr ()"
  shows "case consistency_collision (length ds) (map leaf_hash es) (mth (map leaf_hash ds)) proof of
      Some c \<Rightarrow> collision c
    | None \<Rightarrow> (case find_collision ds (take (length ds) es) of Some c \<Rightarrow> collision c | None \<Rightarrow> prefix ds es)"
proof -
  have "VerifyConsistencyProof (int (length ds)) (int (length (map leaf_hash es))) (mth (map leaf_hash ds))
      (mth (map leaf_hash es)) proof = Inr ()"
    using assms(1,2,5) by (auto simp: consistencyCheck_def split: sum.splits)
  then have "case consistency_collision (length ds) (map leaf_hash es) (mth (map leaf_hash ds)) proof of
      None \<Rightarrow> mth (map leaf_hash ds) = mth (take (length ds) (map leaf_hash es)) | Some c \<Rightarrow> collision c"
    using VerifyConsistencyProof_sound [OF leaf_hashes_32 assms(4), of "mth (map leaf_hash ds)" "length ds" es] assms(3) by simp
  moreover have "case find_collision ds (take (length ds) es) of Some c \<Rightarrow> collision c | None \<Rightarrow> prefix ds es"
    if "mth (map leaf_hash ds) = mth (take (length ds) (map leaf_hash es))"
  proof -
    have "case find_collision ds (take (length ds) es) of None \<Rightarrow> ds = take (length ds) es | Some c \<Rightarrow> collision c"
      using that by (intro mth_leaves_binding) (simp add: take_map)
    then show ?thesis by (auto split: option.splits simp: take_is_prefix) (metis take_is_prefix)
  qed
  ultimately show ?thesis by (auto split: option.splits)
qed


section \<open>An honest log passes\<close>

text \<open>
  A log that holds the leaves \<open>ds\<close>, the leaf at a position being for the certificate with the name of that position,
  and answers every request as RFC 6962 says.
\<close>

definition serves_entries :: "'w log_api \<Rightarrow> bytes list \<Rightarrow> bool" where
  "serves_entries api ds \<longleftrightarrow>
    (\<forall>w i j. 0 \<le> i \<and> i \<le> j \<and> j < int (length ds) \<longrightarrow>
      (\<exists>w' es. GetRawEntries api i j w = (w', Inr es) \<and>
        map le_LeafInput es = map (\<lambda>k. ds ! nat k) [i..j] \<and>
        mapM (\<lambda>(k, e). LogEntryFromLeaf api (i + int k) e) (zip [0..<length es] es) = Inr (map (\<lambda>k. Some [san k]) [i..j])))"

definition serves_proofs :: "'w log_api \<Rightarrow> bytes list \<Rightarrow> bool" where
  "serves_proofs api ds \<longleftrightarrow>
    (\<forall>w m. m < length ds \<longrightarrow>
      (\<exists>w'. GetProofByHash api (leaf_hash (ds ! m)) (int (length ds)) w =
        (w', Inr \<lparr>pr_LeafIndex = int m, pr_AuditPath = audit_path m (map leaf_hash ds)\<rparr>)))"

definition serves_entry_proofs :: "'w log_api \<Rightarrow> bytes list \<Rightarrow> bool" where
  "serves_entry_proofs api ds \<longleftrightarrow>
    (\<forall>w m. m < length ds \<longrightarrow>
      (\<exists>w' x leaf. GetEntryAndProof api (int m) (int (length ds)) w =
          (w', Inr \<lparr>ep_LeafInput = ds ! m, ep_ExtraData = x, ep_AuditPath = audit_path m (map leaf_hash ds)\<rparr>) \<and>
        unmarshalLeafInput api (ds ! m) = Inr (leaf, []) \<and> X509Certificate api leaf = Inr [san (int m)]))"

definition passes :: "('w, unit) step \<Rightarrow> bool" where
  "passes m \<longleftrightarrow> (\<forall>w. snd (m w) = Inr ())"

lemma attempts_pass: "passes m \<Longrightarrow> passes (attempts k m)"
proof (induction k)
  case 0
  then show ?case by (simp add: passes_def)
next
  case (Suc k)
  then show ?case by (auto simp: passes_def andThen_def split: prod.splits sum.splits) (metis snd_conv sum.distinct(1))
qed

lemma passes_Int63n:
  assumes "0 < n" "\<And>v. 0 \<le> v \<Longrightarrow> v < n \<Longrightarrow> passes (f v)"
  shows "passes (andThen (Int63n api n) f)"
  unfolding passes_def
proof
  fix w
  obtain w' v where v: "Int63 api w = (w', v)" by (rule prod.exhaust)
  have "passes (f (v mod n))" using assms by simp
  then show "snd (andThen (Int63n api n) f w) = Inr ()"
    using assms(1) by (simp add: andThen_def Int63n_def v passes_def)
qed

lemma passes_andThen:
  assumes "\<And>w. \<exists>w'. m w = (w', Inr x)" "passes (f x)"
  shows "passes (andThen m f)"
  unfolding passes_def
proof
  fix w
  obtain w' where "m w = (w', Inr x)" using assms(1) by blast
  then show "snd (andThen m f w) = Inr ()" using assms(2) by (simp add: andThen_def passes_def)
qed

lemma passes_orFatal:
  assumes "\<And>w. \<exists>w' x. m w = (w', Inr x) \<and> g x = Inr ()"
  shows "passes (andThen (orFatal f m) (\<lambda>x. finish (g x)))"
  unfolding passes_def
proof
  fix w
  obtain w' x where "m w = (w', Inr x)" "g x = Inr ()" using assms by blast
  then show "snd (andThen (orFatal f m) (\<lambda>x. finish (g x)) w) = Inr ()"
    by (simp add: andThen_def orFatal_def finish_def)
qed

lemma genuine_proof_accepted:
  "m < length ds \<Longrightarrow>
    VerifyInclusionProof (int m) (int (length ds)) (audit_path m (map leaf_hash ds)) (mth (map leaf_hash ds)) (leaf_hash (ds ! m)) = Inr ()"
  using VerifyInclusionProof_complete [of m "map leaf_hash ds"] leaf_hashes_32 by simp

lemma GetRawLeaf_honest:
  assumes "serves_entries api ds" "0 \<le> i" "i < int (length ds)"
  shows "\<exists>w'. GetRawLeaf api i w = (w', Inr (ds ! nat i))"
proof -
  obtain w' es where es: "GetRawEntries api i i w = (w', Inr es)" "map le_LeafInput es = [ds ! nat i]"
    using assms unfolding serves_entries_def by fastforce
  then obtain e where "es = [e]" "le_LeafInput e = ds ! nat i" by (cases es) auto
  with es show ?thesis by (simp add: GetRawLeaf_def andThen_def finish_def)
qed

lemma GetEntries_honest:
  assumes "serves_entries api ds" "0 \<le> i" "i \<le> j" "j < int (length ds)"
  shows "\<exists>w'. GetEntries api i j w = (w', Inr (map (\<lambda>k. Some [san k]) [i..j]))"
proof -
  obtain w' es where "GetRawEntries api i j w = (w', Inr es)"
      "mapM (\<lambda>(k, e). LogEntryFromLeaf api (i + int k) e) (zip [0..<length es] es) = Inr (map (\<lambda>k. Some [san k]) [i..j])"
    using assms unfolding serves_entries_def by blast
  then show ?thesis using assms(2,3) by (simp add: GetEntries_def andThen_def finish_def)
qed

lemma proofAttempt_honest:
  assumes "serves_entries api ds" "serves_proofs api ds" "ds \<noteq> []" "sth_RootHash sh = mth (map leaf_hash ds)"
  shows "passes (proofAttempt api (int (length ds)) sh)"
  unfolding proofAttempt_def
proof (rule passes_Int63n)
  fix i assume i: "0 \<le> i" "i < int (length ds)"
  then have m: "nat i < length ds" by simp
  have "passes (andThen (orFatal f (GetProofByHash api (Sum256 (0 # ds ! nat i)) (int (length ds))))
      (\<lambda>resp. finish (proofCheck resp i (int (length ds)) sh (ds ! nat i))))" for f
  proof (rule passes_orFatal)
    fix w
    obtain w' where "GetProofByHash api (Sum256 (0 # ds ! nat i)) (int (length ds)) w =
        (w', Inr \<lparr>pr_LeafIndex = int (nat i), pr_AuditPath = audit_path (nat i) (map leaf_hash ds)\<rparr>)"
      using assms(2) m unfolding serves_proofs_def leaf_hash_def by blast
    moreover have "proofCheck \<lparr>pr_LeafIndex = int (nat i), pr_AuditPath = audit_path (nat i) (map leaf_hash ds)\<rparr>
        i (int (length ds)) sh (ds ! nat i) = Inr ()"
      using i(1) genuine_proof_accepted [OF m] by (simp add: proofCheck_def assms(4))
    ultimately show "\<exists>w' x. GetProofByHash api (Sum256 (0 # ds ! nat i)) (int (length ds)) w = (w', Inr x) \<and>
        proofCheck x i (int (length ds)) sh (ds ! nat i) = Inr ()" by blast
  qed
  then show "passes (andThen (GetRawLeaf api i) (\<lambda>leaf. andThen (orFatal (wrap_err ''failed to hit get-proof-by-hash: %v'' [])
      (GetProofByHash api (Sum256 (0 # leaf)) (int (length ds)))) (\<lambda>resp. finish (proofCheck resp i (int (length ds)) sh leaf))))"
    by (rule passes_andThen [OF GetRawLeaf_honest [OF assms(1) i]])
qed (use assms(3) in simp)

lemma entryAttempt_honest:
  assumes "serves_entries api ds" "ds \<noteq> []"
  shows "passes (entryAttempt api (int (length ds)))"
  unfolding entryAttempt_def
proof (rule passes_Int63n, use assms(2) in simp, rule passes_Int63n, simp, rule passes_orFatal)
  fix start more w assume "0 \<le> start" "start < int (length ds)" "0 \<le> more" "more < int (length ds) - start"
  then obtain w' where "GetEntries api start (start + more) w = (w', Inr (map (\<lambda>k. Some [san k]) [start..start + more]))"
    using GetEntries_honest [OF assms(1), of start "start + more" w] by auto
  moreover have "entriesCheck (map (\<lambda>k. Some [san k]) [start..start + more]) start (start + more) = Inr ()"
    using \<open>0 \<le> more\<close> by (simp add: entriesCheck_def entriesCheck_loop_iff)
  ultimately show "\<exists>w' x. GetEntries api start (start + more) w = (w', Inr x) \<and> entriesCheck x start (start + more) = Inr ()"
    by blast
qed

lemma entryAndProofAttempt_honest:
  assumes "serves_entry_proofs api ds" "ds \<noteq> []" "sth_RootHash sh = mth (map leaf_hash ds)"
  shows "passes (entryAndProofAttempt api (int (length ds)) sh)"
  unfolding entryAndProofAttempt_def
proof (rule passes_Int63n, use assms(2) in simp, rule passes_orFatal)
  fix i w assume i: "0 \<le> i" "i < int (length ds)"
  then have m: "nat i < length ds" by simp
  obtain w' x leaf where r: "GetEntryAndProof api (int (nat i)) (int (length ds)) w =
        (w', Inr \<lparr>ep_LeafInput = ds ! nat i, ep_ExtraData = x, ep_AuditPath = audit_path (nat i) (map leaf_hash ds)\<rparr>)"
      "unmarshalLeafInput api (ds ! nat i) = Inr (leaf, [])" "X509Certificate api leaf = Inr [san (int (nat i))]"
    using assms(1) m unfolding serves_entry_proofs_def by blast
  moreover have "sanCheck [san i] i = Inr ()" by (simp add: sanCheck_iff)
  ultimately show "\<exists>w' x. GetEntryAndProof api i (int (length ds)) w = (w', Inr x) \<and>
      entryAndProofCheck api x i (int (length ds)) sh = Inr ()"
    using i(1) genuine_proof_accepted [OF m] by (simp add: entryAndProofCheck_def assms(3))
qed

text \<open>
  C27. The checks raise no false alarm: whatever positions the random generator picks, a log that answers as it should
  passes all of them. In particular no request is out of range and the generator is never called with an empty range.
\<close>

theorem honest_log_passes:
  assumes "serves_entries api ds" "serves_proofs api ds" "serves_entry_proofs api ds" "ds \<noteq> []"
    "sth_RootHash sh = mth (map leaf_hash ds)"
  shows "passes (manyProofChecks api (int (length ds)) sh) \<and> passes (manyEntryChecks api (int (length ds))) \<and>
    passes (manyEntryAndProofChecks api (int (length ds)) sh)"
  unfolding manyProofChecks_def manyEntryChecks_def manyEntryAndProofChecks_def
  using assms by (blast intro: attempts_pass proofAttempt_honest entryAttempt_honest entryAndProofAttempt_honest)

section \<open>Waiting for a tree head\<close>

text \<open>The world before the \<open>k\<close>-th poll, if none of the earlier ones ended the wait.\<close>

fun poll_world :: "'w log_api \<Rightarrow> nat \<Rightarrow> 'w \<Rightarrow> 'w" where
  "poll_world api 0 w = w"
| "poll_world api (Suc k) w = poll_world api k (Sleep api (fst (GetSTH api w)))"

lemma WaitForSTH_loop_iff:
  "snd (WaitForSTH_loop api n treeSize w) = Inr sh \<longleftrightarrow>
    (\<exists>k<n. snd (GetSTH api (poll_world api k w)) = Inr sh \<and> sth_TreeSize sh = treeSize \<and>
      (\<forall>j<k. \<exists>other. snd (GetSTH api (poll_world api j w)) = Inr other \<and> sth_TreeSize other \<noteq> treeSize))"
proof (induction n arbitrary: w)
  case 0
  then show ?case by simp
next
  case (Suc n)
  obtain w' r where r: "GetSTH api w = (w', r)" by (rule prod.exhaust)
  show ?case
    unfolding Ex_less_Suc2
    using Suc.IH [of "Sleep api w'"] by (cases r) (auto simp: r All_less_Suc2)
qed

text \<open>
  Waiting polls at most thirty times; it returns a head exactly when one of the polls gives a head of the wanted
  size and all earlier ones gave heads of other sizes.
\<close>

theorem WaitForSTH_returns_iff:
  "snd (WaitForSTH api treeSize w) = Inr sh \<longleftrightarrow>
    (\<exists>k<30. snd (GetSTH api (poll_world api k w)) = Inr sh \<and> sth_TreeSize sh = treeSize \<and>
      (\<forall>j<k. \<exists>other. snd (GetSTH api (poll_world api j w)) = Inr other \<and> sth_TreeSize other \<noteq> treeSize))"
  unfolding WaitForSTH_def by (rule WaitForSTH_loop_iff)


section \<open>Concrete runs\<close>

text \<open>
  A log with one leaf whose world counts the requests: it answers every request for the one entry there is, and
  integrates the leaf between the second and the third poll of its head.
\<close>

definition one_leaf :: bytes where
  "one_leaf = [0, 0, 7]"

definition one_leaf_api :: "nat log_api" where
  "one_leaf_api =
    \<lparr>GetSTH = (\<lambda>w. (Suc w, Inr (if w < 2 then \<lparr>sth_TreeSize = 0, sth_RootHash = Sum256 []\<rparr>
                           else \<lparr>sth_TreeSize = 1, sth_RootHash = leaf_hash one_leaf\<rparr>))),
     AddChain = (\<lambda>w chain. (Suc w, Inr 1)),
     httpGet = (\<lambda>w path params. (Suc w, Inr [])),
     decodeConsistency = (\<lambda>_. Inr []),
     decodeEntries = (\<lambda>_. Inr [\<lparr>le_LeafInput = one_leaf, le_ExtraData = []\<rparr>]),
     decodeProof = (\<lambda>_. Inr \<lparr>pr_LeafIndex = 0, pr_AuditPath = []\<rparr>),
     decodeEntryAndProof = (\<lambda>_. Inr \<lparr>ep_LeafInput = one_leaf, ep_ExtraData = [], ep_AuditPath = []\<rparr>),
     LogEntryFromLeaf = (\<lambda>i e. Inr (Some [san i])),
     unmarshalLeafInput = (\<lambda>b. Inr (b, [])),
     X509Certificate = (\<lambda>leaf. Inr [san 0]),
     Sleep = (\<lambda>w. w),
     Int63 = (\<lambda>w. (w, int (7 * w + 3)))\<rparr>"

definition one_leaf_head :: SignedTreeHead where
  "one_leaf_head = \<lparr>sth_TreeSize = 1, sth_RootHash = mth (map leaf_hash [one_leaf])\<rparr>"

lemma one_leaf_serves:
  "serves_entries one_leaf_api [one_leaf]" "serves_proofs one_leaf_api [one_leaf]" "serves_entry_proofs one_leaf_api [one_leaf]"
proof -
  have "0 \<le> i \<and> i \<le> j \<and> j < int (length [one_leaf]) \<longleftrightarrow> i = 0 \<and> j = 0" for i j :: int by auto
  then show "serves_entries one_leaf_api [one_leaf]"
    unfolding serves_entries_def
    by (simp add: GetRawEntries_def GetAndParse_def andThen_def finish_def one_leaf_api_def)
  show "serves_proofs one_leaf_api [one_leaf]" "serves_entry_proofs one_leaf_api [one_leaf]"
    by (simp_all add: serves_proofs_def serves_entry_proofs_def GetProofByHash_def GetEntryAndProof_def GetAndParse_def
        andThen_def finish_def one_leaf_api_def audit_path.simps)
qed

theorem honest_log_passes_witness:
  "passes (manyProofChecks one_leaf_api 1 one_leaf_head) \<and> passes (manyEntryChecks one_leaf_api 1) \<and>
    passes (manyEntryAndProofChecks one_leaf_api 1 one_leaf_head)"
  using honest_log_passes [OF one_leaf_serves, of one_leaf_head] by (simp add: one_leaf_head_def)

lemma one_leaf_polls: "poll_world one_leaf_api k w = w + k"
  by (induction k arbitrary: w) (simp_all add: one_leaf_api_def)

theorem WaitForSTH_returns_iff_witness:
  "snd (WaitForSTH one_leaf_api 1 0) = Inr \<lparr>sth_TreeSize = 1, sth_RootHash = leaf_hash one_leaf\<rparr>"
proof -
  have "\<exists>k<30. snd (GetSTH one_leaf_api (poll_world one_leaf_api k 0)) = Inr \<lparr>sth_TreeSize = 1, sth_RootHash = leaf_hash one_leaf\<rparr> \<and>
      sth_TreeSize \<lparr>sth_TreeSize = 1, sth_RootHash = leaf_hash one_leaf\<rparr> = 1 \<and>
      (\<forall>j<k. \<exists>other. snd (GetSTH one_leaf_api (poll_world one_leaf_api j 0)) = Inr other \<and> sth_TreeSize other \<noteq> 1)"
    unfolding one_leaf_polls by (intro exI [of _ 2]) (simp add: one_leaf_api_def)
  then show ?thesis by (simp only: WaitForSTH_returns_iff)
qed

theorem accepted_leaves_are_in_the_log_witness:
  "included [one_leaf] 0 one_leaf []"
  using accepted_leaves_are_in_the_log [of one_leaf_head "[one_leaf]" "\<lparr>pr_LeafIndex = 0, pr_AuditPath = []\<rparr>" 0 one_leaf
      one_leaf_api "\<lparr>ep_LeafInput = one_leaf, ep_ExtraData = [], ep_AuditPath = []\<rparr>"]
    genuine_proof_accepted [of 0 "[one_leaf]"]
  by (simp add: one_leaf_head_def proofCheck_def audit_path.simps)

text \<open>A log that grew from one leaf to two, with the proof of that.\<close>

lemma two_leaf_consistency: "consistency_proof 1 [a, b] = [b]"
proof -
  have "TrailingZeros64 1 = 0" by (simp add: TrailingZeros64.simps)
  moreover have "chunks 1 [a, b] = [[a], [b]]" by (simp add: chunks.simps)
  moreover have "split_point 2 = 1" by (simp add: split_point.simps)
  then have "audit_path 0 [a, b] = [b]" by (simp add: audit_path.simps numeral_2_eq_2 Let_def)
  ultimately show ?thesis by (simp add: consistency_proof_def Let_def)
qed

theorem consistencyCheck_proves_prefix_witness:
  "case consistency_collision 1 (map leaf_hash [one_leaf, []]) (leaf_hash one_leaf) [leaf_hash []] of
      Some c \<Rightarrow> collision c
    | None \<Rightarrow> (case find_collision [one_leaf] [one_leaf] of Some c \<Rightarrow> collision c | None \<Rightarrow> prefix [one_leaf] [one_leaf, []])"
proof -
  have "VerifyConsistencyProof 1 2 (leaf_hash one_leaf) (mth (map leaf_hash [one_leaf, []])) [leaf_hash []] = Inr ()"
    using VerifyConsistencyProof_complete [of 1 "map leaf_hash [one_leaf, []]"] by (simp add: two_leaf_consistency [simplified])
  then show ?thesis
    using consistencyCheck_proves_prefix [of one_leaf_head "[one_leaf]" "\<lparr>sth_TreeSize = 2, sth_RootHash = mth (map leaf_hash [one_leaf, []])\<rparr>"
        "[one_leaf, []]" "[leaf_hash []]"]
    by (auto simp: one_leaf_head_def consistencyCheck_def leaf_hash_def split: option.splits)
qed

end
