(* ===== verification/TesterMain.thy ===== *)
theory TesterMain
  imports Tester QuotaManager
begin

text \<open>
  The script of the log tester (\<open>main\<close> of \<open>cmd/admin/ct-log-tester/main.go\<close>) from the first request on: the empty log,
  four batches of certificates with the checks after each, and five goroutines that flood the log until each of
  them is rejected. Certificates come from \<open>gen\<close>, the n-th certificate (the same each time it is generated).
\<close>

section \<open>The script\<close>

text \<open>How values and errors are printed.\<close>

record printer =
  show_Consistency :: "bytes list \<Rightarrow> string"
  show_Entries :: "LeafEntry list \<Rightarrow> string"
  show_Proof :: "GetProofByHashResponse \<Rightarrow> string"
  show_EntryAndProof :: "GetEntryAndProofResponse \<Rightarrow> string"
  show_Error :: "error \<Rightarrow> string"

definition checkStep :: "('a \<Rightarrow> string) \<Rightarrow> string \<Rightarrow> (error \<Rightarrow> string) \<Rightarrow> ('w, 'a) step \<Rightarrow> string \<Rightarrow> ('w, unit) step" where
  "checkStep show_out nil_out show_err m wanted w =
    (case m w of (w, r) \<Rightarrow> (w, simpleCheck show_out nil_out show_err r wanted))"

fun inOrder :: "('w, unit) step list \<Rightarrow> ('w, unit) step" where
  "inOrder [] w = (w, Inr ())"
| "inOrder (m # ms) w = andThen m (\<lambda>_. inOrder ms) w"

definition http_status :: "string \<Rightarrow> string" where
  "http_status s = ''got HTTP Status '' @ [CHR 0x22] @ s @ [CHR 0x22]"

definition emptyLogChecks :: "'w log_api \<Rightarrow> printer \<Rightarrow> ('w, unit) step" where
  "emptyLogChecks api pr =
    (let consistency = checkStep (show_Consistency pr) ''[]'' (show_Error pr);
         proof_by_hash = checkStep (show_Proof pr) ''<nil>'' (show_Error pr);
         entries = checkStep (show_Entries pr) ''<nil>'' (show_Error pr);
         entry_and_proof = checkStep (show_EntryAndProof pr) ''<nil>'' (show_Error pr);
         bad_request = ''<nil> '' @ http_status ''400 Bad Request'';
         not_found = ''<nil> '' @ http_status ''404 Not Found''
     in inOrder
      [consistency (GetSTHConsistency api (- 1) 0) (''[] '' @ http_status ''400 Bad Request''),
       consistency (GetSTHConsistency api 0 0) ''[] <nil>'',
       consistency (GetSTHConsistency api 0 1) ''[] <nil>'',
       proof_by_hash (GetProofByHash api (replicate 32 0) (- 10)) bad_request,
       proof_by_hash (GetProofByHash api (replicate 70 0) 1) not_found,
       proof_by_hash (GetProofByHash api (replicate 2 0) 1) not_found,
       proof_by_hash (GetProofByHash api (replicate 32 0) 1) not_found,
       entries (GetRawEntries api (- 100) (- 10)) bad_request,
       entries (GetRawEntries api 10 1) bad_request,
       entries (GetRawEntries api 100000 100000) (''<nil> '' @ http_status ''500 Internal Server Error''),
       entry_and_proof (GetEntryAndProof api 0 0) bad_request,
       entry_and_proof (GetEntryAndProof api 3 1) bad_request,
       entry_and_proof (GetEntryAndProof api 0 1) bad_request])"

text \<open>
  A loop that submits certificates; \<open>body\<close> is what it does with the timestamp of the promise, given the
  timestamps so far.
\<close>

fun submit ::
  "'w log_api \<Rightarrow> (int \<Rightarrow> bytes list result) \<Rightarrow> (int \<Rightarrow> int \<Rightarrow> int list \<Rightarrow> int list result) \<Rightarrow> int list \<Rightarrow> int list \<Rightarrow>
   ('w, int list) step" where
  "submit api gen body [] timestamps w = (w, Inr timestamps)"
| "submit api gen body (i # is) timestamps w =
    (case gen i of
       Inl e \<Rightarrow> (w, Inl e)
     | Inr chain \<Rightarrow>
    (case AddChain api w chain of
       (w, Inl err) \<Rightarrow> (w, Inl err)
     | (w, Inr t) \<Rightarrow>
    (case body i t timestamps of
       Inl e \<Rightarrow> (w, Inl e)
     | Inr timestamps \<Rightarrow> submit api gen body is timestamps w)))"

definition notDeduplicated :: error where
  "notDeduplicated = Errorf ''AddChain submission was not properly de-duplicated.'' []"

definition record_timestamp :: "int \<Rightarrow> int \<Rightarrow> int list \<Rightarrow> int list result" where
  "record_timestamp i t timestamps = Inr (timestamps[nat i := t])"

definition record_or_compare :: "int \<Rightarrow> int \<Rightarrow> int list \<Rightarrow> int list result" where
  "record_or_compare i t timestamps =
    (if i < 30 \<and> t \<noteq> timestamps ! nat i then Inl notDeduplicated
     else if i \<ge> 30 then Inr (timestamps[nat i := t]) else Inr timestamps)"

definition compare_timestamp :: "int \<Rightarrow> int \<Rightarrow> int list \<Rightarrow> int list result" where
  "compare_timestamp i t timestamps = (if t \<noteq> timestamps ! nat i then Inl notDeduplicated else Inr timestamps)"

definition ignore_timestamp :: "int \<Rightarrow> int \<Rightarrow> int list \<Rightarrow> int list result" where
  "ignore_timestamp i t timestamps = Inr timestamps"

definition checkConsistency :: "'w log_api \<Rightarrow> int \<Rightarrow> int \<Rightarrow> SignedTreeHead \<Rightarrow> SignedTreeHead \<Rightarrow> ('w, unit) step" where
  "checkConsistency api first second sh1 sh2 =
    andThen (orFatal (wrap_err ''failed to hit get-sth-consistency: %v'' []) (GetSTHConsistency api first second))
      (\<lambda>proof. finish (consistencyCheck proof first second sh1 sh2))"

definition checkEndpoints :: "'w log_api \<Rightarrow> int \<Rightarrow> SignedTreeHead \<Rightarrow> ('w, unit) step" where
  "checkEndpoints api treeSize sh =
    inOrder [manyProofChecks api treeSize sh, manyEntryChecks api treeSize, manyEntryAndProofChecks api treeSize sh]"

definition first_batch :: "'w log_api \<Rightarrow> (int \<Rightarrow> bytes list result) \<Rightarrow> ('w, int list \<times> SignedTreeHead) step" where
  "first_batch api gen =
    andThen (submit api gen record_timestamp [0..29] (replicate 45 0)) (\<lambda>timestamps.
    andThen (WaitForSTH api 30) (\<lambda>sh30.
    andThen (checkEndpoints api 30 sh30) (\<lambda>_.
    finish (Inr (timestamps, sh30)))))"

definition second_batch ::
  "'w log_api \<Rightarrow> (int \<Rightarrow> bytes list result) \<Rightarrow> int list \<Rightarrow> SignedTreeHead \<Rightarrow> ('w, SignedTreeHead) step" where
  "second_batch api gen timestamps sh30 =
    andThen (submit api gen record_or_compare [20..44] timestamps) (\<lambda>timestamps.
    andThen (submit api gen compare_timestamp [40..44] timestamps) (\<lambda>_.
    andThen (WaitForSTH api 45) (\<lambda>sh45.
    andThen (checkConsistency api 30 45 sh30 sh45) (\<lambda>_.
    andThen (checkEndpoints api 45 sh45) (\<lambda>_.
    finish (Inr sh45))))))"

definition third_batch ::
  "'w log_api \<Rightarrow> (int \<Rightarrow> bytes list result) \<Rightarrow> SignedTreeHead \<Rightarrow> SignedTreeHead \<Rightarrow> ('w, SignedTreeHead) step" where
  "third_batch api gen sh30 sh45 =
    andThen (submit api gen ignore_timestamp [45..299] []) (\<lambda>_.
    andThen (WaitForSTH api 300) (\<lambda>sh300.
    andThen (inOrder
      [checkConsistency api 30 45 sh30 sh45, checkConsistency api 30 300 sh30 sh300,
       checkConsistency api 45 300 sh45 sh300]) (\<lambda>_.
    andThen (checkEndpoints api 300 sh300) (\<lambda>_.
    finish (Inr sh300)))))"

definition fourth_batch ::
  "'w log_api \<Rightarrow> (int \<Rightarrow> bytes list result) \<Rightarrow> SignedTreeHead \<Rightarrow> SignedTreeHead \<Rightarrow> SignedTreeHead \<Rightarrow> ('w, SignedTreeHead) step" where
  "fourth_batch api gen sh30 sh45 sh300 =
    andThen (submit api gen ignore_timestamp [300..529] []) (\<lambda>_.
    andThen (WaitForSTH api 530) (\<lambda>sh530.
    andThen (inOrder
      [checkConsistency api 30 45 sh30 sh45, checkConsistency api 30 300 sh30 sh300,
       checkConsistency api 30 530 sh30 sh530, checkConsistency api 45 300 sh45 sh300,
       checkConsistency api 45 530 sh45 sh530]) (\<lambda>_.
    andThen (checkEndpoints api 530 sh530) (\<lambda>_.
    finish (Inr sh530)))))"

text \<open>The script up to the flood; it gives the four heads it has seen.\<close>

definition audit ::
  "'w log_api \<Rightarrow> printer \<Rightarrow> (int \<Rightarrow> bytes list result) \<Rightarrow>
   ('w, SignedTreeHead \<times> SignedTreeHead \<times> SignedTreeHead \<times> SignedTreeHead) step" where
  "audit api pr gen =
    andThen (GetSTH api) (\<lambda>sh.
      if sth_TreeSize sh \<noteq> 0
      then finish (Inl (Errorf ''cowardly refusing to continue, tree size is %v, not 0'' [ArgInt (sth_TreeSize sh)]))
      else
    andThen (emptyLogChecks api pr) (\<lambda>_.
    andThen (first_batch api gen) (\<lambda>(timestamps, sh30).
    andThen (second_batch api gen timestamps sh30) (\<lambda>sh45.
    andThen (third_batch api gen sh30 sh45) (\<lambda>sh300.
    andThen (fourth_batch api gen sh30 sh45 sh300) (\<lambda>sh530.
    finish (Inr (sh30, sh45, sh300, sh530))))))))"

section \<open>Loading the keys\<close>

record tester_flags =
  fl_uri :: string
  fl_pubkey :: string
  fl_caCert :: string
  fl_caKey :: string

definition default_flags :: tester_flags where
  "default_flags =
    \<lparr>fl_uri = ''http://server:1944/'', fl_pubkey = ''devdata/pubkey.dev.pem'', fl_caCert = ''devdata/certs.dev/ca.pem'',
     fl_caKey = ''devdata/certs.dev/ca-key.pem''\<rparr>"

text \<open>The file system, the decoders, and the client library; \<open>tl_pem\<close> is the first PEM block of its input.\<close>

record ('c, 'k, 'w) tester_libs =
  tl_readFile :: "string \<Rightarrow> bytes result"
  tl_pem :: "bytes \<Rightarrow> bytes option"
  tl_parseCert :: "bytes \<Rightarrow> 'c result"
  tl_parseKey :: "bytes \<Rightarrow> 'k result"
  tl_newClient :: "string \<Rightarrow> bytes \<Rightarrow> 'w log_api result"

definition load_pem :: "('c, 'k, 'w) tester_libs \<Rightarrow> (bytes \<Rightarrow> 'a result) \<Rightarrow> string \<Rightarrow> string \<Rightarrow> 'a result" where
  "load_pem lib parse what path =
    (case tl_readFile lib path of
       Inl e \<Rightarrow> Inl (wrap_err (''failed to read the '' @ what @ '': %v'') [] e)
     | Inr raw \<Rightarrow>
    (case tl_pem lib raw of
       None \<Rightarrow> Inl (Errorf (''failed to parse the '' @ what @ '' as PEM'') [])
     | Some der \<Rightarrow>
    (case parse der of
       Inl e \<Rightarrow> Inl (wrap_err (''failed to parse the '' @ what @ '' after decoding its PEM: %v'') [] e)
     | Inr x \<Rightarrow> Inr x)))"

definition load_keys :: "('c, 'k, 'w) tester_libs \<Rightarrow> tester_flags \<Rightarrow> ('c \<times> 'k \<times> 'w log_api) result" where
  "load_keys lib fl =
    (case load_pem lib (tl_parseCert lib) ''CA certificate'' (fl_caCert fl) of Inl e \<Rightarrow> Inl e | Inr caCert \<Rightarrow>
    (case load_pem lib (tl_parseKey lib) ''CA private key'' (fl_caKey fl) of Inl e \<Rightarrow> Inl e | Inr caKey \<Rightarrow>
    (case tl_readFile lib (fl_pubkey fl) of
       Inl e \<Rightarrow> Inl (wrap_err ''failed to read the log public key: %v'' [] e)
     | Inr pubkey \<Rightarrow>
    (case tl_newClient lib (fl_uri fl) pubkey of
       Inl e \<Rightarrow> Inl (wrap_err ''failed to create a CT log client: %v'' [] e)
     | Inr client \<Rightarrow> Inr (caCert, caKey, client)))))"

text \<open>\<open>main\<close> up to the flood.\<close>

definition tester_main ::
  "('c, 'k, 'w) tester_libs \<Rightarrow> tester_flags \<Rightarrow> printer \<Rightarrow> ('c \<Rightarrow> 'k \<Rightarrow> int \<Rightarrow> bytes list result) \<Rightarrow>
   ('w, SignedTreeHead \<times> SignedTreeHead \<times> SignedTreeHead \<times> SignedTreeHead) step" where
  "tester_main lib fl pr gen w =
    (case load_keys lib fl of Inl e \<Rightarrow> (w, Inl e) | Inr (caCert, caKey, client) \<Rightarrow> audit client pr (gen caCert caKey) w)"

section \<open>The flood\<close>

datatype goroutine = Running nat nat  \<comment> \<open>\<open>j\<close> and \<open>count\<close>\<close> | Finished nat  \<comment> \<open>what was sent on the channel\<close>

text \<open>
  A turn of goroutine \<open>i\<close> is one round of its loop; other goroutines may run between two rounds. An exit ends the
  whole process.
\<close>

definition flood_turn ::
  "'w log_api \<Rightarrow> printer \<Rightarrow> (int \<Rightarrow> bytes list result) \<Rightarrow> nat \<Rightarrow> goroutine list \<Rightarrow> ('w, goroutine list) step" where
  "flood_turn api pr gen i gs w =
    (case gs ! i of
       Finished c \<Rightarrow> (w, Inr gs)
     | Running j c \<Rightarrow>
         if \<not> j < 800 then (w, Inl (Errorf ''Failed to trigger rate-limiting.'' []))
         else
    (case gen (int (530 + 800 * i + j)) of
       Inl e \<Rightarrow> (w, Inl e)
     | Inr chain \<Rightarrow>
    (case AddChain api w chain of
       (w, Inl err) \<Rightarrow>
         if show_Error pr err = http_status ''403 Forbidden'' then (w, Inr (gs[i := Finished c]))
         else (w, Inl (wrap_err ''Unexpected error while flooding log: %v'' [] err))
     | (w, Inr _) \<Rightarrow> (w, Inr (gs[i := Running (Suc j) (Suc c)])))))"

fun flood ::
  "'w log_api \<Rightarrow> printer \<Rightarrow> (int \<Rightarrow> bytes list result) \<Rightarrow> nat list \<Rightarrow> goroutine list \<Rightarrow> ('w, goroutine list) step" where
  "flood api pr gen [] gs w = (w, Inr gs)"
| "flood api pr gen (i # sched) gs w = andThen (flood_turn api pr gen i gs) (flood api pr gen sched) w"

definition flood_start :: "goroutine list" where
  "flood_start = replicate 5 (Running 0 0)"

fun submitted :: "goroutine \<Rightarrow> nat" where
  "submitted (Running j c) = c"
| "submitted (Finished c) = c"

fun is_finished :: "goroutine \<Rightarrow> bool" where
  "is_finished (Running j c) = False"
| "is_finished (Finished c) = True"

text \<open>The sum that \<open>main\<close> prints once every goroutine has reported.\<close>

definition flood_sum :: "goroutine list \<Rightarrow> nat" where
  "flood_sum gs = sum_list (map submitted gs)"


section \<open>What a passed audit has seen\<close>

lemma andThen_Inr: "andThen m f w = (w', Inr y) \<longleftrightarrow> (\<exists>w1 x. m w = (w1, Inr x) \<and> f x w1 = (w', Inr y))"
  by (auto simp: andThen_def split: prod.splits sum.splits)

lemma orFatal_Inr: "orFatal f m w = (w', Inr x) \<longleftrightarrow> m w = (w', Inr x)"
  by (auto simp: orFatal_def split: prod.splits sum.splits)

lemma finish_Inr: "finish r w = (w', Inr x) \<longleftrightarrow> w' = w \<and> r = Inr x"
  by (auto simp: finish_def)

lemma inOrder_Inr: "inOrder ms w = (w', Inr ()) \<Longrightarrow> m \<in> set ms \<Longrightarrow> \<exists>v v'. m v = (v', Inr ())"
proof (induction ms arbitrary: w)
  case Nil
  then show ?case by simp
next
  case (Cons a ms)
  then show ?case by (auto simp: andThen_Inr)
qed

text \<open>The log has answered a request for a consistency proof between the two heads with a proof that passes the check.\<close>

definition proved_consistent :: "'w log_api \<Rightarrow> SignedTreeHead \<Rightarrow> SignedTreeHead \<Rightarrow> bool" where
  "proved_consistent api sh1 sh2 \<longleftrightarrow>
    (\<exists>w w' proof. GetSTHConsistency api (sth_TreeSize sh1) (sth_TreeSize sh2) w = (w', Inr proof) \<and>
      consistencyCheck proof (sth_TreeSize sh1) (sth_TreeSize sh2) sh1 sh2 = Inr ())"

lemma checkConsistency_proved:
  assumes "checkConsistency api (sth_TreeSize sh1) (sth_TreeSize sh2) sh1 sh2 w = (w', Inr ())"
  shows "proved_consistent api sh1 sh2"
  using assms by (auto simp: checkConsistency_def proved_consistent_def andThen_Inr orFatal_Inr finish_Inr)

lemma WaitForSTH_size: "WaitForSTH api n w = (w', Inr sh) \<Longrightarrow> sth_TreeSize sh = n"
  using WaitForSTH_loop_iff [of api 30 n w sh] by (auto simp: WaitForSTH_def)

lemma first_batch_Inr: "first_batch api gen w = (w', Inr (ts, sh30)) \<Longrightarrow> sth_TreeSize sh30 = 30"
  by (auto simp: first_batch_def andThen_Inr finish_Inr dest: WaitForSTH_size)

lemma second_batch_Inr:
  assumes "second_batch api gen ts sh30 w = (w', Inr sh45)" "sth_TreeSize sh30 = 30"
  shows "sth_TreeSize sh45 = 45 \<and> proved_consistent api sh30 sh45"
proof -
  from assms(1) obtain v v' v'' where "WaitForSTH api 45 v = (v', Inr sh45)" "checkConsistency api 30 45 sh30 sh45 v' = (v'', Inr ())"
    by (auto simp: second_batch_def andThen_Inr finish_Inr)
  then show ?thesis using assms(2) WaitForSTH_size checkConsistency_proved by metis
qed

lemma third_batch_Inr:
  assumes "third_batch api gen sh30 sh45 w = (w', Inr sh300)" "sth_TreeSize sh30 = 30" "sth_TreeSize sh45 = 45"
  shows "sth_TreeSize sh300 = 300 \<and> proved_consistent api sh30 sh300 \<and> proved_consistent api sh45 sh300"
proof -
  let ?cs = "[checkConsistency api 30 45 sh30 sh45, checkConsistency api 30 300 sh30 sh300, checkConsistency api 45 300 sh45 sh300]"
  from assms(1) obtain v v' v'' where wait: "WaitForSTH api 300 v = (v', Inr sh300)" and cs: "inOrder ?cs v' = (v'', Inr ())"
    unfolding third_batch_def andThen_Inr finish_Inr by (auto simp del: inOrder.simps)
  have sh300: "sth_TreeSize sh300 = 300" by (rule WaitForSTH_size [OF wait])
  have "proved_consistent api sh30 sh300"
    using inOrder_Inr [OF cs, of "checkConsistency api 30 300 sh30 sh300"] checkConsistency_proved [of api sh30 sh300] assms(2) sh300 by auto
  moreover have "proved_consistent api sh45 sh300"
    using inOrder_Inr [OF cs, of "checkConsistency api 45 300 sh45 sh300"] checkConsistency_proved [of api sh45 sh300] assms(3) sh300 by auto
  ultimately show ?thesis using sh300 by blast
qed

lemma fourth_batch_Inr:
  assumes "fourth_batch api gen sh30 sh45 sh300 w = (w', Inr sh530)" "sth_TreeSize sh30 = 30" "sth_TreeSize sh45 = 45"
  shows "sth_TreeSize sh530 = 530 \<and> proved_consistent api sh30 sh530 \<and> proved_consistent api sh45 sh530"
proof -
  let ?cs = "[checkConsistency api 30 45 sh30 sh45, checkConsistency api 30 300 sh30 sh300,
       checkConsistency api 30 530 sh30 sh530, checkConsistency api 45 300 sh45 sh300,
       checkConsistency api 45 530 sh45 sh530]"
  from assms(1) obtain v v' v'' where wait: "WaitForSTH api 530 v = (v', Inr sh530)" and cs: "inOrder ?cs v' = (v'', Inr ())"
    unfolding fourth_batch_def andThen_Inr finish_Inr by (auto simp del: inOrder.simps)
  have sh530: "sth_TreeSize sh530 = 530" by (rule WaitForSTH_size [OF wait])
  have "proved_consistent api sh30 sh530"
    using inOrder_Inr [OF cs, of "checkConsistency api 30 530 sh30 sh530"] checkConsistency_proved [of api sh30 sh530] assms(2) sh530 by auto
  moreover have "proved_consistent api sh45 sh530"
    using inOrder_Inr [OF cs, of "checkConsistency api 45 530 sh45 sh530"] checkConsistency_proved [of api sh45 sh530] assms(3) sh530 by auto
  ultimately show ?thesis using sh530 by blast
qed

text \<open>
  A passed audit has seen the heads of trees with 30, 45, 300 and 530 leaves, and an accepted consistency proof from
  each of the first two to all later ones; the pair of 300 and 530 is the one it does not ask for.
\<close>

lemma audit_sees_consistent_heads:
  assumes "audit api pr gen w = (w', Inr (sh30, sh45, sh300, sh530))"
  shows "map sth_TreeSize [sh30, sh45, sh300, sh530] = [30, 45, 300, 530] \<and>
    (\<forall>(a, b) \<in> {(sh30, sh45), (sh30, sh300), (sh30, sh530), (sh45, sh300), (sh45, sh530)}. proved_consistent api a b)"
proof -
  from assms obtain ts v1 v1' v2 v2' v3 v3' v4 v4' where
    "first_batch api gen v1 = (v1', Inr (ts, sh30))" "second_batch api gen ts sh30 v2 = (v2', Inr sh45)"
    "third_batch api gen sh30 sh45 v3 = (v3', Inr sh300)" "fourth_batch api gen sh30 sh45 sh300 v4 = (v4', Inr sh530)"
    by (auto simp: audit_def andThen_Inr finish_Inr split: if_splits prod.splits)
  then show ?thesis
    using first_batch_Inr [of api gen v1 v1' ts sh30] second_batch_Inr [of api gen ts sh30 v2 v2' sh45]
      third_batch_Inr [of api gen sh30 sh45 v3 v3' sh300] fourth_batch_Inr [of api gen sh30 sh45 sh300 v4 v4' sh530] by simp
qed

text \<open>
  A run of the tester that gets through loaded all its keys first; one that cannot load them sends no request.
\<close>

lemma tester_main_outcome:
  assumes "tester_main lib fl pr gen w = (w', res)"
  shows "case res of
      Inl e \<Rightarrow> load_keys lib fl = Inl e \<and> w' = w \<or> (\<exists>c k api. load_keys lib fl = Inr (c, k, api))
    | Inr (sh30, sh45, sh300, sh530) \<Rightarrow> \<exists>c k api. load_keys lib fl = Inr (c, k, api) \<and>
        map sth_TreeSize [sh30, sh45, sh300, sh530] = [30, 45, 300, 530] \<and>
        (\<forall>(a, b) \<in> {(sh30, sh45), (sh30, sh300), (sh30, sh530), (sh45, sh300), (sh45, sh530)}. proved_consistent api a b)"
proof (cases "load_keys lib fl")
  case (Inl e)
  then show ?thesis using assms by (auto simp: tester_main_def)
next
  case (Inr cka)
  obtain c k api where cka: "cka = (c, k, api)" by (rule prod_cases3)
  then have run: "audit api pr (gen c k) w = (w', res)" using assms Inr by (simp add: tester_main_def)
  show ?thesis
  proof (cases res)
    case (Inl e)
    then show ?thesis using Inr cka by simp
  next
    case ok: (Inr shs)
    obtain a b d e where "shs = (a, b, d, e)" by (rule prod_cases4)
    then show ?thesis using audit_sees_consistent_heads [of api pr "gen c k" w w' a b d e] run ok Inr cka by simp
  qed
qed

section \<open>The flood ends at the quota\<close>

text \<open>
  A log whose front end charges one token of the tree's write quota for a submission and answers 403 when there is
  none.
\<close>

definition charges_quota :: "QuotaManager log_api \<Rightarrow> int \<Rightarrow> bool" where
  "charges_quota api t \<longleftrightarrow>
    (\<forall>qm chain. AddChain api qm chain =
      (case GetTokens qm 1 [\<lparr>spec_Group = Tree, spec_Kind = Write, spec_TreeID = t, spec_User = GetUser\<rparr>] of
         (qm, Inl e) \<Rightarrow> (qm, Inl (External (http_status ''403 Forbidden'')))
       | (qm, Inr _) \<Rightarrow> (qm, Inr 0)))"

lemma charges_quota_cases:
  assumes "charges_quota api t" "unsequenced qm t = Some c" "0 \<le> c" "c < maxInt64"
  shows "AddChain api qm chain =
    (if c + 1 \<le> maxUnsequencedLeaves qm then (qm\<lparr>unsequenced := (unsequenced qm)(t \<mapsto> c + 1)\<rparr>, Inr 0)
     else (qm, Inl (External (http_status ''403 Forbidden''))))"
proof -
  have "in_int64 (c + 1)" using assms(3,4) by (auto simp: in_int64_def)
  then show ?thesis
    using assms(1,2) by (auto simp: charges_quota_def GetTokens_def getTokens_def)
qed

text \<open>The state of the flood after the turns \<open>past\<close>, with \<open>u\<close> leaves waiting when it began.\<close>

definition flood_inv :: "int \<Rightarrow> int \<Rightarrow> int \<Rightarrow> nat list \<Rightarrow> QuotaManager \<Rightarrow> goroutine list \<Rightarrow> bool" where
  "flood_inv t M u past qm gs \<longleftrightarrow>
    length gs = 5 \<and> maxUnsequencedLeaves qm = M \<and> unsequenced qm t = Some (u + int (flood_sum gs)) \<and>
    u + int (flood_sum gs) \<le> M \<and>
    (\<forall>i<5. case gs ! i of
        Running j c \<Rightarrow> j = c \<and> j = count_list past i
      | Finished c \<Rightarrow> u + int (flood_sum gs) = M)"

lemma flood_sum_update: "i < length gs \<Longrightarrow> flood_sum (gs[i := g]) + submitted (gs ! i) = flood_sum gs + submitted g"
proof (induction gs arbitrary: i)
  case Nil
  then show ?case by simp
next
  case (Cons x gs)
  then show ?case by (cases i) (auto simp: flood_sum_def)
qed

lemma submitted_le: "i < length gs \<Longrightarrow> submitted (gs ! i) \<le> flood_sum gs"
  using flood_sum_update [of i gs "Running 0 0"] by simp

lemma flood_turn_inv:
  assumes "flood_inv t M u past qm gs" "charges_quota api t" "\<forall>n. \<exists>chain. gen n = Inr chain"
    "show_Error pr (External (http_status ''403 Forbidden'')) = http_status ''403 Forbidden''"
    "0 \<le> u" "M < maxInt64" "M - u < 800" "i < 5"
  shows "\<exists>qm' gs'. flood_turn api pr gen i gs qm = (qm', Inr gs') \<and> flood_inv t M u (past @ [i]) qm' gs'"
proof -
  have inv: "length gs = 5" "maxUnsequencedLeaves qm = M" "unsequenced qm t = Some (u + int (flood_sum gs))"
      "u + int (flood_sum gs) \<le> M"
      "\<And>i. i < 5 \<Longrightarrow> case gs ! i of Running j c \<Rightarrow> j = c \<and> j = count_list past i | Finished c \<Rightarrow> u + int (flood_sum gs) = M"
    using assms(1) unfolding flood_inv_def by auto
  show ?thesis
  proof (cases "gs ! i")
    case (Finished c)
    have "case gs ! k of Running j c \<Rightarrow> j = c \<and> j = count_list (past @ [i]) k | Finished c \<Rightarrow> u + int (flood_sum gs) = M"
      if "k < 5" for k using inv(5) [OF that] Finished by (cases "k = i") (auto split: goroutine.splits)
    then have "flood_inv t M u (past @ [i]) qm gs" unfolding flood_inv_def using inv by auto
    then show ?thesis by (simp add: flood_turn_def Finished)
  next
    case (Running j c)
    have j: "j = c" "j = count_list past i" using inv(5) [OF assms(8)] Running by auto
    have "submitted (gs ! i) \<le> flood_sum gs" using inv(1) assms(8) by (intro submitted_le) simp
    then have "j < 800" using inv(4) assms(7) Running j(1) by simp
    obtain chain where chain: "gen (int (530 + 800 * i + j)) = Inr chain" using assms(3) by blast
    have add: "AddChain api qm chain =
        (if u + int (flood_sum gs) + 1 \<le> M then (qm\<lparr>unsequenced := (unsequenced qm)(t \<mapsto> u + int (flood_sum gs) + 1)\<rparr>, Inr 0)
         else (qm, Inl (External (http_status ''403 Forbidden''))))"
      using charges_quota_cases [OF assms(2) inv(3)] assms(5,6) inv(2,4) by simp
    show ?thesis
    proof (cases "u + int (flood_sum gs) + 1 \<le> M")
      case True
      let ?gs = "gs[i := Running (Suc j) (Suc c)]" and ?qm = "qm\<lparr>unsequenced := (unsequenced qm)(t \<mapsto> u + int (flood_sum gs) + 1)\<rparr>"
      have sum: "flood_sum ?gs = Suc (flood_sum gs)"
        using flood_sum_update [of i gs "Running (Suc j) (Suc c)"] inv(1) assms(8) Running by simp
      have "flood_inv t M u (past @ [i]) ?qm ?gs"
        unfolding flood_inv_def
      proof (intro conjI allI impI)
        fix k :: nat assume k: "k < 5"
        show "case ?gs ! k of Running j c \<Rightarrow> j = c \<and> j = count_list (past @ [i]) k | Finished c \<Rightarrow> u + int (flood_sum ?gs) = M"
          using inv(1) inv(5) [OF k] True j k by (cases "k = i") (auto split: goroutine.splits)
      qed (use inv sum True in auto)
      then show ?thesis using add True \<open>j < 800\<close> by (simp add: flood_turn_def Running chain [simplified])
    next
      case False
      let ?gs = "gs[i := Finished c]"
      have sum: "flood_sum ?gs = flood_sum gs"
        using flood_sum_update [of i gs "Finished c"] inv(1) assms(8) Running by simp
      have full: "u + int (flood_sum gs) = M" using False inv(4) by simp
      have "flood_inv t M u (past @ [i]) qm ?gs"
        unfolding flood_inv_def
      proof (intro conjI allI impI)
        fix k :: nat assume k: "k < 5"
        show "case ?gs ! k of Running j c \<Rightarrow> j = c \<and> j = count_list (past @ [i]) k | Finished c \<Rightarrow> u + int (flood_sum ?gs) = M"
          using inv(1) inv(5) [OF k] full sum k by (cases "k = i") (auto split: goroutine.splits)
      qed (use inv sum in auto)
      then show ?thesis using add False \<open>j < 800\<close> assms(4) by (simp add: flood_turn_def Running chain [simplified])
    qed
  qed
qed

lemma flood_runs:
  assumes "charges_quota api t" "\<forall>n. \<exists>chain. gen n = Inr chain"
    "show_Error pr (External (http_status ''403 Forbidden'')) = http_status ''403 Forbidden''"
    "0 \<le> u" "M < maxInt64" "M - u < 800" "set sched \<subseteq> {..<5}" "flood_inv t M u past qm gs"
  shows "\<exists>qm' gs'. flood api pr gen sched gs qm = (qm', Inr gs') \<and> flood_inv t M u (past @ sched) qm' gs'"
  using assms(7,8)
proof (induction sched arbitrary: past qm gs)
  case Nil
  then show ?case by simp
next
  case (Cons i sched)
  have "i < 5" using Cons.prems(1) by simp
  from flood_turn_inv [OF Cons.prems(2) assms(1-6) this] obtain qm1 gs1
    where one: "flood_turn api pr gen i gs qm = (qm1, Inr gs1)" "flood_inv t M u (past @ [i]) qm1 gs1"
    by blast
  then show ?case using Cons.IH [OF _ one(2)] Cons.prems(1) by (simp add: andThen_def)
qed



section \<open>A concrete flood\<close>

definition quota_api :: "QuotaManager log_api" where
  "quota_api =
    \<lparr>GetSTH = (\<lambda>w. (w, Inl ErrNotFound)),
     AddChain = (\<lambda>qm chain. case GetTokens qm 1 [\<lparr>spec_Group = Tree, spec_Kind = Write, spec_TreeID = 3, spec_User = GetUser\<rparr>] of
         (qm, Inl e) \<Rightarrow> (qm, Inl (External (http_status ''403 Forbidden''))) | (qm, Inr _) \<Rightarrow> (qm, Inr 0)),
     httpGet = (\<lambda>w path params. (w, Inr [])), decodeConsistency = (\<lambda>_. Inr []), decodeEntries = (\<lambda>_. Inr []),
     decodeProof = (\<lambda>_. Inl ErrNotFound), decodeEntryAndProof = (\<lambda>_. Inl ErrNotFound),
     LogEntryFromLeaf = (\<lambda>_ _. Inr None), unmarshalLeafInput = (\<lambda>b. Inr (b, [])), X509Certificate = (\<lambda>_. Inr []),
     Sleep = (\<lambda>w. w), Int63 = (\<lambda>w. (w, 0))\<rparr>"

definition plain_printer :: printer where
  "plain_printer =
    \<lparr>show_Consistency = (\<lambda>_. []), show_Entries = (\<lambda>_. []), show_Proof = (\<lambda>_. []), show_EntryAndProof = (\<lambda>_. []),
     show_Error = (\<lambda>e. case e of External s \<Rightarrow> s | _ \<Rightarrow> [])\<rparr>"


end
