(* ===== verification/Spec2Isabelle.thy ===== *)
theory Spec2Isabelle
  imports Durability MergeDelay ReadProps QueueSteps LocalSubtrees ServerMain CacheJanitor TesterMain
begin

text \<open>
  \<^bold>\<open>ct-log, a Certificate Transparency log.\<close> The program serves the RFC 6962 API with Trillian as a library: the
  front end and the sequencer are Trillian's, and the program supplies the storage underneath, the quota, the
  configuration and the glue. This library models that storage and proves what makes it a correct log. Paths are
  relative to \<^verbatim>\<open>src/\<close>.

  \<^bold>\<open>How the parts interact.\<close> A submitted leaf goes through the in-process client (\<^verbatim>\<open>cmd/server/client.go\<close>) to Trillian's server,
  which takes tokens from the quota manager and calls \<^verbatim>\<open>LogStorage.QueueLeaves\<close>; \<^verbatim>\<open>queueLeaf\<close> looks for duplicates in the leaf
  cache and in the identity index and writes the leaf to the queue in the local database. The sequencer runs a
  callback in \<^verbatim>\<open>ReadWriteTransaction\<close>: it dequeues leaves, uploads them to the remote database, appends their hashes to the
  frontier, indexes them, sets tree nodes through Trillian's subtree cache and stores a signed root, which
  must match the head of the frontier; \<^verbatim>\<open>Commit\<close> writes all of it to the local database in one batch. A state machine
  guards the order of these calls. Readers start from the most recent root and read leaves from the remote database
  and nodes from the local one.

  \<^bold>\<open>Theories.\<close>
  \<^item> \<^verbatim>\<open>Prelude\<close>: Go values (byte slices with nil, errors and panics as values, 64-bit wrap-around), byte order, generic lemmas.
  \<^item> \<^verbatim>\<open>Sha256\<close>: an executable SHA-256 (the standard library's \<^verbatim>\<open>crypto/sha256\<close>) and what a collision is.
  \<^item> \<^verbatim>\<open>Frontier\<close> (\<^verbatim>\<open>custom/frontier/frontier.go\<close>): appending leaf hashes and the root; shown to compute the RFC 6962 Merkle tree hash,
    defined separately, and to bind the log up to an exhibited collision.
  \<^item> \<^verbatim>\<open>Fsm\<close> (\<^verbatim>\<open>ct/fsm.go\<close>): the state machine; the sequences of operations that can commit.
  \<^item> \<^verbatim>\<open>Cache\<close> (\<^verbatim>\<open>ct/cache/cache.go\<close>) and \<^verbatim>\<open>LeafCache\<close> (the leaf cache of \<^verbatim>\<open>ct/tree_tx.go\<close>): expiry, eviction, the janitor, key separation;
    \<^verbatim>\<open>CacheJanitor\<close>: the janitor goroutine from its start to the finalizer that stops it.
  \<^item> \<^verbatim>\<open>GoTypes\<close>: Trillian's data types and the codecs, with the round-trip laws as the locale \<^verbatim>\<open>codec_pair\<close>; \<^verbatim>\<open>Varint\<close> and \<^verbatim>\<open>GoFmt\<close>:
    \<^verbatim>\<open>encoding/binary\<close> varints and the printing verbs the program uses, with their inverses.
  \<^item> \<^verbatim>\<open>Leveldb\<close>: an ordered key-value store with batches, range scans and failures, behind the locale \<^verbatim>\<open>ordered_store\<close>.
  \<^item> \<^verbatim>\<open>RowKeys\<close>, \<^verbatim>\<open>Local\<close>, \<^verbatim>\<open>LocalSubtrees\<close>, \<^verbatim>\<open>LocalIndex\<close>, \<^verbatim>\<open>LocalQueue\<close> (\<^verbatim>\<open>custom/local.go\<close>): the key space, the operations, and the behaviour
    of subtrees, indexes, root and queue.
  \<^item> \<^verbatim>\<open>Remote\<close>, \<^verbatim>\<open>RemoteLog\<close> (\<^verbatim>\<open>custom/remote.go\<close>): batches of 1024 leaves as objects, refined to a list of leaves;
    \<^verbatim>\<open>RemoteTail\<close>: the same with the leftovers of uploads that failed or were cut off halfway.
  \<^item> \<^verbatim>\<open>ReadTreeTx\<close>, \<^verbatim>\<open>ReadProps\<close> (\<^verbatim>\<open>ct/read_tree_tx.go\<close>), \<^verbatim>\<open>TreeTx\<close> (\<^verbatim>\<open>ct/tree_tx.go\<close>), \<^verbatim>\<open>LogStorage\<close> (\<^verbatim>\<open>ct/log_storage.go\<close>): transactions and the
    storage; \<^verbatim>\<open>Queueing\<close>: duplicate suppression; \<^verbatim>\<open>QueueSteps\<close>: submissions that interleave between their atomic actions, what they queue and the
    duplicates that overlapping ones let through; \<^verbatim>\<open>PublishedRoots\<close>: every readable root is a Merkle root and a sequencing run extends
    the log; \<^verbatim>\<open>Transactions\<close>: all or nothing; \<^verbatim>\<open>AppendOnly\<close>: the log only grows as long as the transactions of a tree do not overlap, and
    forks when they do; \<^verbatim>\<open>Sequencing\<close>: a sequencing run moves leaves from the queue to the indexes and the remote log;
    \<^verbatim>\<open>Durability\<close>: the leaves of every published root can be read from the remote database, through crashes and failed uploads;
    \<^verbatim>\<open>MergeDelay\<close>: leaves are sequenced in the order of their queue times and none starves, with a bound in passes of the sequencer.
  \<^item> \<^verbatim>\<open>QuotaManager\<close> (\<^verbatim>\<open>ct/quota_manager.go\<close>): charging and refunding, over a locale of accounts; \<^verbatim>\<open>AdminStorage\<close> (\<^verbatim>\<open>config/admin_storage.go\<close>) behind
    the locale \<^verbatim>\<open>admin_reader\<close>, and its client \<^verbatim>\<open>ReadLogTx\<close> (\<^verbatim>\<open>ct/read_log_tx.go\<close>); \<^verbatim>\<open>Config\<close> (\<^verbatim>\<open>config/config.go\<close>); \<^verbatim>\<open>Client\<close>
    (\<^verbatim>\<open>cmd/server/client.go\<close> and its generator \<^verbatim>\<open>cmd/admin/gen-server-client\<close>).
  \<^item> \<^verbatim>\<open>Server\<close>, \<^verbatim>\<open>ServerMain\<close> (\<^verbatim>\<open>cmd/server/main.go\<close>): the start of the logs and the caching handler; the whole of \<^verbatim>\<open>main\<close> with its exits, and the
    running process (goroutines, signals, the sequencing loop) as a step relation with its shutdown. \<^verbatim>\<open>ServeMux\<close>: the request
    multiplexer of the standard library as the longest match over the routes, the routes of a log, what the server answers, and
    the debugging server (\<^verbatim>\<open>cmd/server/metrics.go\<close>).
  \<^item> \<^verbatim>\<open>MerkleProofs\<close>: the proof verifier of Trillian (\<^verbatim>\<open>vendor/github.com/google/trillian/merkle\<close>) as the tester calls it. Its bit-wise chaining is
    shown equal to the recursion of the tree; genuine proofs are accepted, and accepted ones bind the log up to an exhibited
    collision. A consistency proof is treated as an inclusion proof in the tree of blocks of leaves.
  \<^item> \<^verbatim>\<open>Drand\<close>, \<^verbatim>\<open>Tester\<close>, \<^verbatim>\<open>TesterMain\<close> (\<^verbatim>\<open>cmd/admin/ct-log-tester\<close>): the reproducible certificates, the client and its checks with what they
    accept, and the program from loading the keys to its final flood, run against the quota manager.

  \<^bold>\<open>State and effects.\<close> Structs are records, maps are maps or association lists, errors and panics are the left side of a
  sum. Calls pass the state they change: the record \<^verbatim>\<open>world\<close> holds the local database, the leaf cache and the uploads so far, the
  record \<^verbatim>\<open>env\<close> what one call meets: clock, random bytes, failures of the databases, responses of the remote
  database, iteration order of maps. Histories (\<^verbatim>\<open>local_run\<close>, \<^verbatim>\<open>ls_run\<close>, \<^verbatim>\<open>quota_step\<close>) interleave operations of several transactions in any
  order, each with its own failures; \<^verbatim>\<open>event_step\<close> adds crashes, which lose the transactions and the leaf cache and may strike between two
  uploads. \<^verbatim>\<open>pass_history\<close> consists of whole passes of the sequencer, with submissions between any two of their calls, failed attempts and
  restarts. \<^verbatim>\<open>serial\<close> picks the histories in which the transactions of a tree do not overlap; one place per
  tree for its current transaction, which is what a single sequencing worker gives, is enough for it
  (\<^verbatim>\<open>one_place_per_tree_serial\<close>). The goroutines of the server are the inductive relation \<^verbatim>\<open>proc_step\<close>, those of a cache \<^verbatim>\<open>Cache_step\<close>; their
  invariants and bounds come from the locales \<^verbatim>\<open>step_invariant\<close> and \<^verbatim>\<open>step_potential\<close> of \<^verbatim>\<open>Prelude\<close>.

  \<^bold>\<open>Parameters and hypotheses.\<close> Protobuf, gob and JSON codecs, the HTTP and B2 clients, Trillian's subtree cache, interceptor,
  server and front end, and the parsers of YAML, PEM, times and durations are arguments. Theorems that need them say
  what they need: codecs decode what they encode (for gob: frontiers, with nil slots kept), the HTTP client
  serves the uploaded objects. A caller's signed root must carry the same root hash in its blob and in
  its field (\<^verbatim>\<open>sth_sound\<close>), and leaves to be sequenced must have a Merkle leaf hash. For the append-only property the libraries must
  not return this program's own \<^verbatim>\<open>ErrTreeNeedsInit\<close> (\<^verbatim>\<open>foreign_errors\<close>), or a tree with a root would be started afresh. Histories with crashes
  need more of a sequencing call (\<^verbatim>\<open>update_good\<close>): its leaves are numbered from the size of the tree found at the begin of the transaction, as
  Trillian's sequencer does, and what the web server returns for an object, if anything, is what was uploaded last. The bound on the wait of a leaf
  (\<^verbatim>\<open>sequencing_pass\<close>) needs the sequencer to keep the identity hashes of the leaves it was handed. Every theorem with hypotheses
  has a concrete instance after it.

  \<^bold>\<open>Bounds and termination.\<close> All loops are total functions: structural, or with a measure (the rest of the sequence
  numbers in \<^verbatim>\<open>GetLeaves_loop\<close>, the rest of the keys in \<^verbatim>\<open>DeleteExpired_loop\<close>, the distance to the tree size in \<^verbatim>\<open>range_indexes\<close>). The loop
  of \<^verbatim>\<open>PutLeaves\<close> over the 1024 positions of a batch is a recursion with that number as its counter, as in the code. The
  endless loops of the quota watchers are modelled by their turns, and so are the goroutines of the
  tester's flood; the loops of the janitor and of the sequencer are steps, with the proof that the latter ends after a signal within six. The one loop that may not end, a full read of a single byte in \<^verbatim>\<open>Drand\<close>, is a partial function
  whose value is \<^verbatim>\<open>None\<close> there and proved to be defined for all other sizes.

  \<^bold>\<open>Not modelled.\<close> The Trillian servers, its sequencer and the front end are arguments: of the registries that \<^verbatim>\<open>main\<close> builds for them
  only what reaches the model is kept (the configuration, the remote database and the quota). A pass of the sequencer over
  the logs is one step of the process. The settings of the HTTP client in \<^verbatim>\<open>custom/remote.go\<close>, log output, and the position of a message in
  the tester's \<^verbatim>\<open>fatalf\<close> are left out; the random draws that \<^verbatim>\<open>math/rand\<close> rejects are no draws of the model. Patterns with host names and
  query strings take no part in routing. The mutexes are modelled by the granularity of the steps: what runs under a lock is one
  step. In the histories of storage operations a call of \<^verbatim>\<open>queueLeaf\<close> is one step as well, although no lock is held over it;
  \<^verbatim>\<open>QueueSteps\<close> takes it apart into the actions that are atomic and shows that a call without interruption is the same
  (\<^verbatim>\<open>queueLeaf_is_its_actions\<close>).
\<close>

end
